(* ===== verification/Prelude.thy ===== *)
theory Prelude
  imports Main "HOL-Library.Word"
begin

text \<open>
  What every component of the development shares: the reasons why C code stops
  (\<open>stop\<close>), programs as values that either return, stop or never return (\<open>prog\<close>),
  pointers into typed heaps, and singly linked lists in such a heap, the data
  structure of \<open>threadqueue.c\<close>, \<open>hashmap.c\<close> and \<open>queue.c\<close>.
\<close>

named_theorems heap_simps "reading, writing and freeing heap nodes"
named_theorems chain_simps "linked lists under heap updates"

section \<open>Programs\<close>

text \<open>
  A C statement sequence can return, stop (a null or dangling pointer is
  dereferenced, an access leaves its array, an indeterminate value is used, a signed
  addition overflows, the process calls \<open>exit\<close>, a blocking call waits for input that never comes), or run for ever.
  The last one is \<open>None\<close>, so that \<open>partial_function (option)\<close> gives loops their meaning.
\<close>

datatype stop =
    Null_deref
  | Dangling
  | Out_of_bounds
  | Uninitialised
  | Overflow
  | Exited
  | Blocked

type_synonym 'a prog = "(stop + 'a) option"

abbreviation ret :: "'a \<Rightarrow> 'a prog" where
  "ret x \<equiv> Some (Inr x)"

abbreviation stop_with :: "stop \<Rightarrow> 'a prog" where
  "stop_with e \<equiv> Some (Inl e)"

definition bindp :: "'a prog \<Rightarrow> ('a \<Rightarrow> 'b prog) \<Rightarrow> 'b prog" where
  "bindp m f = Option.bind m (case_sum (\<lambda>e. Some (Inl e)) f)"

lemma bindp_simps [simp]:
  "bindp (ret x) f = f x"
  "bindp (stop_with e) f = stop_with e"
  "bindp None f = None"
  by (simp_all add: bindp_def)

lemma bindp_assoc: "bindp (bindp m f) g = bindp m (\<lambda>x. bindp (f x) g)"
  by (cases m) (auto simp: bindp_def split: sum.splits)

lemma bindp_ret_conv:
  "bindp m f = ret y \<longleftrightarrow> (\<exists>x. m = ret x \<and> f x = ret y)"
  by (cases m) (auto simp: bindp_def split: sum.splits)

lemma bindp_retE:
  assumes "bindp m f = ret y"
  obtains x where "m = ret x" "f x = ret y"
  using assms by (auto simp: bindp_ret_conv)

lemma bindp_cong [fundef_cong]:
  "m = m' \<Longrightarrow> (\<And>x. m' = ret x \<Longrightarrow> f x = f' x) \<Longrightarrow> bindp m f = bindp m' f'"
  by (cases m') (auto simp: bindp_def split: sum.splits)

lemma bindp_mono [partial_function_mono]:
  assumes "mono_option B" and "\<And>y. mono_option (\<lambda>f. C y f)"
  shows "mono_option (\<lambda>f. bindp (B f) (\<lambda>y. C y f))"
proof -
  have "mono_option (\<lambda>f. case_sum (\<lambda>e. Some (Inl e)) (\<lambda>y. C y f) r)" for r :: "stop + 'c"
    using assms(2) by (cases r) (auto intro: partial_function_mono)
  then show ?thesis
    unfolding bindp_def by (intro bind_mono assms(1))
qed

section \<open>Pointers and typed heaps\<close>

text \<open>
  A pointer is \<open>None\<close> (\<open>NULL\<close>) or an address. Each struct type has its own heap, a map
  from the addresses that are allocated to the node stored there; a freed address leaves the
  map. What \<open>malloc\<close> answers is an argument of the operation that calls it
  (\<open>None\<close> when it fails); that it answers an address not in use is a hypothesis.
\<close>

type_synonym addr = nat
type_synonym ptr = "addr option"
type_synonym 'n heap = "addr \<rightharpoonup> 'n"

definition load :: "'n heap \<Rightarrow> ptr \<Rightarrow> 'n prog" where
  "load h p = (case p of None \<Rightarrow> stop_with Null_deref
     | Some a \<Rightarrow> (case h a of None \<Rightarrow> stop_with Dangling | Some n \<Rightarrow> ret n))"

definition modify :: "'n heap \<Rightarrow> ptr \<Rightarrow> ('n \<Rightarrow> 'n) \<Rightarrow> 'n heap prog" where
  "modify h p f = bindp (load h p) (\<lambda>n. ret (h(the p \<mapsto> f n)))"

definition release :: "'n heap \<Rightarrow> ptr \<Rightarrow> 'n heap prog" where
  "release h p = (case p of None \<Rightarrow> ret h
     | Some a \<Rightarrow> (case h a of None \<Rightarrow> stop_with Dangling | Some _ \<Rightarrow> ret (h(a := None))))"

lemma load_simps [heap_simps, simp]:
  "load h None = stop_with Null_deref"
  "h a = None \<Longrightarrow> load h (Some a) = stop_with Dangling"
  "h a = Some n \<Longrightarrow> load h (Some a) = ret n"
  by (simp_all add: load_def)

lemma modify_simps [heap_simps, simp]:
  "modify h None f = stop_with Null_deref"
  "h a = None \<Longrightarrow> modify h (Some a) f = stop_with Dangling"
  "h a = Some n \<Longrightarrow> modify h (Some a) f = ret (h(a \<mapsto> f n))"
  by (simp_all add: modify_def)

lemma release_simps [heap_simps, simp]:
  "release h None = ret h"
  "h a = None \<Longrightarrow> release h (Some a) = stop_with Dangling"
  "h a = Some n \<Longrightarrow> release h (Some a) = ret (h(a := None))"
  by (simp_all add: release_def)

lemma load_ret [heap_simps]: "load h p = ret n \<longleftrightarrow> (\<exists>a. p = Some a \<and> h a = Some n)"
  by (auto simp: load_def split: option.splits)

lemma modify_ret [heap_simps]:
  "modify h p f = ret h' \<longleftrightarrow> (\<exists>a n. p = Some a \<and> h a = Some n \<and> h' = h(a \<mapsto> f n))"
  by (auto simp: modify_def bindp_ret_conv load_ret)

section \<open>Linked lists in a heap\<close>

text \<open>
  \<open>chain nx h p as q\<close>: following the field \<open>nx\<close> from \<open>p\<close> visits exactly the addresses
  \<open>as\<close>, all of them allocated, and arrives at \<open>q\<close>.
\<close>

primrec chain :: "('n \<Rightarrow> ptr) \<Rightarrow> 'n heap \<Rightarrow> ptr \<Rightarrow> addr list \<Rightarrow> ptr \<Rightarrow> bool" where
  "chain nx h p [] q \<longleftrightarrow> p = q"
| "chain nx h p (a # as) q \<longleftrightarrow>
     p = Some a \<and> (case h a of None \<Rightarrow> False | Some n \<Rightarrow> chain nx h (nx n) as q)"

lemma chain_Cons_conv:
  "chain nx h p (a # as) q \<longleftrightarrow> p = Some a \<and> (\<exists>n. h a = Some n \<and> chain nx h (nx n) as q)"
  by (auto split: option.splits)

lemma chain_append [chain_simps]:
  "chain nx h p (as @ bs) q \<longleftrightarrow> (\<exists>r. chain nx h p as r \<and> chain nx h r bs q)"
  by (induction as arbitrary: p) (auto split: option.splits)

lemma chain_None [simp]: "chain nx h None as None \<longleftrightarrow> as = []"
  by (cases as) auto

lemma chain_dom: "chain nx h p as q \<Longrightarrow> a \<in> set as \<Longrightarrow> \<exists>n. h a = Some n"
  by (induction as arbitrary: p) (auto split: option.splits)

lemma chain_frame [chain_simps]:
  "a \<notin> set as \<Longrightarrow> chain nx (h(a := v)) p as q = chain nx h p as q"
  by (induction as arbitrary: p) (auto split: option.splits)

lemma chain_cong:
  "(\<And>a. a \<in> set as \<Longrightarrow> map_option nx (h a) = map_option nx (h' a)) \<Longrightarrow>
   chain nx h p as q = chain nx h' p as q"
proof (induction as arbitrary: p)
  case (Cons a as)
  from Cons.prems [of a] have "map_option nx (h a) = map_option nx (h' a)" by simp
  moreover have "chain nx h r as q = chain nx h' r as q" for r
    using Cons by simp
  ultimately show ?case by (cases "h a"; cases "h' a") auto
qed simp

lemma chain_not_None: "chain nx h p as None \<Longrightarrow> as \<noteq> [] \<Longrightarrow> p \<noteq> None"
  by (cases as) auto

lemma chain_start: "chain nx h (Some a) as None \<Longrightarrow> \<exists>bs. as = a # bs"
  by (cases as) auto

lemma chain_unique: "chain nx h p as None \<Longrightarrow> chain nx h p bs None \<Longrightarrow> as = bs"
proof (induction as arbitrary: p bs)
  case Nil
  then show ?case by (cases bs) auto
next
  case (Cons a as)
  then show ?case by (cases bs) (auto split: option.splits)
qed

lemma chain_distinct: "chain nx h p as None \<Longrightarrow> distinct as"
proof (induction as arbitrary: p)
  case (Cons a as)
  then obtain n where n: "h a = Some n" "chain nx h (nx n) as None"
    by (auto split: option.splits)
  have "a \<notin> set as"
  proof
    assume "a \<in> set as"
    then obtain us vs where as: "as = us @ a # vs" by (auto dest: split_list)
    with n have "chain nx h (nx n) vs None" by (auto simp: chain_append)
    with n(2) have "as = vs" by (rule chain_unique)
    with as show False by simp
  qed
  with Cons.IH n show ?case by simp
qed simp

text \<open>Unlinking a node from the middle of a chain.\<close>

lemma chain_unlink:
  assumes c: "chain nx h p (us @ b # a # vs) None" and n: "h a = Some c" and m: "nx m = nx c"
  shows "chain nx (h(b \<mapsto> m, a := None)) p (us @ b # vs) None"
proof -
  have d: "distinct (us @ b # a # vs)" using c by (rule chain_distinct)
  from c obtain k where k: "h b = Some k" "chain nx h p us (Some b)" "chain nx h (nx c) vs None"
    using n by (auto simp: chain_append split: option.splits)
  with d m show ?thesis by (auto simp: chain_append chain_frame)
qed

text \<open>The first element that satisfies a predicate, with what lies before it.\<close>

lemma find_SomeE:
  assumes "find P xs = Some x"
  obtains us vs where "xs = us @ x # vs" "P x" "\<forall>u \<in> set us. \<not> P u"
  using assms
proof (induction xs arbitrary: thesis)
  case (Cons y xs)
  show ?case
  proof (cases "P y")
    case True
    with Cons.prems show ?thesis by (metis append_Nil empty_iff find.simps(2) list.set(1) option.inject)
  next
    case False
    with Cons.prems(2) have "find P xs = Some x" by simp
    then obtain us vs where "xs = us @ x # vs" "P x" "\<forall>u \<in> set us. \<not> P u"
      using Cons.IH by blast
    with False Cons.prems(1) [of "y # us" vs] show ?thesis by simp
  qed
qed simp

section \<open>Linked lists with a head and a tail pointer\<close>

text \<open>
  \<open>lqueue nx h p t as\<close>: the head pointer \<open>p\<close> starts the null-terminated list \<open>as\<close>, and the
  tail pointer \<open>t\<close> is \<open>NULL\<close> on the empty list and the last node otherwise.
\<close>

definition lqueue :: "('n \<Rightarrow> ptr) \<Rightarrow> 'n heap \<Rightarrow> ptr \<Rightarrow> ptr \<Rightarrow> addr list \<Rightarrow> bool" where
  "lqueue nx h p t as \<longleftrightarrow>
     chain nx h p as None \<and> t = (if as = [] then None else Some (last as))"

lemma lqueueD: "lqueue nx h p t as \<Longrightarrow> chain nx h p as None"
  by (simp add: lqueue_def)

lemma lqueue_empty [simp]: "lqueue nx h p t [] \<longleftrightarrow> p = None \<and> t = None"
  by (auto simp: lqueue_def)

lemma lqueue_single:
  "h a = Some n \<Longrightarrow> nx n = None \<Longrightarrow> lqueue nx h (Some a) (Some a) [a]"
  by (simp add: lqueue_def)

lemma lqueue_ConsE:
  assumes q: "lqueue nx h p t (a # as)"
  obtains n where "p = Some a" "h a = Some n" "chain nx h (nx n) as None" "a \<notin> set as"
    "nx n = None \<longleftrightarrow> as = []" "t = Some (last (a # as))"
proof -
  from q obtain n where n: "p = Some a" "h a = Some n" "chain nx h (nx n) as None"
    by (auto simp: lqueue_def split: option.splits)
  moreover have "a \<notin> set as"
    using chain_distinct [OF lqueueD [OF q]] by simp
  moreover have "nx n = None \<longleftrightarrow> as = []"
    using n(3) by (cases as) auto
  ultimately show thesis using q by (intro that) (auto simp: lqueue_def)
qed

text \<open>Linking a node behind the tail appends it to the list.\<close>

lemma lqueue_snoc:
  assumes q: "lqueue nx h p (Some t) as" and new: "a \<notin> set as" "h a = Some m" "nx m = None"
    and upd: "nx n = Some a"
  shows "lqueue nx (h(t \<mapsto> n)) p (Some a) (as @ [a])"
proof -
  from q have "as \<noteq> []" and t: "t = last as" by (auto simp: lqueue_def split: if_splits)
  then obtain us where as: "as = us @ [t]" by (metis append_butlast_last_id)
  from q have c: "chain nx h p as None" by (rule lqueueD)
  then have "t \<notin> set us" using chain_distinct [OF c] as by simp
  moreover from c as have "chain nx h p us (Some t)"
    by (auto simp: chain_append split: option.splits)
  moreover have "a \<noteq> t" using new(1) as by auto
  ultimately show ?thesis
    using new upd by (simp add: lqueue_def as chain_append chain_frame)
qed

text \<open>The field \<open>g\<close> of the nodes at \<open>as\<close>; a write elsewhere, or to another field, keeps it.\<close>

definition field_vals :: "('n \<Rightarrow> 'f) \<Rightarrow> 'n heap \<Rightarrow> addr list \<Rightarrow> 'f option list" where
  "field_vals g h as = map (\<lambda>a. map_option g (h a)) as"

lemma field_vals_simps [simp]:
  "field_vals g h [] = []"
  "field_vals g h (a # as) = map_option g (h a) # field_vals g h as"
  "field_vals g h (as @ bs) = field_vals g h as @ field_vals g h bs"
  by (simp_all add: field_vals_def)

lemma field_vals_frame [chain_simps]:
  "a \<notin> set as \<Longrightarrow> field_vals g (h(a := v)) as = field_vals g h as"
  by (induction as) auto

lemma field_vals_same [chain_simps]:
  "map_option g (h t) = Some (g n) \<Longrightarrow> field_vals g (h(t \<mapsto> n)) as = field_vals g h as"
  by (induction as) auto

lemma field_vals_Nil_conv [simp]: "field_vals g h as = [] \<longleftrightarrow> as = []"
  by (simp add: field_vals_def)

lemma field_vals_eq_Cons_conv:
  "field_vals g h as = x # xs \<longleftrightarrow>
     (\<exists>a as'. as = a # as' \<and> map_option g (h a) = x \<and> field_vals g h as' = xs)"
  by (cases as) auto

lemma fresh_not_in_lqueue: "lqueue nx h p t as \<Longrightarrow> h a = None \<Longrightarrow> a \<notin> set as"
  using chain_dom lqueueD by fastforce

text \<open>Unlinking the head leaves the list behind it.\<close>

lemma lqueue_tl:
  assumes "lqueue nx h p t (a # as)" and "h a = Some n"
  shows "lqueue nx (h(a := v)) (nx n) (if nx n = None then None else t) as"
  using assms(1)
proof (rule lqueue_ConsE)
  fix n'
  assume "h a = Some n'" "chain nx h (nx n') as None" "a \<notin> set as" "nx n' = None \<longleftrightarrow> as = []"
    "t = Some (last (a # as))"
  then show ?thesis using assms(2) by (auto simp: lqueue_def chain_frame)
qed

lemma lqueue_frame:
  "a \<notin> set as \<Longrightarrow> lqueue nx (h(a := v)) p t as = lqueue nx h p t as"
  by (simp add: lqueue_def chain_frame)

lemma lqueue_cong:
  "(\<And>a. a \<in> set as \<Longrightarrow> map_option nx (h a) = map_option nx (h' a)) \<Longrightarrow>
   lqueue nx h p t as = lqueue nx h' p t as"
  using chain_cong [of as nx h h' p None] by (simp add: lqueue_def)

text \<open>The tail of a non-empty list, after a new node was allocated.\<close>

lemma lqueue_tail:
  assumes "lqueue nx h p (Some t) as" and "a \<notin> set as"
  shows "\<exists>n. (h(a := v)) t = Some n \<and> t \<noteq> a \<and> t \<in> set as"
proof -
  from assms(1) have "t \<in> set as" by (auto simp: lqueue_def split: if_splits)
  moreover from this obtain n where "h t = Some n" using chain_dom lqueueD [OF assms(1)] by fast
  ultimately show ?thesis using assms(2) by auto
qed

lemma lqueue_link:
  assumes q: "lqueue nx h p (Some t) as" and new: "a \<notin> set as" "nx m = None"
    and upd: "nx n = Some a"
  shows "lqueue nx (h(a \<mapsto> m, t \<mapsto> n)) p (Some a) (as @ [a])"
proof (rule lqueue_snoc [where m = m])
  show "lqueue nx (h(a \<mapsto> m)) p (Some t) as" using q new(1) by (simp add: lqueue_frame)
qed (use new upd in simp_all)

end
