(* ===== verification/FifoPool.thy ===== *)
theory FifoPool
  imports Prelude
begin

text \<open>
  The interface between a FIFO queue and the pool of threads that serves it. The key-value
  server has two such pairs: \<open>client_threads\<close> over \<open>threadqueue.c\<close> and \<open>hash_threads\<close> over the
  node queue of \<open>hashmap.c\<close>. Both run the same loop: lock, dequeue, on an empty queue wait
  on the condition variable and dequeue once more, unlock, handle the item. The loop is a
  step relation over the queue operations; the locale \<open>fifo\<close> states what the loop relies
  on, and its lemmas hold for both pools.
\<close>

section \<open>The worker loop\<close>

datatype 'a worker =
    Ready           \<comment> \<open>at the top of the loop\<close>
  | Waiting         \<comment> \<open>inside \<open>pthread_cond_wait\<close>\<close>
  | Woken           \<comment> \<open>returned from \<open>pthread_cond_wait\<close>, the lock held again\<close>
  | Running 'a      \<comment> \<open>in the handler, the lock released\<close>

text \<open>One critical section of the loop: the first \<open>dequeue\<close>, or the one after the wait.\<close>

fun worker_enter ::
  "('q \<Rightarrow> ('a option \<times> 'q) prog) \<Rightarrow> 'q \<Rightarrow> 'a worker \<Rightarrow> ('q \<times> 'a worker) prog" where
  "worker_enter deq q Ready =
     bindp (deq q) (\<lambda>(r, q'). ret (q', case r of None \<Rightarrow> Waiting | Some x \<Rightarrow> Running x))"
| "worker_enter deq q Woken =
     bindp (deq q) (\<lambda>(r, q'). ret (q', case r of None \<Rightarrow> Ready | Some x \<Rightarrow> Running x))"
| "worker_enter deq q Waiting = ret (q, Waiting)"
| "worker_enter deq q (Running x) = ret (q, Running x)"

text \<open>
  \<open>pthread_cond_signal\<close> wakes a waiting thread if there is one; which one is the
  scheduler's choice \<open>i\<close>.
\<close>

definition cond_signal :: "nat \<Rightarrow> 'a worker list \<Rightarrow> 'a worker list" where
  "cond_signal i ws = (if i < length ws \<and> ws ! i = Waiting then ws[i := Woken] else ws)"

definition may_signal :: "nat \<Rightarrow> 'a worker list \<Rightarrow> bool" where
  "may_signal i ws \<longleftrightarrow> (i < length ws \<and> ws ! i = Waiting) \<or> Waiting \<notin> set ws"

record ('q, 'a) pool =
  queue :: 'q
  workers :: "'a worker list"
  produced :: "'a list"   \<comment> \<open>history: what was enqueued, oldest first\<close>
  taken :: "'a list"      \<comment> \<open>history: what the workers dequeued, oldest first\<close>

text \<open>
  The steps: a producer enqueues an item, in a node \<open>malloc\<close> gave it, and signals; a worker runs one critical section;
  a waiting worker is woken without a signal, as POSIX allows; a handler returns.
\<close>

inductive pool_step ::
  "(addr \<Rightarrow> 'a \<Rightarrow> 'q \<Rightarrow> 'q prog) \<Rightarrow> ('q \<Rightarrow> ('a option \<times> 'q) prog) \<Rightarrow>
   (addr \<Rightarrow> 'q \<Rightarrow> bool) \<Rightarrow> ('q, 'a) pool \<Rightarrow> ('q, 'a) pool \<Rightarrow> bool" for enq deq fresh where
  produce: "fresh a (queue s) \<Longrightarrow> enq a x (queue s) = ret q \<Longrightarrow> may_signal i (workers s) \<Longrightarrow>
     pool_step enq deq fresh s
       (s\<lparr>queue := q, workers := cond_signal i (workers s), produced := produced s @ [x]\<rparr>)"
| enter: "i < length (workers s) \<Longrightarrow> workers s ! i \<in> {Ready, Woken} \<Longrightarrow>
     worker_enter deq (queue s) (workers s ! i) = ret (q, w) \<Longrightarrow>
     pool_step enq deq fresh s
       (s\<lparr>queue := q, workers := (workers s)[i := w],
          taken := taken s @ (case w of Running x \<Rightarrow> [x] | _ \<Rightarrow> [])\<rparr>)"
| spurious: "i < length (workers s) \<Longrightarrow> workers s ! i = Waiting \<Longrightarrow>
     pool_step enq deq fresh s (s\<lparr>workers := (workers s)[i := Woken]\<rparr>)"
| finish: "i < length (workers s) \<Longrightarrow> workers s ! i = Running x \<Longrightarrow>
     pool_step enq deq fresh s (s\<lparr>workers := (workers s)[i := Ready]\<rparr>)"

inductive pool_reach ::
  "(addr \<Rightarrow> 'a \<Rightarrow> 'q \<Rightarrow> 'q prog) \<Rightarrow> ('q \<Rightarrow> ('a option \<times> 'q) prog) \<Rightarrow>
   (addr \<Rightarrow> 'q \<Rightarrow> bool) \<Rightarrow> 'q \<Rightarrow> nat \<Rightarrow> ('q, 'a) pool \<Rightarrow> bool" for enq deq fresh q0 n where
  start: "pool_reach enq deq fresh q0 n
     \<lparr>queue = q0, workers = replicate n Ready, produced = [], taken = []\<rparr>"
| step: "pool_reach enq deq fresh q0 n s \<Longrightarrow> pool_step enq deq fresh s t \<Longrightarrow> pool_reach enq deq fresh q0 n t"

inductive_cases pool_stepE: "pool_step enq deq fresh s t"

lemma may_signal_ex: "\<exists>i. may_signal i ws"
  by (auto simp: may_signal_def in_set_conv_nth)

lemma worker_enter_length:
  "length (ws[i := w]) = length ws" by simp

section \<open>The queue interface\<close>

text \<open>
  \<open>rep q xs\<close>: the queue state \<open>q\<close> holds the items \<open>xs\<close>, head first. \<open>fresh a q\<close>: the address
  \<open>a\<close>, the answer of \<open>malloc\<close>, is not in use in \<open>q\<close>.
\<close>

locale fifo =
  fixes enq :: "addr \<Rightarrow> 'a \<Rightarrow> 'q \<Rightarrow> 'q prog"
    and deq :: "'q \<Rightarrow> ('a option \<times> 'q) prog"
    and fresh :: "addr \<Rightarrow> 'q \<Rightarrow> bool"
    and rep :: "'q \<Rightarrow> 'a list \<Rightarrow> bool"
    and empty :: "'q"
  assumes rep_empty: "rep empty []"
    and enq_rep: "rep q xs \<Longrightarrow> fresh a q \<Longrightarrow> \<exists>q'. enq a x q = ret q' \<and> rep q' (xs @ [x])"
    and deq_nil: "rep q [] \<Longrightarrow> deq q = ret (None, q)"
    and deq_cons: "rep q (x # xs) \<Longrightarrow> \<exists>q'. deq q = ret (Some x, q') \<and> rep q' xs"
begin

lemma deq_cases:
  assumes "rep q xs"
  obtains "xs = []" "deq q = ret (None, q)"
  | x ys q' where "xs = x # ys" "deq q = ret (Some x, q')" "rep q' ys"
  using assms deq_nil deq_cons by (cases xs) blast+

lemma enq_ret: "rep q xs \<Longrightarrow> fresh a q \<Longrightarrow> enq a x q = ret q' \<Longrightarrow> rep q' (xs @ [x])"
  using enq_rep [of q xs a x] by auto

text \<open>No item is lost, duplicated or overtaken.\<close>

definition fifo_inv :: "('q, 'a) pool \<Rightarrow> bool" where
  "fifo_inv s \<longleftrightarrow> (\<exists>xs. rep (queue s) xs \<and> produced s = taken s @ xs)"

lemma fifo_inv_step: "pool_step enq deq fresh s t \<Longrightarrow> fifo_inv s \<Longrightarrow> fifo_inv t"
proof (induction rule: pool_step.induct)
  case (produce a s x q i)
  then show ?case by (fastforce simp: fifo_inv_def dest: enq_ret)
next
  case (enter i s q w)
  then obtain xs where xs: "rep (queue s) xs" "produced s = taken s @ xs"
    by (auto simp: fifo_inv_def)
  from xs(1) show ?case
    by (rule deq_cases) (use enter xs in \<open>auto simp: fifo_inv_def\<close>)
qed (auto simp: fifo_inv_def)

lemma fifo_inv_reach: "pool_reach enq deq fresh empty n s \<Longrightarrow> fifo_inv s"
proof (induction rule: pool_reach.induct)
  case start
  show ?case using rep_empty by (simp add: fifo_inv_def)
qed (rule fifo_inv_step)

lemma served_in_order:
  "pool_reach enq deq fresh empty n s \<Longrightarrow> \<exists>xs. rep (queue s) xs \<and> produced s = taken s @ xs"
  using fifo_inv_reach by (simp add: fifo_inv_def)

text \<open>
  No wake-up is lost: when the queue holds an item, some worker is not waiting. The check
  for emptiness and the wait are one critical section, and every enqueue signals.
\<close>

definition wake_inv :: "('q, 'a) pool \<Rightarrow> bool" where
  "wake_inv s \<longleftrightarrow> (\<exists>xs. rep (queue s) xs \<and> (xs = [] \<or> (\<exists>w \<in> set (workers s). w \<noteq> Waiting)))"

lemma updated_wakes:
  "i < length ws \<Longrightarrow> w \<noteq> Waiting \<Longrightarrow> \<exists>v \<in> set (ws[i := w]). v \<noteq> Waiting"
  using set_update_memI by fastforce

lemma signal_wakes:
  "ws \<noteq> [] \<Longrightarrow> may_signal i ws \<Longrightarrow> \<exists>w \<in> set (cond_signal i ws). w \<noteq> Waiting"
proof (cases "i < length ws \<and> ws ! i = Waiting")
  case True
  then show ?thesis using updated_wakes [of i ws Woken] by (simp add: cond_signal_def)
next
  case False
  moreover assume "ws \<noteq> []" "may_signal i ws"
  ultimately have "hd ws \<in> set ws" "hd ws \<noteq> Waiting" "cond_signal i ws = ws"
    by (auto simp: may_signal_def cond_signal_def dest: hd_in_set)
  then show ?thesis by auto
qed

lemma wake_inv_step:
  "pool_step enq deq fresh s t \<Longrightarrow> workers s \<noteq> [] \<Longrightarrow> wake_inv s \<Longrightarrow> wake_inv t"
proof (induction rule: pool_step.induct)
  case (produce a s x q i)
  then obtain xs where "rep q (xs @ [x])" by (auto simp: wake_inv_def dest: enq_ret)
  with produce signal_wakes [of "workers s" i] show ?case by (auto simp: wake_inv_def)
next
  case (enter i s q w)
  then obtain xs where "rep (queue s) xs" by (auto simp: wake_inv_def)
  then show ?case
  proof (cases rule: deq_cases)
    case 1
    with enter have "rep q []" using \<open>rep (queue s) xs\<close> by auto
    then show ?thesis by (auto simp: wake_inv_def)
  next
    case (2 x ys q')
    with enter have "rep q ys" "w = Running x" by auto
    then show ?thesis using updated_wakes [of i "workers s" w] enter(1)
      by (auto simp: wake_inv_def)
  qed
next
  case (spurious i s)
  then show ?case using updated_wakes [of i "workers s" Woken]
    by (fastforce simp: wake_inv_def)
next
  case (finish i s x)
  then show ?case using updated_wakes [of i "workers s" Ready]
    by (fastforce simp: wake_inv_def)
qed

lemma pool_step_length: "pool_step enq deq fresh s t \<Longrightarrow> length (workers t) = length (workers s)"
  by (induction rule: pool_step.induct) (auto simp: cond_signal_def)

lemma pool_reach_length: "pool_reach enq deq fresh empty n s \<Longrightarrow> length (workers s) = n"
  by (induction rule: pool_reach.induct) (auto simp: pool_step_length)

lemma wake_inv_reach:
  assumes "pool_reach enq deq fresh empty n s" and "0 < n"
  shows "wake_inv s"
  using assms(1)
proof (induction rule: pool_reach.induct)
  case start
  show ?case using rep_empty by (auto simp: wake_inv_def)
next
  case (step s t)
  from step.hyps(1) assms(2) have "workers s \<noteq> []" using pool_reach_length by fastforce
  with step show ?case by (blast intro: wake_inv_step)
qed

lemma no_lost_wakeup:
  assumes "pool_reach enq deq fresh empty n s" and "0 < n" and "rep (queue s) (x # xs)"
  shows "\<exists>w \<in> set (workers s). w \<noteq> Waiting"
proof -
  from wake_inv_reach [OF assms(1,2)] obtain ys where
    ys: "rep (queue s) ys" "ys = [] \<or> (\<exists>w \<in> set (workers s). w \<noteq> Waiting)"
    by (auto simp: wake_inv_def)
  from assms(3) have "deq (queue s) \<noteq> ret (None, queue s)" using deq_cons by fastforce
  with ys show ?thesis using deq_nil by blast
qed

text \<open>Both facts about a reachable pool together.\<close>

lemma pool_serves:
  assumes "pool_reach enq deq fresh empty n s" and "0 < n"
  shows "\<exists>xs. rep (queue s) xs \<and> produced s = taken s @ xs \<and>
    (xs \<noteq> [] \<longrightarrow> (\<exists>w \<in> set (workers s). w \<noteq> Waiting))"
proof -
  from served_in_order [OF assms(1)] obtain xs where
    xs: "rep (queue s) xs" "produced s = taken s @ xs" by blast
  moreover have "\<exists>w \<in> set (workers s). w \<noteq> Waiting" if "xs \<noteq> []"
    using that xs(1) no_lost_wakeup [OF assms, of "hd xs" "tl xs"] by simp
  ultimately show ?thesis by blast
qed

text \<open>An item that is produced can be served: the pool has such a run.\<close>

lemma pool_serves_one:
  assumes "fresh a empty" and "0 < n"
  shows "\<exists>s. pool_reach enq deq fresh empty n s \<and> produced s = [x] \<and> taken s = [x]"
proof -
  let ?s0 = "\<lparr>queue = empty, workers = replicate n Ready, produced = [], taken = []\<rparr>"
  from enq_rep [OF rep_empty assms(1), of x] obtain q where
    q: "enq a x empty = ret q" "rep q [x]" by auto
  let ?s1 = "\<lparr>queue = q, workers = replicate n Ready, produced = [x], taken = []\<rparr>"
  have "pool_step enq deq fresh ?s0 ?s1"
    using pool_step.produce [of fresh a ?s0 enq x q n deq] assms q(1)
    by (simp add: may_signal_def cond_signal_def)
  then have s1: "pool_reach enq deq fresh empty n ?s1"
    by (rule pool_reach.step [OF pool_reach.start])
  from deq_cons [OF q(2)] obtain r where r: "deq q = ret (Some x, r)" by blast
  have "pool_step enq deq fresh ?s1
      \<lparr>queue = r, workers = (replicate n Ready)[0 := Running x], produced = [x], taken = [x]\<rparr>"
    using pool_step.enter [of 0 ?s1 deq r "Running x" enq fresh] assms(2) r by simp
  with s1 have "pool_reach enq deq fresh empty n
      \<lparr>queue = r, workers = (replicate n Ready)[0 := Running x], produced = [x], taken = [x]\<rparr>"
    by (rule pool_reach.step)
  then show ?thesis by (intro exI) auto
qed

text \<open>A worker that is not waiting and not busy takes the oldest item when it runs next.\<close>

lemma enter_takes_oldest:
  "rep q (x # xs) \<Longrightarrow> w \<in> {Ready, Woken} \<Longrightarrow>
   \<exists>q'. worker_enter deq q w = ret (q', Running x) \<and> rep q' xs"
  using deq_cons by fastforce

end

end
