(* ===== verification/ThreadQueue.thy ===== *)
theory ThreadQueue
  imports FifoPool
begin

text \<open>
  \<open>memcache_lite/threadqueue.c\<close>, the queue of accepted connections, and the pool of
  \<open>client_threads\<close> in \<open>server_mt.c\<close> that serves it. The nodes live in an explicit heap, since
  the code links them through \<open>head\<close> and \<open>tail\<close>.
\<close>

section \<open>The queue\<close>

record tq_node =
  tq_next :: ptr
  client_fd :: ptr     \<comment> \<open>\<open>int *\<close>: a heap cell that holds the descriptor\<close>

record thread_queue =
  tq_heap :: "tq_node heap"
  tq_head :: ptr
  tq_tail :: ptr

definition tq_init :: thread_queue where
  "tq_init = \<lparr>tq_heap = Map.empty, tq_head = None, tq_tail = None\<rparr>"

text \<open>\<open>m\<close> is the answer of \<open>malloc\<close>; the code does not check it.\<close>

definition tq_enqueue :: "ptr \<Rightarrow> ptr \<Rightarrow> thread_queue \<Rightarrow> thread_queue prog" where
  "tq_enqueue m fd s =
     (case m of
        None \<Rightarrow> stop_with Null_deref
      | Some a \<Rightarrow>
          let h = (tq_heap s)(a \<mapsto> \<lparr>tq_next = None, client_fd = fd\<rparr>)
          in if tq_tail s = None
             then ret (s\<lparr>tq_heap := h, tq_head := m, tq_tail := m\<rparr>)
             else bindp (modify h (tq_tail s) (tq_next_update (\<lambda>_. m)))
                    (\<lambda>h. ret (s\<lparr>tq_heap := h, tq_tail := m\<rparr>)))"

text \<open>The result is the descriptor pointer, \<open>NULL\<close> on the empty queue.\<close>

definition tq_dequeue :: "thread_queue \<Rightarrow> (ptr \<times> thread_queue) prog" where
  "tq_dequeue s =
     (if tq_head s = None then ret (None, s)
      else bindp (load (tq_heap s) (tq_head s)) (\<lambda>n.
        let fd = client_fd n; temp = tq_head s; hd' = tq_next n;
            tl' = (if hd' = None then None else tq_tail s)
        in bindp (release (tq_heap s) temp)
             (\<lambda>h. ret (fd, s\<lparr>tq_heap := h, tq_head := hd', tq_tail := tl'\<rparr>))))"

section \<open>It is a FIFO queue\<close>

text \<open>The descriptor cells in the queue, from \<open>head\<close> to \<open>tail\<close>.\<close>

definition tq_rep :: "thread_queue \<Rightarrow> addr list \<Rightarrow> bool" where
  "tq_rep s xs \<longleftrightarrow>
     (\<exists>as. lqueue tq_next (tq_heap s) (tq_head s) (tq_tail s) as \<and>
           field_vals client_fd (tq_heap s) as = map (\<lambda>x. Some (Some x)) xs)"

definition tq_fresh :: "addr \<Rightarrow> thread_queue \<Rightarrow> bool" where
  "tq_fresh a s \<longleftrightarrow> tq_heap s a = None"

lemma tq_rep_init [simp]: "tq_rep tq_init []"
  by (simp add: tq_rep_def tq_init_def)

lemma tq_enqueue_rep:
  assumes "tq_rep s xs" and "tq_fresh a s"
  shows "\<exists>s'. tq_enqueue (Some a) (Some x) s = ret s' \<and> tq_rep s' (xs @ [x])"
proof -
  let ?n = "\<lparr>tq_next = None, client_fd = Some x\<rparr>"
  let ?h = "(tq_heap s)(a \<mapsto> ?n)"
  from assms(1) obtain as where
    q: "lqueue tq_next (tq_heap s) (tq_head s) (tq_tail s) as" and
    v: "field_vals client_fd (tq_heap s) as = map (\<lambda>x. Some (Some x)) xs"
    by (auto simp: tq_rep_def)
  from assms(2) have new: "a \<notin> set as" by (intro fresh_not_in_lqueue [OF q]) (simp add: tq_fresh_def)
  show ?thesis
  proof (cases "tq_tail s")
    case None
    with q have "as = []" by (simp add: lqueue_def split: if_splits)
    with None v show ?thesis
      by (auto simp: tq_enqueue_def tq_rep_def lqueue_def intro!: exI [of _ "[a]"])
  next
    case (Some t)
    with lqueue_tail [of tq_next "tq_heap s" "tq_head s" t as a "Some ?n"] q new
    obtain n where n: "?h t = Some n" "t \<noteq> a" "t \<in> set as" by auto
    let ?h' = "?h(t \<mapsto> n\<lparr>tq_next := Some a\<rparr>)"
    have "lqueue tq_next ?h' (tq_head s) (Some a) (as @ [a])"
      using q new n Some by (intro lqueue_link) auto
    moreover have "field_vals client_fd ?h' (as @ [a]) = map (\<lambda>x. Some (Some x)) (xs @ [x])"
      by (subst field_vals_same) (use v n new in \<open>simp_all add: field_vals_frame del: fun_upd_apply\<close>, simp)
    ultimately have "tq_rep (s\<lparr>tq_heap := ?h', tq_tail := Some a\<rparr>) (xs @ [x])"
      unfolding tq_rep_def by (intro exI [of _ "as @ [a]"]) simp
    then show ?thesis using Some n by (simp add: tq_enqueue_def Let_def)
  qed
qed

lemma tq_dequeue_nil: "tq_rep s [] \<Longrightarrow> tq_dequeue s = ret (None, s)"
  by (auto simp: tq_rep_def tq_dequeue_def)

lemma tq_dequeue_cons:
  assumes "tq_rep s (x # xs)"
  shows "\<exists>s'. tq_dequeue s = ret (Some x, s') \<and> tq_rep s' xs"
proof -
  from assms obtain a as where
    q: "lqueue tq_next (tq_heap s) (tq_head s) (tq_tail s) (a # as)" and
    v: "map_option client_fd (tq_heap s a) = Some (Some x)"
       "field_vals client_fd (tq_heap s) as = map (\<lambda>x. Some (Some x)) xs"
    by (auto simp: tq_rep_def field_vals_eq_Cons_conv)
  from q obtain n where
    n: "tq_head s = Some a" "tq_heap s a = Some n" "chain tq_next (tq_heap s) (tq_next n) as None"
       "a \<notin> set as" "tq_next n = None \<longleftrightarrow> as = []" "tq_tail s = Some (last (a # as))"
    by (rule lqueue_ConsE)
  let ?s = "s\<lparr>tq_heap := (tq_heap s)(a := None), tq_head := tq_next n,
              tq_tail := (if tq_next n = None then None else tq_tail s)\<rparr>"
  have "tq_dequeue s = ret (Some x, ?s)"
    using n(1,2) v(1) by (simp add: tq_dequeue_def Let_def)
  moreover have "tq_rep ?s xs"
    unfolding tq_rep_def using lqueue_tl [OF q n(2)] v(2) n(4)
    by (intro exI [of _ as]) (simp add: field_vals_frame)
  ultimately show ?thesis by blast
qed

section \<open>The connection workers\<close>

text \<open>
  The queue operations as the worker loop uses them: a node that \<open>malloc\<close> placed at \<open>a\<close>, a
  descriptor cell \<open>x\<close>.
\<close>

definition client_enq :: "addr \<Rightarrow> addr \<Rightarrow> thread_queue \<Rightarrow> thread_queue prog" where
  "client_enq a x = tq_enqueue (Some a) (Some x)"

interpretation tq: fifo client_enq tq_dequeue tq_fresh tq_rep tq_init
  by unfold_locales
    (auto simp: client_enq_def tq_dequeue_nil tq_dequeue_cons intro: tq_enqueue_rep)

text \<open>
  \<open>client_threads\<close>: \<open>CLIENTPOOL\<close> threads over the queue. \<open>main\<close> is the producer: it puts each
  accepted descriptor into a cell, enqueues it and signals under \<open>client_mutex\<close>.
\<close>

definition CLIENTPOOL :: nat where
  "CLIENTPOOL = 40"

definition client_threads_enter ::
  "thread_queue \<Rightarrow> addr worker \<Rightarrow> (thread_queue \<times> addr worker) prog" where
  "client_threads_enter = worker_enter tq_dequeue"

definition client_pool ::
  "(thread_queue, addr) pool \<Rightarrow> bool" where
  "client_pool = pool_reach client_enq tq_dequeue tq_fresh tq_init CLIENTPOOL"

section \<open>Properties\<close>

text \<open>
  C15: in every state the connection workers and \<open>main\<close> can reach, under every interleaving and
  with spurious wake-ups, the accepted descriptors are the ones the workers took followed by the
  ones in the queue, in the order they were accepted; and while the queue is not empty not all
  workers are asleep.
\<close>

theorem client_pool_serves:
  assumes "client_pool s"
  shows "\<exists>xs. tq_rep (queue s) xs \<and> produced s = taken s @ xs \<and>
    (xs \<noteq> [] \<longrightarrow> (\<exists>w \<in> set (workers s). w \<noteq> Waiting))"
  using tq.pool_serves assms by (simp add: client_pool_def CLIENTPOOL_def)

theorem client_pool_serves_witness:
  "\<exists>s xs. client_pool s \<and> taken s = [5] \<and> tq_rep (queue s) xs \<and> [5] = taken s @ xs"
proof -
  obtain s where s: "client_pool s" "produced s = [5]" "taken s = [5]"
    using tq.pool_serves_one [of 2 CLIENTPOOL 5]
    by (auto simp: client_pool_def tq_fresh_def tq_init_def CLIENTPOOL_def)
  from client_pool_serves [OF s(1)] s show ?thesis by fastforce
qed

end
