(* ===== verification/CLib.thy ===== *)
theory CLib
  imports Prelude
begin

text \<open>
  The parts of the C library the program computes with: strings up to their terminator,
  decimal conversions in both directions (\<open>printf\<close> with widths, \<open>strtoul\<close>, \<open>atoi\<close>,
  \<open>sscanf\<close>), \<open>strtok_r\<close>, and writes into buffers of a known size. A \<open>char\<close> is a byte; a C
  string is modelled by its bytes before the terminator.
\<close>

named_theorems cstr_simps "C strings and number formats"

type_synonym size_t = "64 word"

abbreviation NUL :: char where "NUL \<equiv> CHR 0x00"
abbreviation CR :: char where "CR \<equiv> CHR 0x0D"
abbreviation LF :: char where "LF \<equiv> CHR 0x0A"

definition CRLF :: string where
  "CRLF = [CR, LF]"

section \<open>Strings\<close>

text \<open>The string a buffer holds: its bytes before the first terminator.\<close>

definition cstr :: "string \<Rightarrow> string" where
  "cstr buf = takeWhile (\<lambda>c. c \<noteq> NUL) buf"

text \<open>\<open>strncmp\<close> on strings given without their terminators; only its sign is specified.\<close>

fun strncmp :: "string \<Rightarrow> string \<Rightarrow> nat \<Rightarrow> int" where
  "strncmp s t 0 = 0"
| "strncmp [] [] (Suc n) = 0"
| "strncmp (c # s) [] (Suc n) = 1"
| "strncmp [] (d # t) (Suc n) = -1"
| "strncmp (c # s) (d # t) (Suc n) =
     (if c = d then strncmp s t n else (of_char c :: int) - of_char d)"

fun strcmp :: "string \<Rightarrow> string \<Rightarrow> int" where
  "strcmp [] [] = 0"
| "strcmp (c # s) [] = 1"
| "strcmp [] (d # t) = -1"
| "strcmp (c # s) (d # t) = (if c = d then strcmp s t else (of_char c :: int) - of_char d)"

lemma of_char_int_eq: "(of_char c :: int) - of_char d = 0 \<longleftrightarrow> c = d"
  by simp

lemma strncmp_0_iff [cstr_simps]: "strncmp s t n = 0 \<longleftrightarrow> take n s = take n t"
  by (induction s t n rule: strncmp.induct) auto

lemma strcmp_0_iff [cstr_simps]: "strcmp s t = 0 \<longleftrightarrow> s = t"
  by (induction s t rule: strcmp.induct) auto

text \<open>Comparing up to the second string's length accepts every extension of it.\<close>

lemma strncmp_prefix [cstr_simps]: "strncmp s t (length t) = 0 \<longleftrightarrow> take (length t) s = t"
  by (simp add: strncmp_0_iff)

lemma cstr_append [cstr_simps]: "NUL \<notin> set s \<Longrightarrow> cstr (s @ NUL # t) = s"
  by (induction s) (auto simp: cstr_def)

lemma cstr_no_NUL: "NUL \<notin> set s \<Longrightarrow> cstr (s @ t) = s @ cstr t"
  by (induction s) (auto simp: cstr_def)

lemma cstr_idem [cstr_simps]: "NUL \<notin> set s \<Longrightarrow> cstr s = s"
  by (induction s) (auto simp: cstr_def)

lemma NUL_notin_cstr: "NUL \<notin> set (cstr s)"
  by (auto simp: cstr_def dest: set_takeWhileD)

text \<open>
  \<open>strtok_r\<close>: the next token and where to go on; \<open>None\<close> when only delimiters are left.
\<close>

definition strtok :: "string \<Rightarrow> string \<Rightarrow> (string \<times> string) option" where
  "strtok delims s =
     (let t = dropWhile (\<lambda>c. c \<in> set delims) s in
      if t = [] then None
      else Some (takeWhile (\<lambda>c. c \<notin> set delims) t, drop 1 (dropWhile (\<lambda>c. c \<notin> set delims) t)))"

lemma strtok_token [cstr_simps]:
  assumes "tok \<noteq> []" and "\<forall>c \<in> set tok. c \<notin> set delims" and "d \<in> set delims"
  shows "strtok delims (tok @ d # rest) = Some (tok, rest)"
proof -
  from assms(1,2) have "dropWhile (\<lambda>c. c \<in> set delims) (tok @ d # rest) = tok @ d # rest"
    by (cases tok) auto
  with assms show ?thesis
    by (simp add: strtok_def takeWhile_append2 dropWhile_append2)
qed

lemma strtok_skip [cstr_simps]:
  "d \<in> set delims \<Longrightarrow> strtok delims (d # s) = strtok delims s"
  by (simp add: strtok_def)

section \<open>Buffers\<close>

text \<open>\<open>memcpy\<close> and stores into an array: outside its bounds the behaviour is undefined.\<close>

definition write_at :: "string \<Rightarrow> nat \<Rightarrow> string \<Rightarrow> string prog" where
  "write_at buf off bs =
     (if off + length bs \<le> length buf
      then ret (take off buf @ bs @ drop (off + length bs) buf)
      else stop_with Out_of_bounds)"

lemma write_at_ok:
  "off + length bs \<le> length buf \<Longrightarrow>
   write_at buf off bs = ret (take off buf @ bs @ drop (off + length bs) buf)"
  by (simp add: write_at_def)

lemma write_at_oob:
  "length buf < off + length bs \<Longrightarrow> write_at buf off bs = stop_with Out_of_bounds"
  by (simp add: write_at_def)

lemma write_at_length: "write_at buf off bs = ret buf' \<Longrightarrow> length buf' = length buf"
  by (auto simp: write_at_def split: if_splits)

text \<open>Writing behind what was written before extends it.\<close>

lemma write_at_extend:
  "off = length xs \<Longrightarrow> length bs \<le> length rest \<Longrightarrow>
   write_at (xs @ rest) off bs = ret ((xs @ bs) @ drop (length bs) rest)"
  by (simp add: write_at_def)

text \<open>\<open>sprintf (buf + off, \<dots>)\<close>: the text and its terminator; the new offset ends the text.\<close>

definition sprintf_at :: "string \<Rightarrow> nat \<Rightarrow> string \<Rightarrow> (string \<times> nat) prog" where
  "sprintf_at buf off s = bindp (write_at buf off (s @ [NUL])) (\<lambda>b. ret (b, off + length s))"

text \<open>
  A buffer that is filled from the left: the text so far and the bytes behind it. Written so,
  a write at the end of the text is a rewrite rule.
\<close>

definition wbuf :: "string \<Rightarrow> string \<Rightarrow> string" where
  "wbuf s rest = s @ rest"

lemma wbuf_init: "buf = wbuf [] buf"
  by (simp add: wbuf_def)

lemma length_wbuf [simp]: "length (wbuf s rest) = length s + length rest"
  by (simp add: wbuf_def)

lemma write_wbuf [cstr_simps]:
  "off = length s \<Longrightarrow> length t \<le> length rest \<Longrightarrow>
   write_at (wbuf s rest) off t = ret (wbuf (s @ t) (drop (length t) rest))"
  by (simp add: wbuf_def write_at_def)

lemma write_fresh:
  "length t \<le> length junk \<Longrightarrow> write_at junk 0 t = ret (wbuf t (drop (length t) junk))"
  by (simp add: wbuf_def write_at_def)

lemma take_wbuf [cstr_simps]: "n = length s \<Longrightarrow> take n (wbuf s rest) = s"
  by (simp add: wbuf_def)

text \<open>A terminator that the next write covers.\<close>

lemma wbuf_snoc: "wbuf (s @ [c]) rest = wbuf s (c # rest)"
  by (simp add: wbuf_def)

lemma sprintf_wbuf [cstr_simps]:
  "off = length s \<Longrightarrow> length t < length rest \<Longrightarrow>
   sprintf_at (wbuf s rest) off t =
     ret (wbuf (s @ t) (NUL # drop (Suc (length t)) rest), off + length t)"
  by (simp add: wbuf_def write_at_def sprintf_at_def)

lemma sprintf_wbuf_oob [cstr_simps]:
  "off = length s \<Longrightarrow> length rest \<le> length t \<Longrightarrow>
   sprintf_at (wbuf s rest) off t = stop_with Out_of_bounds"
  by (simp add: wbuf_def write_at_def sprintf_at_def)

text \<open>
  What \<open>snprintf (buf, n, \<dots>)\<close> stores: at most \<open>n - 1\<close> bytes of the text and a terminator,
  nothing when \<open>n\<close> is 0. It returns the length of the whole text.
\<close>

definition snprintf_bytes :: "nat \<Rightarrow> string \<Rightarrow> string" where
  "snprintf_bytes n s = (if n = 0 then [] else take (n - 1) s @ [NUL])"

lemma snprintf_fits [cstr_simps]: "length s < n \<Longrightarrow> snprintf_bytes n s = s @ [NUL]"
  by (simp add: snprintf_bytes_def)

lemma length_snprintf: "length (snprintf_bytes n s) \<le> n"
  by (cases n) (simp_all add: snprintf_bytes_def)

section \<open>Decimal numbers\<close>

definition is_digit :: "char \<Rightarrow> bool" where
  "is_digit c \<longleftrightarrow> 48 \<le> (of_char c :: nat) \<and> (of_char c :: nat) \<le> 57"

definition is_space :: "char \<Rightarrow> bool" where
  "is_space c \<longleftrightarrow> (9 \<le> (of_char c :: nat) \<and> (of_char c :: nat) \<le> 13) \<or> (of_char c :: nat) = 32"

definition digit_char :: "nat \<Rightarrow> char" where
  "digit_char d = char_of (48 + d)"

definition digit_val :: "char \<Rightarrow> nat" where
  "digit_val c = of_char c - 48"

fun dec :: "nat \<Rightarrow> string" where
  "dec n = (if n < 10 then [digit_char n] else dec (n div 10) @ [digit_char (n mod 10)])"

declare dec.simps [simp del]

definition num_of :: "string \<Rightarrow> nat" where
  "num_of s = foldl (\<lambda>acc c. 10 * acc + digit_val c) 0 s"

text \<open>Conversions with a width: \<open>%-wd\<close>, \<open>%wd\<close> and \<open>%0wd\<close>.\<close>

definition pad_right :: "nat \<Rightarrow> string \<Rightarrow> string" where
  "pad_right w s = s @ replicate (w - length s) CHR '' ''"

definition pad_left :: "nat \<Rightarrow> string \<Rightarrow> string" where
  "pad_left w s = replicate (w - length s) CHR '' '' @ s"

definition pad_zero :: "nat \<Rightarrow> string \<Rightarrow> string" where
  "pad_zero w s = replicate (w - length s) CHR ''0'' @ s"

definition dec_int :: "int \<Rightarrow> string" where
  "dec_int i = (if i < 0 then CHR ''-'' # dec (nat (- i)) else dec (nat i))"

definition dec_int_zero :: "nat \<Rightarrow> int \<Rightarrow> string" where
  "dec_int_zero w i =
     (if i < 0 then CHR ''-'' # pad_zero (w - 1) (dec (nat (- i))) else pad_zero w (dec (nat i)))"

text \<open>
  The common part of \<open>strtoul\<close>, \<open>atoi\<close> and the numeric conversions of \<open>sscanf\<close>: skip white
  space, read an optional sign and a maximal run of digits; \<open>None\<close> when there is no digit.
\<close>

definition scan_sign :: "string \<Rightarrow> bool \<times> string" where
  "scan_sign s =
     (case s of [] \<Rightarrow> (False, [])
      | c # t \<Rightarrow> if c = CHR ''-'' then (True, t) else if c = CHR ''+'' then (False, t) else (False, s))"

definition scan_int :: "string \<Rightarrow> (bool \<times> nat \<times> string) option" where
  "scan_int s =
     (let (neg, t) = scan_sign (dropWhile is_space s); ds = takeWhile is_digit t
      in if ds = [] then None else Some (neg, num_of ds, dropWhile is_digit t))"

text \<open>The value of a scanned number as an \<open>unsigned long\<close>, and as an \<open>int\<close>.\<close>

definition ulong_of :: "bool \<Rightarrow> nat \<Rightarrow> size_t" where
  "ulong_of neg m = (if 2 ^ 64 \<le> m then - 1 else if neg then - of_nat m else of_nat m)"

definition int_of_scan :: "bool \<Rightarrow> nat \<Rightarrow> int" where
  "int_of_scan neg m =
     (let v = (if neg then max (- int m) (- (2 ^ 63)) else min (int m) (2 ^ 63 - 1))
      in sint (word_of_int v :: 32 word))"

text \<open>\<open>strtoul (s, NULL, 10)\<close>: the value, and whether \<open>errno\<close> is set to \<open>ERANGE\<close>.\<close>

definition strtoul :: "string \<Rightarrow> size_t \<times> bool" where
  "strtoul s =
     (case scan_int s of
        None \<Rightarrow> (0, False)
      | Some (neg, m, _) \<Rightarrow> (ulong_of neg m, 2 ^ 64 \<le> m))"

text \<open>\<open>atoi\<close> as the library has it, \<open>(int) strtol (s, NULL, 10)\<close>.\<close>

definition atoi :: "string \<Rightarrow> int" where
  "atoi s = (case scan_int s of None \<Rightarrow> 0 | Some (neg, m, _) \<Rightarrow> int_of_scan neg m)"

text \<open>A literal of a \<open>scanf\<close> format, and its conversions \<open>%d\<close> and \<open>%u\<close>, with what follows.\<close>

definition scan_lit :: "string \<Rightarrow> string \<Rightarrow> string option" where
  "scan_lit l s = (if take (length l) s = l then Some (drop (length l) s) else None)"

definition scan_d :: "string \<Rightarrow> (int \<times> string) option" where
  "scan_d s = map_option (\<lambda>(neg, m, r). (int_of_scan neg m, r)) (scan_int s)"

definition scan_u :: "string \<Rightarrow> (32 word \<times> string) option" where
  "scan_u s = map_option (\<lambda>(neg, m, r). (ucast (ulong_of neg m), r)) (scan_int s)"

lemma scan_lit_append [cstr_simps]: "scan_lit l (l @ s) = Some s"
  by (simp add: scan_lit_def)

lemma ulong_of_nat [cstr_simps]: "m < 2 ^ 64 \<Longrightarrow> ulong_of False m = of_nat m"
  by (simp add: ulong_of_def)

lemma int_of_scan_nat [cstr_simps]: "m < 2 ^ 31 \<Longrightarrow> int_of_scan False m = int m"
  by (simp add: int_of_scan_def signed_take_bit_int_eq_self signed_of_int)

lemma ucast_ulong [cstr_simps]:
  "(ucast (ulong_of False (unat (w :: 32 word))) :: 32 word) = w"
proof -
  have "unat w < 2 ^ 32" using unsigned_less [of w] by simp
  then have "ulong_of False (unat w) = ucast w" by (simp add: ulong_of_nat)
  moreover have "(ucast (ucast w :: size_t) :: 32 word) = w"
    by (rule bit_eqI) (simp add: bit_simps)
  ultimately show ?thesis by (simp only:)
qed

subsection \<open>Digits\<close>

lemma of_digit_char [simp]: "d < 10 \<Longrightarrow> (of_char (digit_char d) :: nat) = 48 + d"
  by (simp add: digit_char_def)

lemma digit_char_simps [simp]:
  "d < 10 \<Longrightarrow> is_digit (digit_char d)"
  "d < 10 \<Longrightarrow> digit_val (digit_char d) = d"
  by (simp_all add: is_digit_def digit_val_def)

lemma is_digit_not_space: "is_digit c \<Longrightarrow> \<not> is_space c"
  by (auto simp: is_digit_def is_space_def)

lemma is_digit_not_sign: "is_digit c \<Longrightarrow> c \<noteq> CHR ''-'' \<and> c \<noteq> CHR ''+''"
  by (auto simp: is_digit_def)

lemma is_digit_not_NUL: "is_digit c \<Longrightarrow> c \<noteq> NUL"
  by (auto simp: is_digit_def)

lemma space_facts [simp]:
  "is_space CHR '' ''" "\<not> is_digit CHR '' ''" "is_digit CHR ''0''" "digit_val CHR ''0'' = 0"
  "is_space CR" "is_space LF" "\<not> is_digit CR" "\<not> is_digit LF" "\<not> is_digit NUL" "\<not> is_space NUL"
  by (simp_all add: is_space_def is_digit_def digit_val_def)

lemma dec_nonempty [simp]: "dec n \<noteq> []"
  by (subst dec.simps) simp

lemma dec_digits: "\<forall>c \<in> set (dec n). is_digit c"
proof (induction n rule: dec.induct)
  case (1 n)
  show ?case
  proof (cases "n < 10")
    case True
    then show ?thesis by (subst dec.simps) simp
  next
    case False
    with "1.IH" have "\<forall>c \<in> set (dec (n div 10)). is_digit c" by simp
    with False show ?thesis by (subst dec.simps) auto
  qed
qed

lemma num_of_snoc [simp]: "num_of (s @ [c]) = 10 * num_of s + digit_val c"
  by (simp add: num_of_def)

lemma num_of_dec [simp]: "num_of (dec n) = n"
proof (induction n rule: dec.induct)
  case (1 n)
  show ?case
  proof (cases "n < 10")
    case True
    then show ?thesis by (subst dec.simps) (simp add: num_of_def)
  next
    case False
    with "1.IH" have "num_of (dec (n div 10)) = n div 10" by simp
    with False show ?thesis by (subst dec.simps) simp
  qed
qed

lemma num_of_zeros [simp]: "num_of (replicate k CHR ''0'' @ s) = num_of s"
  by (induction k) (simp_all add: num_of_def)

lemma length_dec_le: "0 < k \<Longrightarrow> n < 10 ^ k \<Longrightarrow> length (dec n) \<le> k"
proof (induction n arbitrary: k rule: dec.induct)
  case (1 n)
  show ?case
  proof (cases "n < 10")
    case True
    with "1.prems" show ?thesis by (subst dec.simps) simp
  next
    case False
    with "1.prems" obtain j where j: "k = Suc j" "0 < j" by (cases k; cases "k - 1") auto
    with "1.prems" have "n div 10 < 10 ^ j" by auto
    with False j "1.IH" have "length (dec (n div 10)) \<le> j" by simp
    with False j show ?thesis by (subst dec.simps) simp
  qed
qed

lemma dec_ge_length: "10 ^ k \<le> n \<Longrightarrow> k < length (dec n)"
proof (induction k arbitrary: n)
  case 0
  then show ?case by simp
next
  case (Suc k)
  then have "10 ^ k \<le> n div 10" by simp
  from Suc.IH [OF this] have "k < length (dec (n div 10))" .
  moreover have "10 \<le> n" using Suc.prems by (metis le_trans one_le_power power_Suc2 mult_le_mono1 one_le_numeral mult_1)
  ultimately show ?case by (subst dec.simps) simp
qed

lemma length_dec_le_iff: "0 < k \<Longrightarrow> length (dec n) \<le> k \<longleftrightarrow> n < 10 ^ k"
  using length_dec_le dec_ge_length by (meson not_le)

lemma pad_zero_digits: "\<forall>c \<in> set (pad_zero w (dec n)). is_digit c"
  using dec_digits by (auto simp: pad_zero_def)

lemma num_of_pad_zero [simp]: "num_of (pad_zero w s) = num_of s"
  by (simp add: pad_zero_def)

lemma pad_zero_nonempty [simp]: "pad_zero w (dec n) \<noteq> []"
  by (simp add: pad_zero_def)

lemma length_pads [simp]:
  "length (pad_right w s) = max w (length s)"
  "length (pad_left w s) = max w (length s)"
  "length (pad_zero w s) = max w (length s)"
  by (auto simp: pad_right_def pad_left_def pad_zero_def)

subsection \<open>Reading back what was printed\<close>

text \<open>White space, then digits, then something that is not a digit.\<close>

lemma scan_int_digits:
  assumes "\<forall>c \<in> set ws. is_space c" and "ds \<noteq> []" and "\<forall>c \<in> set ds. is_digit c"
    and "rest = [] \<or> \<not> is_digit (hd rest)"
  shows "scan_int (ws @ ds @ rest) = Some (False, num_of ds, rest)"
proof -
  obtain d ds' where ds: "ds = d # ds'" using assms(2) by (cases ds) auto
  with assms(3) have "\<not> is_space d" "d \<noteq> CHR ''-''" "d \<noteq> CHR ''+''"
    using is_digit_not_space is_digit_not_sign by auto
  then have "scan_sign (dropWhile is_space (ws @ ds @ rest)) = (False, ds @ rest)"
    using assms(1) ds by (simp add: dropWhile_append2 scan_sign_def)
  moreover have "takeWhile is_digit (ds @ rest) = ds" "dropWhile is_digit (ds @ rest) = rest"
    using assms(3,4) by (cases rest; simp add: takeWhile_append2 dropWhile_append2)+
  ultimately show ?thesis using assms(2) by (simp add: scan_int_def Let_def)
qed

lemma scan_int_dec [cstr_simps]:
  "rest = [] \<or> \<not> is_digit (hd rest) \<Longrightarrow> scan_int (dec n @ rest) = Some (False, n, rest)"
  using scan_int_digits [of "[]" "dec n" rest] by (simp add: dec_digits)

lemma scan_int_space [cstr_simps]:
  "is_space c \<Longrightarrow> scan_int (c # s) = scan_int s"
  by (simp add: scan_int_def)

lemma scan_int_pad_right [cstr_simps]:
  "scan_int (pad_right w (dec n) @ rest) =
     Some (False, n, replicate (w - length (dec n)) CHR '' '' @ rest)"
  if "rest = [] \<or> \<not> is_digit (hd rest)"
  using scan_int_digits [of "[]" "dec n" "replicate (w - length (dec n)) CHR '' '' @ rest"] that
  by (cases "w - length (dec n)") (auto simp: pad_right_def dec_digits)

lemma scan_int_pad_left [cstr_simps]:
  "rest = [] \<or> \<not> is_digit (hd rest) \<Longrightarrow>
   scan_int (pad_left w (dec n) @ rest) = Some (False, n, rest)"
  using scan_int_digits [of "replicate (w - length (dec n)) CHR '' ''" "dec n" rest]
  by (simp add: pad_left_def dec_digits)

lemma scan_int_pad_zero [cstr_simps]:
  "rest = [] \<or> \<not> is_digit (hd rest) \<Longrightarrow>
   scan_int (pad_zero w (dec n) @ rest) = Some (False, n, rest)"
  using scan_int_digits [of "[]" "pad_zero w (dec n)" rest]
  by (simp add: pad_zero_digits)

end
