(* ===== verification/Sockets.thy ===== *)
theory Sockets
  imports CLib
begin

text \<open>
  Stream sockets as the program sees them. What a connection delivers is a list of
  arrivals: each \<open>recv\<close> that finds bytes returns some of them, and where one \<open>recv\<close> ends is
  the network's choice, so every theorem that quantifies over the arrivals covers every
  way TCP may cut the stream. What \<open>send\<close> accepts is a list of such choices too. The
  actions a handler leaves behind (bytes sent, sockets closed) are a trace.
\<close>

section \<open>Receiving\<close>

datatype arrival =
    Bytes string    \<comment> \<open>bytes that are there for the next \<open>recv\<close>\<close>
  | Eof             \<comment> \<open>the peer has closed: \<open>recv\<close> returns 0 from now on\<close>
  | Recv_error      \<comment> \<open>\<open>recv\<close> returns -1\<close>

text \<open>
  \<open>recv (fd, \<dots>, n, 0)\<close>: the bytes received (\<open>None\<close> for -1) and what is left. With nothing to
  deliver the call waits for ever.
\<close>

fun recv :: "arrival list \<Rightarrow> nat \<Rightarrow> (string option \<times> arrival list) prog" where
  "recv [] n = (if n = 0 then ret (Some [], []) else stop_with Blocked)"
| "recv (Eof # as) n = ret (Some [], Eof # as)"
| "recv (Recv_error # as) n = ret (None, as)"
| "recv (Bytes bs # as) n =
     (if n = 0 then ret (Some [], Bytes bs # as)
      else if bs = [] then recv as n
      else if length bs \<le> n then ret (Some bs, as)
      else ret (Some (take n bs), Bytes (drop n bs) # as))"

text \<open>The bytes a list of arrivals delivers before it ends or fails.\<close>

fun stream :: "arrival list \<Rightarrow> string" where
  "stream [] = []"
| "stream (Bytes bs # as) = bs @ stream as"
| "stream (Eof # as) = []"
| "stream (Recv_error # as) = []"

text \<open>A connection that neither ends nor fails while the program reads it.\<close>

fun open_stream :: "arrival list \<Rightarrow> bool" where
  "open_stream [] = True"
| "open_stream (Bytes bs # as) = open_stream as"
| "open_stream (Eof # as) = False"
| "open_stream (Recv_error # as) = False"

lemma recv_length: "recv as n = ret (Some bs, as') \<Longrightarrow> length bs \<le> n"
  by (induction as n rule: recv.induct) (auto split: if_splits)

lemma recv_open:
  "open_stream as \<Longrightarrow> recv as n = ret (r, as') \<Longrightarrow>
   \<exists>bs. r = Some bs \<and> open_stream as' \<and> stream as = bs @ stream as' \<and> length bs \<le> n \<and>
        (0 < n \<longrightarrow> bs \<noteq> [])"
  by (induction as n rule: recv.induct) (auto split: if_splits simp flip: append_assoc)

lemma recv_open_ready:
  "open_stream as \<Longrightarrow> stream as \<noteq> [] \<Longrightarrow> \<exists>bs as'. recv as n = ret (Some bs, as')"
  by (induction as n rule: recv.induct) auto

text \<open>When the bytes asked for are there in one piece, \<open>recv\<close> returns them all.\<close>

lemma recv_whole:
  "0 < n \<Longrightarrow> n < length bs \<Longrightarrow> recv (Bytes bs # as) n = ret (Some (take n bs), Bytes (drop n bs) # as)"
  by auto

lemma recv_exact:
  "bs \<noteq> [] \<Longrightarrow> length bs = n \<Longrightarrow> recv (Bytes bs # as) n = ret (Some bs, as)"
  by auto

text \<open>What one \<open>recv\<close> takes from a stream that has at least \<open>n\<close> bytes at hand.\<close>

definition rest_of :: "string \<Rightarrow> arrival list \<Rightarrow> arrival list" where
  "rest_of bs as = (if bs = [] then as else Bytes bs # as)"

lemma recv_prefix:
  assumes "length bs = n" and "0 < n"
  shows "recv (Bytes (bs @ cs) # as) n = ret (Some bs, rest_of cs as)"
  using assms by (auto simp: rest_of_def)

lemma recv_split:
  "n = length bs \<Longrightarrow> cs \<noteq> [] \<Longrightarrow> recv (Bytes (bs @ cs) # as) n = ret (Some bs, Bytes cs # as)"
  by auto

section \<open>Sending\<close>

text \<open>
  \<open>send (fd, data, n, 0)\<close> accepts a prefix of the data or fails. The network's choices are a
  list: \<open>Some k\<close> accepts \<open>k\<close> bytes at most, \<open>None\<close> is -1, and when the list is used up
  everything is accepted. The result is the accepted prefix.
\<close>

fun send :: "nat option list \<Rightarrow> string \<Rightarrow> string option \<times> nat option list" where
  "send [] data = (Some data, [])"
| "send (None # cs) data = (None, cs)"
| "send (Some k # cs) data = (Some (take k data), cs)"

text \<open>The bytes of a buffer from \<open>off\<close> on, as a call that reads \<open>n\<close> of them sees them.\<close>

definition slice :: "string \<Rightarrow> nat \<Rightarrow> nat \<Rightarrow> string prog" where
  "slice buf off n =
     (if off + n \<le> length buf then ret (take n (drop off buf)) else stop_with Out_of_bounds)"

lemma slice_ok [simp]: "off + n \<le> length buf \<Longrightarrow> slice buf off n = ret (take n (drop off buf))"
  by (simp add: slice_def)

section \<open>What a handler does to its sockets\<close>

datatype action =
    Send int string    \<comment> \<open>\<open>send\<close> on a descriptor, its result ignored\<close>
  | Close int

end
