(* ===== verification/NetSetup.thy ===== *)
theory NetSetup
  imports Prelude
begin

text \<open>
  How the four programs get their socket: \<open>getaddrinfo\<close>, the loop over the addresses it
  returned, and for the servers \<open>listen\<close>. The loop tests \<open>ptr->ai_next\<close> and never
  advances \<open>ptr\<close>; what it does then is the subject of the lemmas.
\<close>

section \<open>The operating system's answers\<close>

record addrinfo =
  ai_family :: int
  ai_socktype :: int
  ai_protocol :: int
  ai_addr :: string

text \<open>
  What the system calls answer; the calls of the loop also depend on how often its body has run
  before. \<open>os_getaddrinfo\<close>: an error code, or the list of addresses for a host and a service.
  The other calls return -1 when they fail.
\<close>

record os =
  os_getaddrinfo :: "string option \<Rightarrow> string \<Rightarrow> int + addrinfo list"
  os_socket :: "nat \<Rightarrow> int \<Rightarrow> int \<Rightarrow> int \<Rightarrow> int"
  os_setsockopt :: "nat \<Rightarrow> int \<Rightarrow> int"
  os_bind :: "nat \<Rightarrow> int \<Rightarrow> string \<Rightarrow> int"
  os_connect :: "nat \<Rightarrow> int \<Rightarrow> string \<Rightarrow> int"
  os_listen :: "int \<Rightarrow> nat \<Rightarrow> int"

text \<open>What the calls that succeed do to the descriptors of the process.\<close>

datatype net_act =
    Opened int
  | Bound int string
  | Connected int string
  | Shut int
  | Listening int nat

section \<open>One pass of the loop\<close>

text \<open>
  The bodies: whether they \<open>continue\<close>, the value of the socket variable, and the effects. The
  bodies of \<open>server_mt.c\<close> and of \<open>server.c\<close> differ when \<open>bind\<close> fails: the latter does not
  close the socket.
\<close>

definition kv_bind_attempt :: "os \<Rightarrow> nat \<Rightarrow> addrinfo \<Rightarrow> (bool \<times> int \<times> net_act list) prog" where
  "kv_bind_attempt env k ai =
     (let sockfd = os_socket env k (ai_family ai) (ai_socktype ai) (ai_protocol ai) in
      if sockfd = - 1 then ret (True, sockfd, [])
      else if os_setsockopt env k sockfd = - 1 then stop_with Exited
      else if os_bind env k sockfd (ai_addr ai) = - 1 then ret (True, sockfd, [Opened sockfd, Shut sockfd])
      else ret (False, sockfd, [Opened sockfd, Bound sockfd (ai_addr ai)]))"

definition tob_bind_attempt :: "os \<Rightarrow> nat \<Rightarrow> addrinfo \<Rightarrow> (bool \<times> int \<times> net_act list) prog" where
  "tob_bind_attempt env k ai =
     (let sock_fd = os_socket env k (ai_family ai) (ai_socktype ai) (ai_protocol ai) in
      if sock_fd = - 1 then ret (True, sock_fd, [])
      else if os_setsockopt env k sock_fd = - 1 then stop_with Exited
      else if os_bind env k sock_fd (ai_addr ai) \<noteq> 0 then ret (True, sock_fd, [Opened sock_fd])
      else ret (False, sock_fd, [Opened sock_fd, Bound sock_fd (ai_addr ai)]))"

text \<open>The body of both clients.\<close>

definition connect_attempt :: "os \<Rightarrow> nat \<Rightarrow> addrinfo \<Rightarrow> (bool \<times> int \<times> net_act list) prog" where
  "connect_attempt env k ai =
     (let sockfd = os_socket env k (ai_family ai) (ai_socktype ai) (ai_protocol ai) in
      if sockfd = - 1 then ret (True, sockfd, [])
      else if os_connect env k sockfd (ai_addr ai) = - 1 then stop_with Exited
      else ret (False, sockfd, [Opened sockfd, Connected sockfd (ai_addr ai)]))"

section \<open>The loop\<close>

text \<open>
  \<open>ptr\<close> is the rest of the address list, \<open>k\<close> the number of passes made, \<open>sockfd\<close> the socket
  variable (\<open>None\<close> while it is uninitialised).
\<close>

partial_function (option) address_loop ::
  "(nat \<Rightarrow> addrinfo \<Rightarrow> (bool \<times> int \<times> net_act list) prog) \<Rightarrow> addrinfo list \<Rightarrow> nat \<Rightarrow> int option \<Rightarrow>
   net_act list \<Rightarrow> (int option \<times> net_act list) prog" where
  "address_loop attempt ptr k sockfd acts =
     (case ptr of
        [] \<Rightarrow> stop_with Null_deref
      | ai # ai_next \<Rightarrow>
          if ai_next = [] then ret (sockfd, acts)
          else bindp (attempt k ai) (\<lambda>(continue, fd, new).
            if continue then address_loop attempt ptr (Suc k) (Some fd) (acts @ new)
            else ret (Some fd, acts @ new)))"

text \<open>Using an \<open>int\<close> variable that may be uninitialised.\<close>

definition read_int :: "int option \<Rightarrow> int prog" where
  "read_int v = (case v of None \<Rightarrow> stop_with Uninitialised | Some n \<Rightarrow> ret n)"

section \<open>The servers\<close>

definition KV_PORT :: string where "KV_PORT = ''4096''"
definition KV_BACKLOG :: nat where "KV_BACKLOG = 200"
definition TOB_BACKLOG :: nat where "TOB_BACKLOG = 8"

text \<open>
  \<open>main\<close> of \<open>server_mt.c\<close> up to \<open>listen\<close>: \<open>Inl\<close> the status handed to \<open>gai_strerror\<close> when it returns
  -1 (\<open>status\<close> holds the truth value of the comparison), or \<open>Inr\<close> the listening socket.
\<close>

definition kv_server_socket :: "os \<Rightarrow> (int + int \<times> net_act list) prog" where
  "kv_server_socket env =
     (case os_getaddrinfo env None KV_PORT of
        Inl e \<Rightarrow> ret (Inl 1)
      | Inr results \<Rightarrow>
          bindp (address_loop (kv_bind_attempt env) results 0 None []) (\<lambda>(sockfd, acts).
          if results = [] then stop_with Exited
          else bindp (read_int sockfd) (\<lambda>sockfd.
            if os_listen env sockfd KV_BACKLOG = - 1 then stop_with Exited
            else ret (Inr (sockfd, acts @ [Listening sockfd KV_BACKLOG])))))"

text \<open>\<open>sock_serve\<close> up to \<open>listen\<close>, for the port written in decimal.\<close>

definition tob_server_socket :: "os \<Rightarrow> string \<Rightarrow> (int \<times> net_act list) prog" where
  "tob_server_socket env port =
     (case os_getaddrinfo env None port of
        Inl e \<Rightarrow> stop_with Exited
      | Inr results \<Rightarrow>
          bindp (address_loop (tob_bind_attempt env) results 0 None []) (\<lambda>(sock_fd, acts).
          bindp (read_int sock_fd) (\<lambda>sock_fd.
            if os_listen env sock_fd TOB_BACKLOG = - 1 then stop_with Exited
            else ret (sock_fd, acts @ [Listening sock_fd TOB_BACKLOG]))))"

section \<open>The clients\<close>

text \<open>The connection of \<open>client.c\<close>; the socket variable may still be uninitialised.\<close>

definition kv_connect :: "os \<Rightarrow> (int option \<times> net_act list) prog" where
  "kv_connect env =
     (case os_getaddrinfo env (Some ''localhost'') KV_PORT of
        Inl e \<Rightarrow> stop_with Exited
      | Inr results \<Rightarrow> address_loop (connect_attempt env) results 0 None [])"

text \<open>The connection of \<open>client_app.c\<close>, to a port written in decimal.\<close>

definition app_connect :: "os \<Rightarrow> string \<Rightarrow> (int option \<times> net_act list) prog" where
  "app_connect env port =
     (case os_getaddrinfo env (Some ''localhost'') port of
        Inl e \<Rightarrow> stop_with Exited
      | Inr results \<Rightarrow> address_loop (connect_attempt env) results 0 None [])"

section \<open>What the loop does\<close>

text \<open>With a single address the body never runs.\<close>

lemma address_loop_single [simp]: "address_loop attempt [ai] k fd acts = ret (fd, acts)"
  by (subst address_loop.simps) simp

lemma address_loop_Nil [simp]: "address_loop attempt [] k fd acts = stop_with Null_deref"
  by (subst address_loop.simps) simp

lemma address_loop_step:
  "address_loop attempt (ai # b # rest) k v acts =
     bindp (attempt k ai) (\<lambda>(continue, fd, new).
       if continue then address_loop attempt (ai # b # rest) (Suc k) (Some fd) (acts @ new)
       else ret (Some fd, acts @ new))"
  by (subst address_loop.simps) simp

text \<open>An attempt that is to be made again.\<close>

definition again :: "(bool \<times> int \<times> net_act list) prog \<Rightarrow> bool" where
  "again r \<longleftrightarrow> (\<exists>fd new. r = ret (True, fd, new))"

text \<open>While the first address is refused the loop goes on, and no other address is tried.\<close>

lemma address_loop_returns:
  assumes "address_loop attempt ptr k v acts = Some y" and "ptr = a # c # r"
  shows "\<exists>j \<ge> k. \<not> again (attempt j a)"
proof -
  have "\<forall>a c r. ptr = a # c # r \<longrightarrow> (\<exists>j \<ge> k. \<not> again (attempt j a))"
  proof (rule address_loop.raw_induct [where P = "\<lambda>attempt ptr k v acts y.
      \<forall>a c r. ptr = a # c # r \<longrightarrow> (\<exists>j \<ge> k. \<not> again (attempt j a))", OF _ assms(1)])
    fix f :: "(nat \<Rightarrow> addrinfo \<Rightarrow> (bool \<times> int \<times> net_act list) prog) \<Rightarrow> addrinfo list \<Rightarrow> nat \<Rightarrow>
        int option \<Rightarrow> net_act list \<Rightarrow> (int option \<times> net_act list) prog"
      and attempt ptr k v acts y
    assume IH: "\<And>attempt ptr k v acts y. f attempt ptr k v acts = Some y \<Longrightarrow>
        \<forall>a c r. ptr = a # c # r \<longrightarrow> (\<exists>j \<ge> k. \<not> again (attempt j a))"
      and eq: "(case ptr of [] \<Rightarrow> stop_with Null_deref
        | ai # ai_next \<Rightarrow> if ai_next = [] then ret (v, acts)
          else bindp (attempt k ai) (\<lambda>(continue, fd, new).
            if continue then f attempt ptr (Suc k) (Some fd) (acts @ new)
            else ret (Some fd, acts @ new))) = Some y"
    show "\<forall>a c r. ptr = a # c # r \<longrightarrow> (\<exists>j \<ge> k. \<not> again (attempt j a))"
    proof (intro allI impI)
      fix a c r
      assume ptr: "ptr = a # c # r"
      show "\<exists>j \<ge> k. \<not> again (attempt j a)"
      proof (cases "again (attempt k a)")
        case True
        then obtain fd new where "attempt k a = ret (True, fd, new)" by (auto simp: again_def)
        with eq ptr have "f attempt ptr (Suc k) (Some fd) (acts @ new) = Some y" by simp
        from IH [OF this, rule_format, OF ptr] show ?thesis using Suc_leD by blast
      qed blast
    qed
  qed
  with assms(2) show ?thesis by blast
qed

lemma address_loop_diverges:
  "\<forall>j \<ge> k. again (attempt j ai) \<Longrightarrow> address_loop attempt (ai # b # rest) k v acts = None"
  by (cases "address_loop attempt (ai # b # rest) k v acts") (auto dest: address_loop_returns)

text \<open>The first attempt that is not made again decides.\<close>

lemma address_loop_first:
  assumes "\<forall>j < n. again (attempt (k + j) ai)" and "\<not> again (attempt (k + n) ai)"
  shows "\<exists>new. address_loop attempt (ai # b # rest) k v acts =
    bindp (attempt (k + n) ai) (\<lambda>(_, fd, new'). ret (Some fd, acts @ new @ new'))"
  using assms
proof (induction n arbitrary: k v acts)
  case 0
  then have "bindp (attempt k ai) (\<lambda>(continue, fd, new).
       if continue then address_loop attempt (ai # b # rest) (Suc k) (Some fd) (acts @ new)
       else ret (Some fd, acts @ new)) = bindp (attempt k ai) (\<lambda>(_, fd, new'). ret (Some fd, acts @ [] @ new'))"
    by (intro bindp_cong) (auto simp: again_def)
  then show ?case by (subst address_loop_step) (auto intro!: exI [of _ "[]"])
next
  case (Suc n)
  from Suc.prems(1) have "again (attempt k ai)" by (metis add.right_neutral zero_less_Suc)
  then obtain fd new where a: "attempt k ai = ret (True, fd, new)" by (auto simp: again_def)
  have "\<forall>j < n. again (attempt (Suc k + j) ai)" using Suc.prems(1) by (metis Suc_mono add_Suc add_Suc_right)
  moreover have "\<not> again (attempt (Suc k + n) ai)" using Suc.prems(2) by simp
  ultimately obtain new' where
    "address_loop attempt (ai # b # rest) (Suc k) (Some fd) (acts @ new) =
      bindp (attempt (Suc k + n) ai) (\<lambda>(_, fd, new''). ret (Some fd, (acts @ new) @ new' @ new''))"
    using Suc.IH by blast
  with a show ?case by (subst address_loop_step) (auto intro!: exI [of _ "new @ new'"])
qed

lemma address_loop_None_iff:
  assumes "\<And>k. attempt k ai \<noteq> None"
  shows "address_loop attempt (ai # b # rest) 0 v acts = None \<longleftrightarrow> (\<forall>k. again (attempt k ai))"
proof
  assume none: "address_loop attempt (ai # b # rest) 0 v acts = None"
  show "\<forall>k. again (attempt k ai)"
  proof (rule ccontr)
    assume "\<not> (\<forall>k. again (attempt k ai))"
    then obtain n where "\<not> again (attempt n ai)" "\<forall>j < n. again (attempt j ai)"
      using exists_least_iff [of "\<lambda>k. \<not> again (attempt k ai)"] by blast
    with address_loop_first [of n attempt 0 ai b rest v acts] obtain new where
      "bindp (attempt n ai) (\<lambda>(_, fd, new'). ret (Some fd, acts @ new @ new')) = None" using none by fastforce
    with assms [of n] show False
      by (cases "attempt n ai") (auto simp: bindp_def split: sum.split_asm)
  qed
qed (simp add: address_loop_diverges)

text \<open>What every attempt keeps of the list of effects, the loop keeps.\<close>

lemma address_loop_keeps:
  assumes "address_loop attempt (ai # b # rest) k v acts = ret (fd, acts')" and "P acts"
    and "\<And>k fd new acts. attempt k ai = ret (True, fd, new) \<Longrightarrow> P acts \<Longrightarrow> P (acts @ new)"
    and "\<And>k fd new acts. attempt k ai = ret (False, fd, new) \<Longrightarrow> P acts \<Longrightarrow> Q fd (acts @ new)"
  shows "\<exists>s. fd = Some s \<and> Q s acts'"
proof (cases "\<forall>j \<ge> k. again (attempt j ai)")
  case True
  with assms(1) address_loop_diverges [of k attempt ai] show ?thesis by simp
next
  case False
  then obtain m where "k \<le> m \<and> \<not> again (attempt m ai)" by auto
  then have "\<not> again (attempt (k + (m - k)) ai)" by simp
  then obtain n where n: "\<not> again (attempt (k + n) ai)" "\<forall>j < n. again (attempt (k + j) ai)"
    using exists_least_iff [of "\<lambda>n. \<not> again (attempt (k + n) ai)"] by blast
  from assms(1,2) n show ?thesis
  proof (induction n arbitrary: k v acts)
    case 0
    then have "\<not> again (attempt k ai)" by simp
    with 0(1) obtain s new where "attempt k ai = ret (False, s, new)" "fd = Some s" "acts' = acts @ new"
      by (subst (asm) address_loop_step) (auto simp: again_def elim!: bindp_retE split: if_splits)
    with assms(4) 0(2) show ?case by blast
  next
    case (Suc n)
    from Suc.prems(4) have "again (attempt k ai)" by (metis add.right_neutral zero_less_Suc)
    then obtain s new where a: "attempt k ai = ret (True, s, new)" by (auto simp: again_def)
    with Suc.prems(1) have "address_loop attempt (ai # b # rest) (Suc k) (Some s) (acts @ new) = ret (fd, acts')"
      by (subst (asm) address_loop_step) simp
    moreover have "P (acts @ new)" using assms(3) [OF a] Suc.prems(2) .
    moreover have "\<not> again (attempt (Suc k + n) ai)" using Suc.prems(3) by simp
    moreover have "\<forall>j < n. again (attempt (Suc k + j) ai)"
      using Suc.prems(4) by (metis Suc_mono add_Suc add_Suc_right)
    ultimately show ?case by (rule Suc.IH)
  qed
qed

section \<open>What the programs get\<close>

text \<open>The descriptors that are open after some effects, oldest first.\<close>

definition still_open :: "net_act list \<Rightarrow> int list" where
  "still_open acts = foldl (\<lambda>fds a. case a of
     Opened fd \<Rightarrow> fds @ [fd] | Shut fd \<Rightarrow> remove1 fd fds | _ \<Rightarrow> fds) [] acts"

text \<open>The only address the effects name.\<close>

fun names_only :: "string \<Rightarrow> net_act list \<Rightarrow> bool" where
  "names_only a [] = True"
| "names_only a (Bound fd b # acts) = (b = a \<and> names_only a acts)"
| "names_only a (Connected fd b # acts) = (b = a \<and> names_only a acts)"
| "names_only a (_ # acts) = names_only a acts"

lemma names_only_append [simp]: "names_only a (acts @ acts') \<longleftrightarrow> names_only a acts \<and> names_only a acts'"
  by (induction a acts rule: names_only.induct) auto

lemma still_open_append:
  "still_open (acts @ acts') = foldl (\<lambda>fds a. case a of
     Opened fd \<Rightarrow> fds @ [fd] | Shut fd \<Rightarrow> remove1 fd fds | _ \<Rightarrow> fds) (still_open acts) acts'"
  by (simp add: still_open_def)

text \<open>\<open>socket\<close> or \<open>bind\<close> fails for this address in pass \<open>k\<close>, and the loop makes another one.\<close>

definition kv_refused :: "os \<Rightarrow> nat \<Rightarrow> addrinfo \<Rightarrow> bool" where
  "kv_refused env k ai \<longleftrightarrow>
     (let fd = os_socket env k (ai_family ai) (ai_socktype ai) (ai_protocol ai) in
      fd = - 1 \<or> os_setsockopt env k fd \<noteq> - 1 \<and> os_bind env k fd (ai_addr ai) = - 1)"

lemma again_kv_bind: "again (kv_bind_attempt env k ai) \<longleftrightarrow> kv_refused env k ai"
  by (auto simp: again_def kv_bind_attempt_def kv_refused_def Let_def)

lemma kv_bind_attempt_total: "kv_bind_attempt env k ai \<noteq> None"
  by (simp add: kv_bind_attempt_def Let_def)

lemma kv_bind_keeps:
  assumes "address_loop (kv_bind_attempt env) (ai # b # rest) 0 None [] = ret (fd, acts)"
  shows "\<exists>s. fd = Some s \<and> s \<noteq> - 1 \<and> still_open acts = [s] \<and> Bound s (ai_addr ai) \<in> set acts \<and>
    names_only (ai_addr ai) acts"
  by (rule address_loop_keeps [OF assms, where P = "\<lambda>acts. still_open acts = [] \<and> names_only (ai_addr ai) acts"
        and Q = "\<lambda>s acts. s \<noteq> - 1 \<and> still_open acts = [s] \<and> Bound s (ai_addr ai) \<in> set acts \<and>
          names_only (ai_addr ai) acts"])
    (auto simp: kv_bind_attempt_def Let_def still_open_append split: if_splits, simp add: still_open_def)

lemma tob_bind_keeps:
  assumes "address_loop (tob_bind_attempt env) (ai # b # rest) 0 None [] = ret (fd, acts)"
  shows "\<exists>s. fd = Some s \<and> s \<noteq> - 1 \<and> (\<exists>fds. still_open acts = fds @ [s]) \<and>
    (\<forall>f. Shut f \<notin> set acts) \<and> names_only (ai_addr ai) acts"
  by (rule address_loop_keeps [OF assms, where P = "\<lambda>acts. (\<forall>f. Shut f \<notin> set acts) \<and> names_only (ai_addr ai) acts"
        and Q = "\<lambda>s acts. s \<noteq> - 1 \<and> (\<exists>fds. still_open acts = fds @ [s]) \<and> (\<forall>f. Shut f \<notin> set acts) \<and>
          names_only (ai_addr ai) acts"])
    (auto simp: tob_bind_attempt_def Let_def still_open_append split: if_splits)

lemma connect_keeps:
  assumes "address_loop (connect_attempt env) (ai # b # rest) 0 None [] = ret (fd, acts)"
  shows "\<exists>s. fd = Some s \<and> s \<noteq> - 1 \<and> acts = [Opened s, Connected s (ai_addr ai)]"
  by (rule address_loop_keeps [OF assms, where P = "\<lambda>acts. acts = []"
        and Q = "\<lambda>s acts. s \<noteq> - 1 \<and> acts = [Opened s, Connected s (ai_addr ai)]"])
    (auto simp: connect_attempt_def Let_def split: if_splits)

text \<open>Two passes that end with a socket, for the examples: the first \<open>bind\<close> fails.\<close>

definition sample_addr :: "string \<Rightarrow> addrinfo" where
  "sample_addr a = \<lparr>ai_family = 2, ai_socktype = 1, ai_protocol = 6, ai_addr = a\<rparr>"

definition sample_os :: os where
  "sample_os = \<lparr>os_getaddrinfo = (\<lambda>_ _. Inr [sample_addr ''v4'', sample_addr ''v6'']),
     os_socket = (\<lambda>k _ _ _. 3), os_setsockopt = (\<lambda>_ _. 0), os_bind = (\<lambda>k _ _. if k = 0 then - 1 else 0),
     os_connect = (\<lambda>_ _ _. 0), os_listen = (\<lambda>_ _. 0)\<rparr>"

lemma sample_os_socket:
  "kv_server_socket sample_os = ret (Inr (3, [Opened 3, Shut 3, Opened 3, Bound 3 ''v4'', Listening 3 200]))"
  by (simp add: kv_server_socket_def address_loop_step [of _ _ _ _ 0] address_loop_step [of _ _ _ _ "Suc 0"]
      kv_bind_attempt_def sample_os_def sample_addr_def read_int_def KV_BACKLOG_def)

section \<open>Properties\<close>

text \<open>
  C14: only the first address that \<open>getaddrinfo\<close> returns is ever used, and only when there is another
  one. With a single address the server calls \<open>listen\<close> with an uninitialised descriptor; otherwise
  it loops for ever exactly when that first address is refused in every pass, whatever the other
  addresses are. When it does listen, its socket is bound to the first address and is the only
  descriptor left open.
\<close>

theorem first_address_only:
  assumes "os_getaddrinfo env None KV_PORT = Inr (ai # rest)"
  shows "(rest = [] \<longrightarrow> kv_server_socket env = stop_with Uninitialised) \<and>
    (rest \<noteq> [] \<longrightarrow> (kv_server_socket env = None \<longleftrightarrow> (\<forall>k. kv_refused env k ai))) \<and>
    (\<forall>fd acts. kv_server_socket env = ret (Inr (fd, acts)) \<longrightarrow>
       still_open acts = [fd] \<and> Bound fd (ai_addr ai) \<in> set acts \<and> names_only (ai_addr ai) acts)"
proof (cases rest)
  case Nil
  with assms show ?thesis by (simp add: kv_server_socket_def read_int_def)
next
  case (Cons b bs)
  let ?loop = "address_loop (kv_bind_attempt env) (ai # b # bs) 0 None []"
  have s: "kv_server_socket env = bindp ?loop (\<lambda>(sockfd, acts). bindp (read_int sockfd) (\<lambda>sockfd.
      if os_listen env sockfd KV_BACKLOG = - 1 then stop_with Exited
      else ret (Inr (sockfd, acts @ [Listening sockfd KV_BACKLOG]))))"
    using assms Cons by (simp add: kv_server_socket_def)
  have "kv_server_socket env = None \<longleftrightarrow> ?loop = None"
    unfolding s by (cases ?loop) (auto simp: bindp_def read_int_def split: sum.splits option.splits)
  with address_loop_None_iff [of "kv_bind_attempt env" ai b bs None "[]"] kv_bind_attempt_total
  have "kv_server_socket env = None \<longleftrightarrow> (\<forall>k. kv_refused env k ai)" by (simp add: again_kv_bind)
  moreover have "still_open acts = [fd] \<and> Bound fd (ai_addr ai) \<in> set acts \<and> names_only (ai_addr ai) acts"
    if "kv_server_socket env = ret (Inr (fd, acts))" for fd acts
  proof -
    from that obtain v acts' where l: "?loop = ret (v, acts')" and
      r: "read_int v = ret fd" "acts = acts' @ [Listening fd KV_BACKLOG]"
      unfolding s by (auto elim!: bindp_retE split: if_splits)
    from kv_bind_keeps [OF l] r show ?thesis by (auto simp: still_open_append read_int_def)
  qed
  ultimately show ?thesis using Cons by blast
qed

theorem first_address_only_witness:
  "kv_server_socket sample_os = ret (Inr (3, [Opened 3, Shut 3, Opened 3, Bound 3 ''v4'', Listening 3 200])) \<and>
   still_open [Opened 3, Shut 3, Opened 3, Bound 3 ''v4'', Listening 3 200] = [3] \<and>
   names_only ''v4'' [Opened 3, Shut 3, Opened 3, Bound 3 ''v4'', Listening 3 200]"
proof -
  have g: "os_getaddrinfo sample_os None KV_PORT = Inr (sample_addr ''v4'' # [sample_addr ''v6''])"
    by (simp add: sample_os_def)
  from first_address_only [OF g] sample_os_socket show ?thesis by (simp add: sample_addr_def)
qed

end
