(* ===== verification/KvClient.thy ===== *)
theory KvClient
  imports Sockets NetSetup
begin

text \<open>
  \<open>memcache_lite/client.c\<close>: the request encoders, the loop that sends a whole buffer, and
  \<open>main\<close> from the checks of its arguments over the connection to the message it sends and the
  reply it prints.
\<close>

section \<open>Encoding requests\<close>

definition encode_get :: "string \<Rightarrow> size_t \<Rightarrow> string \<Rightarrow> string prog" where
  "encode_get key key_size msg_buffer =
     bindp (sprintf_at msg_buffer 0 (''get'' @ CRLF)) (\<lambda>(msg_buffer, offset).
     bindp (sprintf_at msg_buffer offset (key @ CRLF)) (\<lambda>(msg_buffer, offset).
     write_at msg_buffer offset [NUL]))"

definition encode_set ::
  "string \<Rightarrow> string \<Rightarrow> size_t \<Rightarrow> size_t \<Rightarrow> size_t \<Rightarrow> string \<Rightarrow> string prog" where
  "encode_set key val key_size value_size actual_size msg_buffer =
     bindp (sprintf_at msg_buffer 0 (''set'' @ CRLF)) (\<lambda>(msg_buffer, offset).
     bindp (sprintf_at msg_buffer offset (pad_right 8 (dec (unat value_size)) @ CRLF))
       (\<lambda>(msg_buffer, offset).
     bindp (sprintf_at msg_buffer offset (pad_right 8 (dec (unat actual_size)) @ CRLF))
       (\<lambda>(msg_buffer, offset).
     bindp (sprintf_at msg_buffer offset (pad_right 6 (dec (unat key_size)) @ CRLF))
       (\<lambda>(msg_buffer, offset).
     bindp (sprintf_at msg_buffer offset (key @ CRLF)) (\<lambda>(msg_buffer, offset).
     bindp (slice (val @ [NUL]) 0 (unat actual_size)) (\<lambda>bytes.
     bindp (write_at msg_buffer offset bytes) (\<lambda>msg_buffer.
     let offset = offset + unat actual_size in
     bindp (write_at msg_buffer offset [CR]) (\<lambda>msg_buffer.
     bindp (write_at msg_buffer (offset + 1) [LF]) (\<lambda>msg_buffer.
     write_at msg_buffer (offset + 2) [NUL])))))))))"

section \<open>Sending a whole buffer\<close>

text \<open>
  The loop of \<open>sendFullBuffer\<close>. \<open>out\<close> collects the bytes the network accepted, in order. The
  result is \<open>total\<close> (here \<open>sent\<close>) and the last value of \<open>t\<close>, where \<open>None\<close> is -1.
\<close>

partial_function (option) send_full_loop ::
  "string \<Rightarrow> nat \<Rightarrow> nat \<Rightarrow> nat \<Rightarrow> nat option list \<Rightarrow> string \<Rightarrow>
   (nat \<times> bool \<times> string) prog" where
  "send_full_loop buf len sent bleft cs out =
     (if sent < len then
        bindp (slice buf sent bleft) (\<lambda>data.
        case send cs data of
          (None, cs) \<Rightarrow> ret (sent, True, out)
        | (Some bs, cs) \<Rightarrow>
            send_full_loop buf len (sent + length bs) (bleft - length bs) cs (out @ bs))
      else ret (sent, False, out))"

text \<open>
  \<open>sendFullBuffer\<close>: the status (1 on failure), the updated \<open>*len\<close>, and the bytes sent. For
  an empty buffer the loop body never assigns \<open>t\<close>, which the return statement reads.
\<close>

definition sendFullBuffer ::
  "string \<Rightarrow> nat \<Rightarrow> nat option list \<Rightarrow> (int \<times> nat \<times> string) prog" where
  "sendFullBuffer buf len cs =
     bindp (send_full_loop buf len 0 len cs []) (\<lambda>(sent, failed, out).
     if len = 0 then stop_with Uninitialised
     else ret (if failed then 1 else 0, sent, out))"

section \<open>The program\<close>

datatype client_result =
    Client_exit int          \<comment> \<open>the exit status, nothing sent\<close>
  | Client_request string    \<comment> \<open>the buffer handed to \<open>sendFullBuffer\<close>\<close>

text \<open>
  \<open>argv\<close> holds \<open>argv[0]\<close>, \<dots>; \<open>erange\<close> says whether \<open>errno\<close> is \<open>ERANGE\<close> when the arguments are
  checked, since the code tests \<open>errno\<close> without clearing it.
\<close>

definition client_get :: "string list \<Rightarrow> client_result prog" where
  "client_get argv =
     (if length argv \<noteq> 3 then ret (Client_exit 1)
      else let key = argv ! 2; key_size = of_nat (length key); buffer_size = 5 + 6 + 2 in
        bindp (encode_get key key_size (replicate buffer_size NUL)) (\<lambda>b. ret (Client_request b)))"

definition client_set :: "string list \<Rightarrow> bool \<Rightarrow> client_result prog" where
  "client_set argv erange =
     (if length argv \<noteq> 5 then ret (Client_exit 1)
      else let key = argv ! 2; key_size = of_nat (length key);
               (value_size, err) = strtoul (argv ! 3)
        in if value_size = 0 \<or> err \<or> erange then ret (Client_exit 1)
        else let val = argv ! 4; actual_size = of_nat (length val) :: size_t
          in if value_size < actual_size + 2 then ret (Client_exit 1)
          else let buffer_size = 5 + 8 + 2 + 8 + 2 + 6 + 2 + length val + 8 in
            bindp (encode_set key val key_size value_size actual_size (replicate buffer_size NUL))
              (\<lambda>b. ret (Client_request b)))"

text \<open>The checks before the connection is made: the exit status when one fails.\<close>

definition client_args :: "string list \<Rightarrow> int option" where
  "client_args argv =
     (if length argv \<noteq> 3 \<and> length argv \<noteq> 5 then Some 1
      else if strcmp (argv ! 1) ''set'' \<noteq> 0 \<and> strcmp (argv ! 1) ''get'' \<noteq> 0 then Some 1
      else None)"

text \<open>The branches for the two operations, behind the connection.\<close>

definition client_command :: "string list \<Rightarrow> bool \<Rightarrow> client_result prog" where
  "client_command argv erange =
     (if strcmp (argv ! 1) ''get'' = 0 then client_get argv else client_set argv erange)"

definition client_request :: "string list \<Rightarrow> bool \<Rightarrow> client_result prog" where
  "client_request argv erange =
     (case client_args argv of
        Some st \<Rightarrow> ret (Client_exit st)
      | None \<Rightarrow> client_command argv erange)"

text \<open>
  \<open>main\<close>: check the arguments, connect, build the message, send it (the status of
  \<open>sendFullBuffer\<close> is ignored), receive once, at most \<open>MAXRECVBYTES - 1\<close> bytes, and print them up
  to their terminator. The result is the exit status, what was done to descriptors, the bytes sent and
  the text printed. The socket is not closed.
\<close>

definition MAXRECVBYTES :: nat where
  "MAXRECVBYTES = 40"

definition client_main ::
  "os \<Rightarrow> string list \<Rightarrow> bool \<Rightarrow> nat option list \<Rightarrow> arrival list \<Rightarrow>
   (int \<times> net_act list \<times> string \<times> string) prog" where
  "client_main env argv erange cs reply =
     (case client_args argv of
        Some st \<Rightarrow> ret (st, [], [], [])
      | None \<Rightarrow>
          bindp (kv_connect env) (\<lambda>(sockfd, acts).
          bindp (client_command argv erange) (\<lambda>r. case r of
            Client_exit st \<Rightarrow> ret (st, acts, [], [])
          | Client_request msg_buffer \<Rightarrow>
              bindp (read_int sockfd) (\<lambda>sockfd.
              bindp (sendFullBuffer msg_buffer (length msg_buffer) cs) (\<lambda>(_, _, out).
              bindp (recv reply (MAXRECVBYTES - 1)) (\<lambda>(r, _). case r of
                None \<Rightarrow> stop_with Exited
              | Some bs \<Rightarrow>
                  if bs = [] then ret (1, acts, out, [])
                  else ret (0, acts, out, ''client: recieved..'' @ [LF] @ cstr bs)))))))"

section \<open>The encoders fill their buffers\<close>

lemma encode_get_wire:
  assumes "length key + 7 < length buf"
  shows "encode_get key n buf =
    ret (''get'' @ CRLF @ key @ CRLF @ [NUL] @ drop (length key + 8) buf)"
  by (subst wbuf_init [of buf])
    (use assms in \<open>simp add: encode_get_def cstr_simps CRLF_def, simp add: wbuf_def eval_nat_numeral\<close>)

text \<open>The bytes of a set request, before the terminator.\<close>

definition set_wire :: "string \<Rightarrow> string \<Rightarrow> size_t \<Rightarrow> string" where
  "set_wire key val value_size =
     ''set'' @ CRLF @ pad_right 8 (dec (unat value_size)) @ CRLF
     @ pad_right 8 (dec (length val)) @ CRLF @ pad_right 6 (dec (length key)) @ CRLF
     @ key @ CRLF @ val @ CRLF"

lemma encode_set_wire:
  assumes len: "length (set_wire key val value_size) < length buf"
    and sizes: "unat key_size = length key" "unat actual_size = length val"
  shows "encode_set key val key_size value_size actual_size buf =
    ret (set_wire key val value_size @ [NUL] @ drop (Suc (length (set_wire key val value_size))) buf)"
proof -
  define f g h where "f = pad_right 8 (dec (unat value_size))" and "g = pad_right 8 (dec (length val))"
    and "h = pad_right 6 (dec (length key))"
  note fgh = f_def [symmetric] g_def [symmetric] h_def [symmetric]
  show ?thesis
    by (subst wbuf_init [of buf], insert len)
      (simp add: encode_set_def sizes fgh set_wire_def cstr_simps CRLF_def Let_def,
       simp add: wbuf_def ac_simps)
qed

lemma encode_get_overflow:
  assumes "5 < length buf" and "length buf \<le> length key + 7"
  shows "encode_get key n buf = stop_with Out_of_bounds"
  by (subst wbuf_init [of buf])
    (use assms in \<open>simp add: encode_get_def cstr_simps CRLF_def\<close>)

text \<open>
  Where a write does not fit, the encoder leaves its buffer; the last write, the terminator,
  needs the whole request to fit.
\<close>

lemma write_at_cases:
  "write_at buf off t =
     (if off + length t \<le> length buf then ret (take off buf @ t @ drop (off + length t) buf)
      else stop_with Out_of_bounds)"
  by (simp add: write_at_def)

lemma sprintf_wbuf_cases:
  "off = length s \<Longrightarrow> sprintf_at (wbuf s rest) off t =
     (if length t < length rest then ret (wbuf (s @ t) (NUL # drop (Suc (length t)) rest), off + length t)
      else stop_with Out_of_bounds)"
  by (simp add: cstr_simps)

lemma write_wbuf_cases:
  "off = length s \<Longrightarrow> write_at (wbuf s rest) off t =
     (if length t \<le> length rest then ret (wbuf (s @ t) (drop (length t) rest))
      else stop_with Out_of_bounds)"
  by (auto simp: cstr_simps write_at_oob)

lemma bindp_if [cstr_simps]:
  "bindp (if b then ret x else stop_with e) f = (if b then f x else stop_with e)"
  by simp

lemma encode_set_overflow:
  assumes len: "length buf \<le> length (set_wire key val value_size)"
    and sizes: "unat key_size = length key" "unat actual_size = length val"
  shows "encode_set key val key_size value_size actual_size buf = stop_with Out_of_bounds"
proof -
  define f g h where "f = pad_right 8 (dec (unat value_size))" and "g = pad_right 8 (dec (length val))"
    and "h = pad_right 6 (dec (length key))"
  note fgh = f_def [symmetric] g_def [symmetric] h_def [symmetric]
  show ?thesis
    by (subst wbuf_init [of buf], insert len)
      (simp add: encode_set_def sizes fgh set_wire_def sprintf_wbuf_cases write_wbuf_cases
         CRLF_def Let_def bindp_if cong: if_cong)
qed

section \<open>The send loop delivers a prefix\<close>

lemma send_full_loop_prefix:
  assumes "sent \<le> len" and "len \<le> length buf"
  shows "\<exists>n failed. send_full_loop buf len sent (len - sent) cs (take sent buf) =
           ret (n, failed, take n buf) \<and> sent \<le> n \<and> n \<le> len \<and> (failed \<longleftrightarrow> n < len) \<and>
           (failed \<longrightarrow> None \<in> set cs)"
  using assms(1)
proof (induction cs arbitrary: sent)
  case Nil
  have "take sent buf @ take (len - sent) (drop sent buf) = take len buf"
    using Nil by (metis le_add_diff_inverse take_add)
  with Nil assms(2) show ?case
    by (subst send_full_loop.simps) (auto simp: send_full_loop.simps [of _ _ len])
next
  case (Cons c cs)
  show ?case
  proof (cases "sent < len")
    case False
    with Cons.prems show ?thesis by (subst send_full_loop.simps) simp
  next
    case True
    show ?thesis
    proof (cases c)
      case None
      with True assms(2) show ?thesis by (subst send_full_loop.simps) simp
    next
      case (Some k)
      let ?bs = "take k (take (len - sent) (drop sent buf))"
      let ?n = "sent + length ?bs"
      have n: "?n \<le> len" using Cons.prems by simp
      have l: "length ?bs = min k (len - sent)" using assms(2) Cons.prems by simp
      have "take sent buf @ ?bs = take ?n buf"
        using l by (simp add: take_add min_def)
      moreover have "len - sent - length ?bs = len - ?n" by simp
      ultimately have "send_full_loop buf len sent (len - sent) (c # cs) (take sent buf) =
          send_full_loop buf len ?n (len - ?n) cs (take ?n buf)"
        using True Some assms(2) by (subst send_full_loop.simps) (simp add: min.commute)
      with Cons.IH [OF n] show ?thesis by fastforce
    qed
  qed
qed

lemma sendFullBuffer_prefix:
  assumes "0 < len" and "len \<le> length buf"
  shows "\<exists>n. sendFullBuffer buf len cs = ret (if n < len then 1 else 0, n, take n buf) \<and>
             n \<le> len \<and> (n < len \<longrightarrow> None \<in> set cs)"
proof -
  from send_full_loop_prefix [of 0 len buf cs] assms obtain n failed where
    "send_full_loop buf len 0 len cs [] = ret (n, failed, take n buf)" "n \<le> len"
    "failed \<longleftrightarrow> n < len" "failed \<longrightarrow> None \<in> set cs" by auto
  then show ?thesis using assms(1) by (simp add: sendFullBuffer_def)
qed

section \<open>The requests\<close>

lemma argv_nth: "[p, c, k, z, v] ! 2 = k" "[p, c, k, z, v] ! 3 = z" "[p, c, k, z, v] ! 4 = v" "[p, c, k] ! 2 = k"
  by (simp_all add: eval_nat_numeral)

lemma length_set_wire:
  assumes "length key < 10 ^ 6" and "length val < 10 ^ 8" and "unat value_size < 10 ^ 8"
  shows "length (set_wire key val value_size) = 37 + length key + length val"
  using assms length_dec_le [of 8 "unat value_size"] length_dec_le [of 8 "length val"]
    length_dec_le [of 6 "length key"]
  by (simp add: set_wire_def CRLF_def)

lemma client_get_wire_eq:
  "client_request [prog, ''get'', key] errno =
    (if length key \<le> 5
     then ret (Client_request (''get'' @ CRLF @ key @ CRLF @ replicate (6 - length key) NUL))
     else stop_with Out_of_bounds)"
proof -
  have w: "client_request [prog, ''get'', key] errno =
      bindp (encode_get key (of_nat (length key)) (replicate 13 NUL)) (\<lambda>b. ret (Client_request b))"
    by (simp add: client_request_def client_args_def client_command_def client_get_def strcmp_0_iff argv_nth Let_def)
  show ?thesis
  proof (cases "length key \<le> 5")
    case True
    then have "[NUL] @ drop (length key + 8) (replicate 13 NUL) = replicate (6 - length key) NUL"
      by (simp flip: replicate_Suc)
    with True show ?thesis unfolding w by (subst encode_get_wire) simp_all
  next
    case False
    then show ?thesis unfolding w by (subst encode_get_overflow) simp_all
  qed
qed

lemma client_set_wire_eq:
  assumes "strtoul size_arg = (value_size, False)" and "value_size \<noteq> 0" and "unat value_size < 10 ^ 8"
    and "length val + 2 \<le> unat value_size" and "length key < 10 ^ 6"
  shows "client_request [prog, ''set'', key, size_arg, val] False =
    (if length key \<le> 3
     then ret (Client_request (set_wire key val value_size @ replicate (4 - length key) NUL))
     else stop_with Out_of_bounds)"
proof -
  let ?n = "41 + length val"
  have v: "length val < 10 ^ 8" using assms(3,4) by simp
  have u: "unat (of_nat (length val) :: size_t) = length val" "unat (of_nat (length key) :: size_t) = length key"
    "unat (of_nat (length val) + 2 :: size_t) = length val + 2"
    using v assms(5) by (simp_all add: unat_word_ariths unat_of_nat)
  then have "\<not> value_size < of_nat (length val) + 2" using assms(4) by (simp add: word_less_nat_alt)
  then have w: "client_request [prog, ''set'', key, size_arg, val] False =
      bindp (encode_set key val (of_nat (length key)) value_size (of_nat (length val)) (replicate ?n NUL))
        (\<lambda>b. ret (Client_request b))"
    using assms(1,2) by (simp add: client_request_def client_args_def client_command_def client_set_def strcmp_0_iff argv_nth Let_def)
  note lw = length_set_wire [OF assms(5) v assms(3)]
  show ?thesis
  proof (cases "length key \<le> 3")
    case True
    then have "[NUL] @ drop (Suc (37 + length key + length val)) (replicate ?n NUL) = replicate (4 - length key) NUL"
      by (simp flip: replicate_Suc)
    moreover have "length (set_wire key val value_size) < length (replicate ?n NUL)"
      using True lw by simp
    ultimately show ?thesis
      using True lw u(1,2) unfolding w by (subst encode_set_wire) simp_all
  next
    case False
    then have "length (replicate ?n NUL) \<le> length (set_wire key val value_size)" using lw by simp
    then show ?thesis using False u(1,2) unfolding w by (subst encode_set_overflow) simp_all
  qed
qed

section \<open>Properties\<close>

text \<open>
  C31: the set command, for sizes that fit their columns, puts the request on the wire when the key
  has at most three bytes. The buffer has no room for the key, so any longer key overruns it.
\<close>

theorem client_set_wire:
  assumes "strtoul size_arg = (value_size, False)" and "value_size \<noteq> 0" and "unat value_size < 10 ^ 8"
    and "length val + 2 \<le> unat value_size" and "length key < 10 ^ 6"
  shows "client_request [prog, ''set'', key, size_arg, val] False =
    (if length key \<le> 3
     then ret (Client_request (set_wire key val value_size @ replicate (4 - length key) NUL))
     else stop_with Out_of_bounds)"
  by (rule client_set_wire_eq [OF assms])

theorem client_set_wire_witness:
  "client_request [''client'', ''set'', ''abcd'', ''9'', ''hello''] False = stop_with Out_of_bounds"
proof -
  have "strtoul ''9'' = (9, False)"
    by (simp add: strtoul_def scan_int_def scan_sign_def is_space_def is_digit_def num_of_def digit_val_def
        ulong_of_def)
  from client_set_wire [OF this, of "''hello''" "''abcd''" "''client''"] show ?thesis by simp
qed

text \<open>
  C32: whatever the network accepts at each call, \<open>sendFullBuffer\<close> has sent a prefix of the buffer,
  in order and without repetition; it reports success exactly when the prefix is the whole buffer,
  and a shorter prefix is the result of a failed \<open>send\<close>.
\<close>

theorem send_full_prefix:
  assumes "0 < len" and "len \<le> length buf"
  shows "\<exists>n. sendFullBuffer buf len cs = ret (if n < len then 1 else 0, n, take n buf) \<and>
    n \<le> len \<and> (n < len \<longrightarrow> None \<in> set cs)"
  by (rule sendFullBuffer_prefix [OF assms])

theorem send_full_prefix_witness:
  "sendFullBuffer ''hello'' 5 [Some 2, Some 1] = ret (0, 5, ''hello'')"
proof -
  from send_full_prefix [of 5 "''hello''" "[Some 2, Some 1]"] obtain n where
    n: "sendFullBuffer ''hello'' 5 [Some 2, Some 1] = ret (if n < 5 then 1 else 0, n, take n ''hello'')"
      "n \<le> 5" "\<not> n < 5" by auto
  then have "n = 5" by simp
  with n(1) show ?thesis by simp
qed

text \<open>
  C30: the get command from its arguments to the screen: it connects to the first address of the
  server, sends the request for a key of at most five bytes, and prints the reply, but it receives
  only once and at most 39 bytes, so a longer reply is cut off. A key of six or more bytes overruns
  the request buffer after the connection was made.
\<close>

theorem client_prints_reply:
  assumes "kv_connect env = ret (Some fd, acts)" and "reply \<noteq> []" and "NUL \<notin> set reply"
  shows "client_main env [prog, ''get'', key] errno [] (Bytes reply # as) =
    (if length key \<le> 5
     then ret (0, acts, ''get'' @ CRLF @ key @ CRLF @ replicate (6 - length key) NUL,
       ''client: recieved..'' @ [LF] @ take 39 reply)
     else stop_with Out_of_bounds)"
proof -
  let ?w = "''get'' @ CRLF @ key @ CRLF @ replicate (6 - length key) NUL"
  have args: "client_args [prog, ''get'', key] = None"
    by (simp add: client_args_def strcmp_0_iff)
  have cmd: "client_command [prog, ''get'', key] errno =
      (if length key \<le> 5 then ret (Client_request ?w) else stop_with Out_of_bounds)"
    using client_get_wire_eq [of prog key errno] by (simp add: client_request_def args)
  have r: "\<exists>as'. recv (Bytes reply # as) 39 = ret (Some (take 39 reply), as')" using assms(2) by simp
  have "NUL \<notin> set (take 39 reply)" using assms(3) by (meson in_set_takeD)
  then have "cstr (take 39 reply) = take 39 reply" by (rule cstr_idem)
  moreover have "sendFullBuffer ?w (length ?w) [] = ret (0, length ?w, ?w)"
    using sendFullBuffer_prefix [of "length ?w" ?w "[]"] by auto
  ultimately show ?thesis
    using assms(1,2) args cmd r by (auto simp: client_main_def read_int_def MAXRECVBYTES_def)
qed

theorem client_prints_reply_witness:
  "client_main sample_os [''client'', ''get'', ''ab''] False [] [Bytes (replicate 45 CHR ''x'')] =
     ret (0, [Opened 3, Connected 3 ''v4''], ''get'' @ CRLF @ ''ab'' @ CRLF @ replicate 4 NUL,
       ''client: recieved..'' @ [LF] @ replicate 39 CHR ''x'')"
proof -
  have "kv_connect sample_os = ret (Some 3, [Opened 3, Connected 3 ''v4''])"
    by (simp add: kv_connect_def sample_os_def sample_addr_def address_loop_step [of _ _ _ _ 0] connect_attempt_def)
  from client_prints_reply [OF this, of "replicate 45 CHR ''x''" "''client''" "''ab''" False "[]"]
  show ?thesis by simp
qed

end
