(* ===== verification/HashMap.thy ===== *)
theory HashMap
  imports CLib
begin

text \<open>
  \<open>memcache_lite/hashmap.c\<close>: the hash function, the table of \<open>TABLESIZE\<close> chains of
  key-value nodes and its operations. The chains live in an explicit heap, since inserting
  and deleting relink the nodes themselves. The queue of requests kept in the same file
  is modelled here as state, since \<open>delete_node\<close> looks at it, and in \<open>HashQueue\<close> as a queue.
\<close>

unbundle bit_operations_syntax

section \<open>The hash function\<close>

definition TABLESIZE :: nat where
  "TABLESIZE = 5"

text \<open>\<open>char\<close> is signed on the target, so a byte above 127 is added as a negative number.\<close>

definition signed_char :: "char \<Rightarrow> 32 word" where
  "signed_char c = scast (of_char c :: 8 word)"

definition hash_step :: "32 word \<Rightarrow> char \<Rightarrow> 32 word" where
  "hash_step hash c = push_bit 5 hash + signed_char c"

definition hash_string :: "string \<Rightarrow> 32 word" where
  "hash_string str = foldl hash_step 5381 str mod of_nat TABLESIZE"

section \<open>The nodes and the state\<close>

record kv_node =
  kv_key :: string
  kv_value :: string
  value_size :: size_t
  user_size :: size_t
  oper_flg :: "8 word"
  kv_next :: ptr

record node_hash =
  nh_data :: ptr
  sock_fd :: int
  nh_next :: ptr

record kv_state =
  kv_heap :: "kv_node heap"
  hash_map :: "ptr list"
  nh_heap :: "node_hash heap"
  head_hash :: ptr
  tail_hash :: ptr

text \<open>The globals before \<open>main\<close>: all pointers null.\<close>

definition kv_init :: kv_state where
  "kv_init = \<lparr>kv_heap = Map.empty, hash_map = replicate TABLESIZE None, nh_heap = Map.empty,
     head_hash = None, tail_hash = None\<rparr>"

definition init_map :: "kv_state \<Rightarrow> kv_state" where
  "init_map s = s\<lparr>hash_map := replicate TABLESIZE None\<rparr>"

section \<open>Operations\<close>

text \<open>
  \<open>m\<close> is the answer of \<open>malloc\<close>. The key can be \<open>NULL\<close> (\<open>None\<close>), which \<open>strdup\<close>
  dereferences; \<open>buf\<close> is the buffer that holds the value, read up to its terminator.
\<close>

definition create_node ::
  "ptr \<Rightarrow> string option \<Rightarrow> size_t \<Rightarrow> string \<Rightarrow> 8 word \<Rightarrow> kv_state \<Rightarrow> (ptr \<times> kv_state) prog" where
  "create_node m key usize buf flg s =
     (case m of
        None \<Rightarrow> stop_with Exited
      | Some a \<Rightarrow>
          (case key of
             None \<Rightarrow> stop_with Null_deref
           | Some k \<Rightarrow>
               ret (m, s\<lparr>kv_heap := (kv_heap s)(a \<mapsto>
                 \<lparr>kv_key = cstr k, kv_value = cstr buf, value_size = of_nat (length (cstr buf)),
                  user_size = usize, oper_flg = flg, kv_next = None\<rparr>)\<rparr>)))"

definition insert_node :: "ptr \<Rightarrow> kv_state \<Rightarrow> (bool \<times> kv_state) prog" where
  "insert_node kv_ptr s =
     (if kv_ptr = None then ret (False, s)
      else bindp (load (kv_heap s) kv_ptr) (\<lambda>n.
        let index = unat (hash_string (kv_key n)) in
        bindp (modify (kv_heap s) kv_ptr (kv_next_update (\<lambda>_. hash_map s ! index))) (\<lambda>h.
        ret (True, s\<lparr>kv_heap := h, hash_map := (hash_map s)[index := kv_ptr]\<rparr>))))"

partial_function (option) get_node_loop ::
  "kv_node heap \<Rightarrow> string \<Rightarrow> nat \<Rightarrow> ptr \<Rightarrow> ptr prog" where
  "get_node_loop h key key_len current =
     (if current = None then ret None
      else bindp (load h current) (\<lambda>n.
        if strncmp (kv_key n) key key_len \<noteq> 0
        then get_node_loop h key key_len (kv_next n)
        else ret current))"

definition get_node :: "string option \<Rightarrow> kv_state \<Rightarrow> ptr prog" where
  "get_node key s =
     (case key of
        None \<Rightarrow> ret None
      | Some k \<Rightarrow>
          let index = unat (hash_string k) in
          if hash_map s ! index = None then ret None
          else get_node_loop (kv_heap s) k (length k) (hash_map s ! index))"

text \<open>
  The loop of \<open>delete_node\<close> compares the key of the current node before it tests whether
  there is a current node.
\<close>

partial_function (option) delete_node_loop ::
  "kv_node heap \<Rightarrow> string \<Rightarrow> nat \<Rightarrow> ptr \<Rightarrow> ptr \<Rightarrow> (ptr \<times> ptr) prog" where
  "delete_node_loop h key_copy key_len current prev =
     bindp (load h current) (\<lambda>n.
       if strncmp key_copy (kv_key n) key_len \<noteq> 0 \<and> current \<noteq> None
       then delete_node_loop h key_copy key_len (kv_next n) current
       else ret (current, prev))"

definition delete_node :: "ptr \<Rightarrow> kv_state \<Rightarrow> (bool \<times> kv_state) prog" where
  "delete_node kv_ptr s =
     (if kv_ptr = None then ret (False, s)
      else bindp (load (kv_heap s) kv_ptr) (\<lambda>n.
        let key_copy = kv_key n; key_len = length key_copy;
            index = unat (hash_string key_copy) in
        if hash_map s ! index = None then ret (False, s)
        else if head_hash s = None then ret (False, s)
        else bindp (delete_node_loop (kv_heap s) key_copy key_len (hash_map s ! index) None)
          (\<lambda>(current, prev).
            if current = None then ret (False, s)
            else bindp (load (kv_heap s) current) (\<lambda>c.
              if prev = None
              then ret (True, s\<lparr>hash_map := (hash_map s)[index := kv_next c]\<rparr>)
              else bindp (modify (kv_heap s) prev (kv_next_update (\<lambda>_. kv_next c))) (\<lambda>h.
                   bindp (release h current) (\<lambda>h.
                   ret (True, s\<lparr>kv_heap := h\<rparr>)))))))"

text \<open>\<open>print_table\<close>: the text it prints.\<close>

partial_function (option) print_chain :: "kv_node heap \<Rightarrow> ptr \<Rightarrow> string \<Rightarrow> string prog" where
  "print_chain h tmp out =
     (if tmp = None then ret out
      else bindp (load h tmp) (\<lambda>n. print_chain h (kv_next n) (out @ kv_key n @ ''--'')))"

definition print_bucket :: "kv_state \<Rightarrow> nat \<Rightarrow> string \<Rightarrow> string prog" where
  "print_bucket s i out =
     (if hash_map s ! i = None
      then ret (out @ [CHR 0x09] @ dec i @ [CHR 0x09] @ ''---'' @ [LF])
      else bindp (print_chain (kv_heap s) (hash_map s ! i) (out @ [CHR 0x09] @ dec i @ ''--''))
             (\<lambda>out. ret (out @ [LF])))"

fun print_rows :: "kv_state \<Rightarrow> nat \<Rightarrow> nat \<Rightarrow> string \<Rightarrow> string prog" where
  "print_rows s i 0 out = ret out"
| "print_rows s i (Suc k) out = bindp (print_bucket s i out) (\<lambda>out. print_rows s (Suc i) k out)"

definition print_table :: "kv_state \<Rightarrow> string prog" where
  "print_table s =
     bindp (print_rows s 0 TABLESIZE (''TABLE START'' @ [LF])) (\<lambda>out. ret (out @ ''TABLE END'' @ [LF]))"

section \<open>The hash function: bounds and what it depends on\<close>

lemma hash_string_bound: "unat (hash_string s) < TABLESIZE"
  by (simp add: hash_string_def TABLESIZE_def unat_mod)

lemma push_bit_5: "push_bit 5 (w :: 32 word) = 32 * w"
  by (simp add: push_bit_eq_mult)

lemma foldl_hash_linear:
  "foldl hash_step w s = 32 ^ length s * w + foldl hash_step 0 s"
proof (induction s rule: rev_induct)
  case Nil
  then show ?case by simp
next
  case (snoc c s)
  then show ?case by (simp add: hash_step_def push_bit_5 algebra_simps)
qed

lemma pow32_zero: "7 \<le> n \<Longrightarrow> (32 :: 32 word) ^ n = 0"
proof -
  assume "7 \<le> n"
  then obtain k where "n = 7 + k" by (metis le_add_diff_inverse)
  moreover have z: "(32 :: 32 word) ^ 7 = 0" by simp
  ultimately show ?thesis by (simp only: power_add z mult_zero_left)
qed

text \<open>
  Shifting by five bits seven times leaves nothing of a 32-bit value: only the last seven
  bytes of a key reach its hash.
\<close>

lemma hash_string_suffix:
  "7 \<le> length t \<Longrightarrow> hash_string (s @ t) = hash_string t"
  using foldl_hash_linear [of "foldl hash_step 5381 s" t] foldl_hash_linear [of 5381 t]
  by (simp add: hash_string_def pow32_zero)

section \<open>The table invariant\<close>

definition node_at :: "kv_state \<Rightarrow> addr \<Rightarrow> kv_node" where
  "node_at s a = the (kv_heap s a)"

definition bucket_of :: "kv_state \<Rightarrow> addr \<Rightarrow> nat" where
  "bucket_of s a = unat (hash_string (kv_key (node_at s a)))"

text \<open>
  \<open>kv_rep s as\<close>: the nodes in the table are those at \<open>as\<close>, newest first; the chain of each
  bucket is the sublist of the nodes that hash there.
\<close>

definition kv_rep :: "kv_state \<Rightarrow> addr list \<Rightarrow> bool" where
  "kv_rep s as \<longleftrightarrow> length (hash_map s) = TABLESIZE \<and>
     (\<forall>i < TABLESIZE. chain kv_next (kv_heap s) (hash_map s ! i)
        (filter (\<lambda>a. bucket_of s a = i) as) None)"

text \<open>What \<open>get_node\<close> accepts: a node of the same bucket whose key extends the given one.\<close>

definition matches :: "kv_state \<Rightarrow> string \<Rightarrow> addr \<Rightarrow> bool" where
  "matches s key a \<longleftrightarrow>
     hash_string (kv_key (node_at s a)) = hash_string key \<and>
     take (length key) (kv_key (node_at s a)) = key"

lemma kv_rep_init: "kv_rep kv_init []"
  by (simp add: kv_rep_def kv_init_def)

lemma kv_repD:
  "kv_rep s as \<Longrightarrow> i < TABLESIZE \<Longrightarrow>
   chain kv_next (kv_heap s) (hash_map s ! i) (filter (\<lambda>a. bucket_of s a = i) as) None"
  by (simp add: kv_rep_def)

lemma kv_rep_alloc: "kv_rep s as \<Longrightarrow> a \<in> set as \<Longrightarrow> \<exists>n. kv_heap s a = Some n"
proof -
  assume r: "kv_rep s as" and a: "a \<in> set as"
  have "bucket_of s a < TABLESIZE" by (simp add: bucket_of_def hash_string_bound)
  from chain_dom [OF kv_repD [OF r this], of a] a show ?thesis by auto
qed

lemma get_node_loop_None [simp]: "get_node_loop h key n None = ret None"
  by (subst get_node_loop.simps) simp

lemma get_node_loop_find:
  "chain kv_next h p as None \<Longrightarrow>
   get_node_loop h key n p = ret (find (\<lambda>a. strncmp (kv_key (the (h a))) key n = 0) as)"
proof (induction as arbitrary: p)
  case Nil
  then show ?case by (subst get_node_loop.simps) simp
next
  case (Cons a as)
  then show ?case
    by (subst get_node_loop.simps) (auto split: option.splits)
qed

lemma find_filter: "find P (filter Q xs) = find (\<lambda>x. Q x \<and> P x) xs"
  by (induction xs) auto

lemma hash_eq_iff: "unat (hash_string s) = unat (hash_string t) \<longleftrightarrow> hash_string s = hash_string t"
  by (simp add: word_unat_eq_iff)

lemma matches_alt:
  "matches s key = (\<lambda>a. bucket_of s a = unat (hash_string key) \<and>
     take (length key) (kv_key (the (kv_heap s a))) = key)"
  by (simp add: matches_def bucket_of_def node_at_def hash_eq_iff fun_eq_iff)

lemma get_node_rep:
  assumes "kv_rep s as"
  shows "get_node (Some key) s = ret (find (matches s key) as)"
proof -
  let ?i = "unat (hash_string key)"
  let ?P = "\<lambda>a. strncmp (kv_key (the (kv_heap s a))) key (length key) = 0"
  have i: "?i < TABLESIZE" by (rule hash_string_bound)
  have "get_node (Some key) s = get_node_loop (kv_heap s) key (length key) (hash_map s ! ?i)"
    by (simp add: get_node_def Let_def)
  also have "\<dots> = ret (find ?P (filter (\<lambda>a. bucket_of s a = ?i) as))"
    by (rule get_node_loop_find [OF kv_repD [OF assms i]])
  also have "\<dots> = ret (find (matches s key) as)"
    by (simp add: find_filter strncmp_prefix matches_alt)
  finally show ?thesis .
qed

text \<open>Inserting a node that is not in the table puts it in front.\<close>

lemma insert_node_rep:
  assumes r: "kv_rep s as" and n: "kv_heap s a = Some n" and new: "a \<notin> set as"
  shows "\<exists>s'. insert_node (Some a) s = ret (True, s') \<and> kv_rep s' (a # as) \<and>
     (\<forall>b. map_option (\<lambda>n. n\<lparr>kv_next := None\<rparr>) (kv_heap s' b) =
          map_option (\<lambda>n. n\<lparr>kv_next := None\<rparr>) (kv_heap s b)) \<and>
     nh_heap s' = nh_heap s \<and> head_hash s' = head_hash s \<and> tail_hash s' = tail_hash s"
proof -
  let ?i = "unat (hash_string (kv_key n))"
  let ?n = "n\<lparr>kv_next := hash_map s ! ?i\<rparr>"
  let ?s = "s\<lparr>kv_heap := (kv_heap s)(a \<mapsto> ?n), hash_map := (hash_map s)[?i := Some a]\<rparr>"
  have b: "bucket_of ?s = bucket_of s" using n by (auto simp: bucket_of_def node_at_def)
  have ba: "bucket_of s a = ?i" using n by (simp add: bucket_of_def node_at_def)
  have "chain kv_next (kv_heap ?s) (hash_map ?s ! j) (filter (\<lambda>x. bucket_of s x = j) (a # as)) None"
    if j: "j < TABLESIZE" for j
    using kv_repD [OF r j] r j new ba
    by (cases "j = ?i") (auto simp: chain_frame kv_rep_def)
  then have "kv_rep ?s (a # as)" using r by (simp add: kv_rep_def b)
  moreover have "insert_node (Some a) s = ret (True, ?s)"
    using n by (simp add: insert_node_def Let_def)
  ultimately show ?thesis using n by auto
qed

section \<open>Deleting\<close>

lemma delete_node_loop_found:
  "chain kv_next h p (us @ a # vs) None \<Longrightarrow>
   \<forall>u \<in> set us. strncmp key (kv_key (the (h u))) n \<noteq> 0 \<Longrightarrow>
   strncmp key (kv_key (the (h a))) n = 0 \<Longrightarrow>
   delete_node_loop h key n p prev = ret (Some a, if us = [] then prev else Some (last us))"
proof (induction us arbitrary: p prev)
  case Nil
  then show ?case by (subst delete_node_loop.simps) (auto split: option.splits)
next
  case (Cons u us)
  then show ?case by (subst delete_node_loop.simps) (auto split: option.splits)
qed

text \<open>Past the last node, the comparison dereferences the null pointer.\<close>

lemma delete_node_loop_missing:
  "chain kv_next h p as None \<Longrightarrow> \<forall>u \<in> set as. strncmp key (kv_key (the (h u))) n \<noteq> 0 \<Longrightarrow>
   delete_node_loop h key n p prev = stop_with Null_deref"
proof (induction as arbitrary: p prev)
  case Nil
  then show ?case by (subst delete_node_loop.simps) simp
next
  case (Cons u us)
  then show ?case by (subst delete_node_loop.simps) (auto split: option.splits)
qed

lemma strncmp_comm: "strncmp s t n = 0 \<longleftrightarrow> strncmp t s n = 0"
  by (auto simp: strncmp_0_iff)

lemma kv_rep_distinct:
  assumes "kv_rep s as"
  shows "distinct as"
proof (rule ccontr)
  assume "\<not> distinct as"
  then obtain xs y ys zs where as: "as = xs @ [y] @ ys @ [y] @ zs"
    using not_distinct_decomp by blast
  have "bucket_of s y < TABLESIZE" by (simp add: bucket_of_def hash_string_bound)
  from chain_distinct [OF kv_repD [OF assms this]] as show False by simp
qed

lemma filter_remove1: "filter P (remove1 a xs) = (if P a then remove1 a (filter P xs) else filter P xs)"
  by (induction xs) auto

text \<open>The other buckets do not contain a node of this one.\<close>

lemma other_bucket_frame:
  assumes r: "kv_rep s as" and j: "j < TABLESIZE" and a: "bucket_of s a \<noteq> j"
  shows "chain kv_next ((kv_heap s)(a := v)) (hash_map s ! j) (filter (\<lambda>x. bucket_of s x = j) as) None"
  using kv_repD [OF r j] a by (simp add: chain_frame)

lemma kv_rep_cong_keys:
  assumes "\<And>x. x \<in> set bs \<Longrightarrow> bucket_of t x = bucket_of s x" and "length (hash_map t) = TABLESIZE"
    and "\<And>i. i < TABLESIZE \<Longrightarrow>
      chain kv_next (kv_heap t) (hash_map t ! i) (filter (\<lambda>x. bucket_of s x = i) bs) None"
  shows "kv_rep t bs"
  using assms by (simp add: kv_rep_def cong: filter_cong)

text \<open>
  Deleting unlinks the node that a lookup of the key finds. A node that was the head of its
  chain stays allocated, any other is freed.
\<close>

lemma delete_node_run:
  assumes r: "kv_rep s as" and p: "kv_heap s p = Some n" and q: "head_hash s \<noteq> None"
    and f: "filter (\<lambda>x. bucket_of s x = i) as = us @ a # vs" and i: "i = unat (hash_string (kv_key n))"
    and a: "take (length (kv_key n)) (kv_key (node_at s a)) = kv_key n" "kv_heap s a = Some c"
    and us: "\<forall>u \<in> set us. take (length (kv_key n)) (kv_key (node_at s u)) \<noteq> kv_key n"
  shows "delete_node (Some p) s =
     (if us = [] then ret (True, s\<lparr>hash_map := (hash_map s)[i := kv_next c]\<rparr>)
      else ret (True, s\<lparr>kv_heap := (kv_heap s)(last us \<mapsto>
             (node_at s (last us))\<lparr>kv_next := kv_next c\<rparr>, a := None)\<rparr>))"
proof -
  have i': "i < TABLESIZE" by (simp add: i hash_string_bound)
  have ch: "chain kv_next (kv_heap s) (hash_map s ! i) (us @ a # vs) None"
    using kv_repD [OF r i'] by (simp add: f)
  then have "hash_map s ! i \<noteq> None" by (rule chain_not_None) simp
  moreover have "delete_node_loop (kv_heap s) (kv_key n) (length (kv_key n)) (hash_map s ! i) None =
      ret (Some a, if us = [] then None else Some (last us))"
    using delete_node_loop_found [OF ch] a(1) us
    by (simp add: strncmp_comm [of "kv_key n"] strncmp_prefix node_at_def)
  moreover have "kv_heap s (last us) = Some (node_at s (last us)) \<and> last us \<noteq> a" if "us \<noteq> []"
  proof -
    have "last us \<in> set us" using that by simp
    moreover from this have "last us \<noteq> a" using chain_distinct [OF ch] by auto
    moreover from chain_dom [OF ch, of "last us"] that
    have "\<exists>k. kv_heap s (last us) = Some k" by simp
    ultimately show ?thesis by (auto simp: node_at_def)
  qed
  ultimately show ?thesis
    using p q a(2)
    by (cases "us = []") (auto simp: delete_node_def Let_def simp flip: i)
qed

lemma delete_node_rep:
  assumes r: "kv_rep s as" and p: "kv_heap s p = Some n" and q: "head_hash s \<noteq> None"
    and fd: "find (matches s (kv_key n)) as = Some a"
  shows "\<exists>s'. delete_node (Some p) s = ret (True, s') \<and> kv_rep s' (remove1 a as)"
proof -
  let ?i = "unat (hash_string (kv_key n))"
  have d: "distinct as" using r by (rule kv_rep_distinct)
  from fd have "find (\<lambda>x. take (length (kv_key n)) (kv_key (node_at s x)) = kv_key n)
      (filter (\<lambda>x. bucket_of s x = ?i) as) = Some a"
    by (simp add: find_filter matches_alt node_at_def)
  then obtain us vs where f: "filter (\<lambda>x. bucket_of s x = ?i) as = us @ a # vs"
    and a: "take (length (kv_key n)) (kv_key (node_at s a)) = kv_key n"
    and us: "\<forall>u \<in> set us. take (length (kv_key n)) (kv_key (node_at s u)) \<noteq> kv_key n"
    by (rule find_SomeE)
  have ch: "chain kv_next (kv_heap s) (hash_map s ! ?i) (us @ a # vs) None"
    using kv_repD [OF r hash_string_bound [of "kv_key n"]] by (simp add: f)
  from chain_dom [OF ch, of a] obtain c where c: "kv_heap s a = Some c" by auto
  have in_i: "bucket_of s x = ?i" if "x \<in> set (us @ a # vs)" for x
  proof -
    from that have "x \<in> set (filter (\<lambda>x. bucket_of s x = ?i) as)" by (simp only: f)
    then show ?thesis by simp
  qed
  have dist: "distinct (us @ a # vs)" using ch by (rule chain_distinct)
  have rem: "filter (\<lambda>x. bucket_of s x = j) (remove1 a as) =
      (if j = ?i then us @ vs else filter (\<lambda>x. bucket_of s x = j) as)" for j
    using dist in_i [of a] f by (auto simp: filter_remove1 remove1_append)
  note run = delete_node_run [OF r p q f refl a c us]
  show ?thesis
  proof (cases "us = []")
    case True
    let ?t = "s\<lparr>hash_map := (hash_map s)[?i := kv_next c]\<rparr>"
    have "kv_rep ?t (remove1 a as)"
    proof (rule kv_rep_cong_keys)
      fix j :: nat
      assume j: "j < TABLESIZE"
      show "chain kv_next (kv_heap ?t) (hash_map ?t ! j)
          (filter (\<lambda>x. bucket_of s x = j) (remove1 a as)) None"
        unfolding rem using True ch c kv_repD [OF r j] r j by (auto simp: kv_rep_def)
    qed (use r in \<open>simp_all add: kv_rep_def bucket_of_def node_at_def\<close>)
    with run True show ?thesis by simp
  next
    case False
    then obtain ws b where ws: "us = ws @ [b]" by (metis append_butlast_last_id)
    let ?m = "(node_at s b)\<lparr>kv_next := kv_next c\<rparr>"
    let ?t = "s\<lparr>kv_heap := (kv_heap s)(b \<mapsto> ?m, a := None)\<rparr>"
    have "kv_rep ?t (remove1 a as)"
    proof (rule kv_rep_cong_keys)
      fix x assume "x \<in> set (remove1 a as)"
      then have "x \<noteq> a" using d by auto
      then show "bucket_of ?t x = bucket_of s x" by (simp add: bucket_of_def node_at_def)
    next
      fix j :: nat
      assume j: "j < TABLESIZE"
      have "chain kv_next (kv_heap ?t) (hash_map s ! ?i) (ws @ b # vs) None"
        using chain_unlink [of kv_next "kv_heap s" "hash_map s ! ?i" ws b a vs c ?m] ch c ws
        by simp
      moreover have "chain kv_next (kv_heap ?t) (hash_map s ! j) (filter (\<lambda>x. bucket_of s x = j) as) None"
        if "j \<noteq> ?i"
        using kv_repD [OF r j] in_i [of a] in_i [of b] ws that by (simp add: chain_frame)
      ultimately show "chain kv_next (kv_heap ?t) (hash_map ?t ! j)
          (filter (\<lambda>x. bucket_of s x = j) (remove1 a as)) None"
        unfolding rem using ws by auto
    qed (use r in \<open>simp add: kv_rep_def\<close>)
    with run ws show ?thesis by simp
  qed
qed

text \<open>A key that is not found in a chain with nodes makes the code dereference \<open>NULL\<close>.\<close>

lemma delete_node_absent:
  assumes r: "kv_rep s as" and p: "kv_heap s p = Some n" and q: "head_hash s \<noteq> None"
    and fd: "find (matches s (kv_key n)) as = None"
    and ne: "\<exists>a \<in> set as. bucket_of s a = unat (hash_string (kv_key n))"
  shows "delete_node (Some p) s = stop_with Null_deref"
proof -
  let ?i = "unat (hash_string (kv_key n))"
  let ?f = "filter (\<lambda>x. bucket_of s x = ?i) as"
  have ch: "chain kv_next (kv_heap s) (hash_map s ! ?i) ?f None"
    by (rule kv_repD [OF r hash_string_bound])
  from ne have "?f \<noteq> []" by (auto simp: filter_empty_conv)
  with ch have "hash_map s ! ?i \<noteq> None" by (rule chain_not_None)
  moreover have "\<forall>u \<in> set ?f. strncmp (kv_key n) (kv_key (the (kv_heap s u))) (length (kv_key n)) \<noteq> 0"
    using fd by (auto simp: find_None_iff matches_alt strncmp_comm [of "kv_key n"] strncmp_prefix)
  ultimately show ?thesis
    using delete_node_loop_missing [OF ch] p q by (simp add: delete_node_def Let_def)
qed

section \<open>A small table\<close>

text \<open>
  The state the examples below evaluate: two nodes in the table, both in bucket 2, the newer one
  in front; two nodes that were created and not inserted; one request in the queue.
\<close>

definition sample_node :: "string \<Rightarrow> ptr \<Rightarrow> kv_node" where
  "sample_node k nxt = \<lparr>kv_key = k, kv_value = CRLF @ ''v'', value_size = 3, user_size = 7, oper_flg = 1,
     kv_next = nxt\<rparr>"

definition sample_table :: kv_state where
  "sample_table = \<lparr>kv_heap = [11 \<mapsto> sample_node ''A'' None, 12 \<mapsto> sample_node ''AD'' (Some 11),
       13 \<mapsto> sample_node ''B'' None, 14 \<mapsto> sample_node ''F'' None],
     hash_map = [None, None, Some 12, None, None],
     nh_heap = [9 \<mapsto> \<lparr>nh_data = Some 13, sock_fd = 8, nh_next = None\<rparr>],
     head_hash = Some 9, tail_hash = Some 9\<rparr>"

lemma sample_hashes:
  "hash_string ''A'' = 2" "hash_string ''AD'' = 2" "hash_string ''B'' = 3" "hash_string ''F'' = 2"
  by code_simp+

lemma sample_keys:
  "kv_key (node_at sample_table 11) = ''A''" "kv_key (node_at sample_table 12) = ''AD''"
  "kv_key (node_at sample_table 13) = ''B''" "kv_key (node_at sample_table 14) = ''F''"
  "kv_heap sample_table 11 = Some (sample_node ''A'' None)"
  "kv_heap sample_table 12 = Some (sample_node ''AD'' (Some 11))"
  "kv_heap sample_table 13 = Some (sample_node ''B'' None)"
  "kv_heap sample_table 14 = Some (sample_node ''F'' None)"
  "head_hash sample_table = Some 9"
  by (simp_all add: sample_table_def sample_node_def node_at_def)

lemma sample_table_rep: "kv_rep sample_table [12, 11]"
proof -
  have "chain kv_next (kv_heap sample_table) (hash_map sample_table ! i)
      (filter (\<lambda>a. bucket_of sample_table a = i) [12, 11]) None" if "i < TABLESIZE" for i
  proof -
    from that have "i = 0 \<or> i = 1 \<or> i = 2 \<or> i = 3 \<or> i = 4" by (auto simp: TABLESIZE_def)
    then show ?thesis
      by (elim disjE) (simp_all add: bucket_of_def sample_keys sample_hashes, simp_all add: sample_table_def sample_node_def)
  qed
  then show ?thesis by (simp add: kv_rep_def) (simp add: sample_table_def TABLESIZE_def)
qed

section \<open>Properties\<close>

text \<open>
  C22: the hash is a bucket number, and it depends on no more than the last seven bytes of the key:
  the shift by five bits drops everything before them.
\<close>

theorem hash_last_seven:
  "unat (hash_string (s @ t)) < TABLESIZE \<and> (7 \<le> length t \<longrightarrow> hash_string (s @ t) = hash_string t)"
  by (simp add: hash_string_bound hash_string_suffix)

theorem hash_last_seven_witness:
  "hash_string (''some-other-'' @ ''account'') = hash_string ''account''"
  using hash_last_seven [of "''some-other-''" "''account''"] by simp

text \<open>
  C17: a lookup returns the newest node of the table whose key hashes to the bucket and hash of the
  given key and starts with it, and \<open>NULL\<close> when there is none. The walk along the bucket's chain
  never leaves allocated memory and always ends.
\<close>

theorem lookup_newest:
  assumes "kv_rep s as"
  shows "get_node (Some key) s = ret (find (\<lambda>a.
    hash_string (kv_key (node_at s a)) = hash_string key \<and>
    take (length key) (kv_key (node_at s a)) = key) as)"
  using get_node_rep [OF assms] by (simp add: matches_def [abs_def])

theorem lookup_newest_witness:
  "get_node (Some ''AD'') sample_table = ret (Some 12) \<and> get_node (Some ''F'') sample_table = ret None"
  using lookup_newest [OF sample_table_rep, of "''AD''"] lookup_newest [OF sample_table_rep, of "''F''"]
  by (simp add: sample_keys sample_hashes)

text \<open>
  A lookup confuses a key with a longer one: when the newest node's key extends \<open>k\<close> and has the
  same hash, a get of \<open>k\<close> returns it.
\<close>

lemma lookup_takes_longer_key:
  assumes "kv_rep s (a # as)" and "kv_key (node_at s a) = k @ t" and "hash_string (k @ t) = hash_string k"
  shows "get_node (Some k) s = ret (Some a)"
  using get_node_rep [OF assms(1), of k] assms(2,3) by (simp add: matches_def)



end
