(* ===== verification/HashQueue.thy ===== *)
theory HashQueue
  imports HashMap FifoPool
begin

text \<open>
  The queue of parsed requests in \<open>memcache_lite/hashmap.c\<close> (\<open>enqueue_hash\<close>,
  \<open>dequeue_hash\<close>) and the pool of \<open>hash_threads\<close> in \<open>server_mt.c\<close> that serves it. Unlike
  \<open>threadqueue.c\<close>, the dequeued node is returned and never freed.
\<close>

section \<open>The queue\<close>

text \<open>When \<open>malloc\<close> fails the request is dropped with a message.\<close>

definition enqueue_hash :: "ptr \<Rightarrow> ptr \<Rightarrow> int \<Rightarrow> kv_state \<Rightarrow> kv_state prog" where
  "enqueue_hash m tmp fd s =
     (case m of
        None \<Rightarrow> ret s
      | Some a \<Rightarrow>
          let h = (nh_heap s)(a \<mapsto> \<lparr>nh_data = tmp, sock_fd = fd, nh_next = None\<rparr>)
          in if tail_hash s = None
             then ret (s\<lparr>nh_heap := h, head_hash := m, tail_hash := m\<rparr>)
             else bindp (modify h (tail_hash s) (nh_next_update (\<lambda>_. m)))
                    (\<lambda>h. ret (s\<lparr>nh_heap := h, tail_hash := m\<rparr>)))"

definition dequeue_hash :: "kv_state \<Rightarrow> (ptr \<times> kv_state) prog" where
  "dequeue_hash s =
     (if head_hash s = None then ret (None, s)
      else let tmp = head_hash s in
        bindp (load (nh_heap s) tmp) (\<lambda>n.
        let hd' = nh_next n; tl' = (if hd' = None then None else tail_hash s)
        in ret (tmp, s\<lparr>head_hash := hd', tail_hash := tl'\<rparr>)))"

section \<open>It is a FIFO queue\<close>

text \<open>A request: the key-value node and the client's descriptor.\<close>

type_synonym request = "ptr \<times> int"

definition request_of :: "node_hash \<Rightarrow> request" where
  "request_of n = (nh_data n, sock_fd n)"

definition hq_rep :: "kv_state \<Rightarrow> request list \<Rightarrow> bool" where
  "hq_rep s rs \<longleftrightarrow>
     (\<exists>as. lqueue nh_next (nh_heap s) (head_hash s) (tail_hash s) as \<and>
           field_vals request_of (nh_heap s) as = map Some rs)"

definition hq_fresh :: "addr \<Rightarrow> kv_state \<Rightarrow> bool" where
  "hq_fresh a s \<longleftrightarrow> nh_heap s a = None"

text \<open>The queue operations leave the table alone.\<close>

definition same_table :: "kv_state \<Rightarrow> kv_state \<Rightarrow> bool" where
  "same_table s t \<longleftrightarrow> kv_heap t = kv_heap s \<and> hash_map t = hash_map s"

lemma hq_rep_init: "hq_rep kv_init []"
  by (simp add: hq_rep_def kv_init_def)

lemma enqueue_hash_rep:
  assumes "hq_rep s rs" and "hq_fresh a s"
  shows "\<exists>s'. enqueue_hash (Some a) p fd s = ret s' \<and> hq_rep s' (rs @ [(p, fd)]) \<and> same_table s s'"
proof -
  let ?n = "\<lparr>nh_data = p, sock_fd = fd, nh_next = None\<rparr>"
  let ?h = "(nh_heap s)(a \<mapsto> ?n)"
  from assms(1) obtain as where
    q: "lqueue nh_next (nh_heap s) (head_hash s) (tail_hash s) as" and
    v: "field_vals request_of (nh_heap s) as = map Some rs"
    by (auto simp: hq_rep_def)
  from assms(2) have new: "a \<notin> set as" by (intro fresh_not_in_lqueue [OF q]) (simp add: hq_fresh_def)
  show ?thesis
  proof (cases "tail_hash s")
    case None
    with q have "as = []" by (simp add: lqueue_def split: if_splits)
    with None v show ?thesis
      by (auto simp: enqueue_hash_def hq_rep_def lqueue_def request_of_def same_table_def
          intro!: exI [of _ "[a]"])
  next
    case (Some t)
    with lqueue_tail [of nh_next "nh_heap s" "head_hash s" t as a "Some ?n"] q new
    obtain n where n: "?h t = Some n" "t \<noteq> a" "t \<in> set as" by auto
    let ?h' = "?h(t \<mapsto> n\<lparr>nh_next := Some a\<rparr>)"
    have "lqueue nh_next ?h' (head_hash s) (Some a) (as @ [a])"
      using q new n Some by (intro lqueue_link) auto
    moreover have "field_vals request_of ?h' (as @ [a]) = map Some (rs @ [(p, fd)])"
      by (subst field_vals_same)
        (use v n new in \<open>simp_all add: field_vals_frame request_of_def del: fun_upd_apply\<close>,
         simp add: request_of_def)
    ultimately have "hq_rep (s\<lparr>nh_heap := ?h', tail_hash := Some a\<rparr>) (rs @ [(p, fd)])"
      unfolding hq_rep_def by (intro exI [of _ "as @ [a]"]) simp
    then show ?thesis using Some n by (simp add: enqueue_hash_def Let_def same_table_def)
  qed
qed

lemma dequeue_hash_nil: "hq_rep s [] \<Longrightarrow> dequeue_hash s = ret (None, s)"
  by (auto simp: hq_rep_def dequeue_hash_def)

lemma dequeue_hash_cons:
  assumes "hq_rep s (r # rs)"
  shows "\<exists>a n s'. dequeue_hash s = ret (Some a, s') \<and> nh_heap s' a = Some n \<and> request_of n = r \<and>
           hq_rep s' rs \<and> same_table s s'"
proof -
  from assms obtain a as where
    q: "lqueue nh_next (nh_heap s) (head_hash s) (tail_hash s) (a # as)" and
    v: "map_option request_of (nh_heap s a) = Some r"
       "field_vals request_of (nh_heap s) as = map Some rs"
    by (auto simp: hq_rep_def field_vals_eq_Cons_conv)
  from q obtain n where
    n: "head_hash s = Some a" "nh_heap s a = Some n" "chain nh_next (nh_heap s) (nh_next n) as None"
       "a \<notin> set as" "nh_next n = None \<longleftrightarrow> as = []" "tail_hash s = Some (last (a # as))"
    by (rule lqueue_ConsE)
  let ?s = "s\<lparr>head_hash := nh_next n,
              tail_hash := (if nh_next n = None then None else tail_hash s)\<rparr>"
  have "dequeue_hash s = ret (Some a, ?s)"
    using n(1,2) by (simp add: dequeue_hash_def Let_def)
  moreover have "hq_rep ?s rs"
    unfolding hq_rep_def using lqueue_tl [OF q n(2), of "Some n"] v(2) n(2)
    by (intro exI [of _ as]) (simp add: fun_upd_idem)
  ultimately show ?thesis using n(2) v(1) by (simp add: same_table_def)
qed

section \<open>The request workers\<close>

text \<open>
  The operations as the worker loop uses them: the handler reads the request out of the node
  it was given.
\<close>

definition hash_enq :: "addr \<Rightarrow> request \<Rightarrow> kv_state \<Rightarrow> kv_state prog" where
  "hash_enq a r = enqueue_hash (Some a) (fst r) (snd r)"

definition hash_deq :: "kv_state \<Rightarrow> (request option \<times> kv_state) prog" where
  "hash_deq s =
     bindp (dequeue_hash s) (\<lambda>(p, s'). case p of
       None \<Rightarrow> ret (None, s')
     | Some a \<Rightarrow> bindp (load (nh_heap s') (Some a)) (\<lambda>n. ret (Some (request_of n), s')))"

lemma hash_enq_rep:
  "hq_rep s rs \<Longrightarrow> hq_fresh a s \<Longrightarrow> \<exists>s'. hash_enq a r s = ret s' \<and> hq_rep s' (rs @ [r])"
  using enqueue_hash_rep [of s rs a "fst r" "snd r"] by (auto simp: hash_enq_def)

lemma hash_deq_nil: "hq_rep s [] \<Longrightarrow> hash_deq s = ret (None, s)"
  by (simp add: hash_deq_def dequeue_hash_nil)

lemma hash_deq_cons:
  assumes "hq_rep s (r # rs)"
  shows "\<exists>s'. hash_deq s = ret (Some r, s') \<and> hq_rep s' rs"
proof -
  from dequeue_hash_cons [OF assms] obtain a n s' where
    "dequeue_hash s = ret (Some a, s')" "nh_heap s' a = Some n" "request_of n = r" "hq_rep s' rs"
    by blast
  then show ?thesis by (simp add: hash_deq_def)
qed

interpretation hq: fifo hash_enq hash_deq hq_fresh hq_rep kv_init
  by unfold_locales (rule hq_rep_init hash_enq_rep hash_deq_nil hash_deq_cons; assumption?)+

definition HASHPOOL :: nat where
  "HASHPOOL = 20"

definition hash_threads_enter ::
  "kv_state \<Rightarrow> request worker \<Rightarrow> (kv_state \<times> request worker) prog" where
  "hash_threads_enter = worker_enter hash_deq"

definition hash_pool :: "(kv_state, request) pool \<Rightarrow> bool" where
  "hash_pool = pool_reach hash_enq hash_deq hq_fresh kv_init HASHPOOL"

section \<open>Properties\<close>

text \<open>
  C9: in every state the request workers and the connection workers that feed them can reach, the
  requests handled are the oldest ones enqueued, in their order, none of them lost or handled
  twice, although the queue node is never freed; and while requests wait not all workers are
  asleep.
\<close>

theorem hash_pool_serves:
  assumes "hash_pool s"
  shows "\<exists>rs. hq_rep (queue s) rs \<and> produced s = taken s @ rs \<and>
    (rs \<noteq> [] \<longrightarrow> (\<exists>w \<in> set (workers s). w \<noteq> Waiting))"
  using hq.pool_serves assms by (simp add: hash_pool_def HASHPOOL_def)

theorem hash_pool_serves_witness:
  "\<exists>s rs. hash_pool s \<and> taken s = [(Some 5, 8)] \<and> hq_rep (queue s) rs \<and> [(Some 5, 8)] = taken s @ rs"
proof -
  obtain s where s: "hash_pool s" "produced s = [(Some 5, 8)]" "taken s = [(Some 5, 8)]"
    using hq.pool_serves_one [of 2 HASHPOOL "(Some 5, 8)"]
    by (auto simp: hash_pool_def hq_fresh_def kv_init_def HASHPOOL_def)
  from hash_pool_serves [OF s(1)] s show ?thesis by fastforce
qed

end
