(* ===== verification/KvStore.thy ===== *)
theory KvStore
  imports HashMap
begin

text \<open>
  The interface between the table of \<open>hashmap.c\<close> and the code that uses it
  (\<open>handle_hash\<close> and the recovery in \<open>server_mt.c\<close>): what a lookup finds after nodes were
  put in. The table satisfies it with a notion of acceptance that is wider than equality
  of keys, and the lemmas of the interface say what that means for a client.
\<close>

section \<open>The interface\<close>

text \<open>
  \<open>rep s as\<close>: the nodes in the store, newest first. \<open>key_of s a\<close>: the key of a node.
  \<open>accepts k k'\<close>: a lookup of \<open>k\<close> takes a node with key \<open>k'\<close>. \<open>node s a\<close>: there is a node at
  \<open>a\<close>.
\<close>

locale kv_store =
  fixes get :: "string \<Rightarrow> 's \<Rightarrow> ptr prog"
    and put :: "ptr \<Rightarrow> 's \<Rightarrow> (bool \<times> 's) prog"
    and rep :: "'s \<Rightarrow> addr list \<Rightarrow> bool"
    and key_of :: "'s \<Rightarrow> addr \<Rightarrow> string"
    and accepts :: "string \<Rightarrow> string \<Rightarrow> bool"
    and node :: "'s \<Rightarrow> addr \<Rightarrow> bool"
  assumes get_rep: "rep s as \<Longrightarrow> get k s = ret (find (\<lambda>a. accepts k (key_of s a)) as)"
    and put_rep: "rep s as \<Longrightarrow> node s a \<Longrightarrow> a \<notin> set as \<Longrightarrow>
      \<exists>s'. put (Some a) s = ret (True, s') \<and> rep s' (a # as) \<and> key_of s' = key_of s \<and> node s' = node s"
    and accepts_refl: "accepts k k"
begin

lemma get_put_same:
  assumes "rep s as" and "node s a" and "a \<notin> set as" and "key_of s a = k"
  shows "\<exists>s'. put (Some a) s = ret (True, s') \<and> get k s' = ret (Some a)"
proof -
  from put_rep [OF assms(1-3)] obtain s' where
    s': "put (Some a) s = ret (True, s')" "rep s' (a # as)" "key_of s' = key_of s" by blast
  with get_rep [OF s'(2), of k] show ?thesis using assms(4) accepts_refl by auto
qed

text \<open>A lookup that does not accept the new node finds what it found before.\<close>

lemma get_put_other:
  assumes "rep s as" and "node s a" and "a \<notin> set as" and "\<not> accepts k (key_of s a)"
  shows "\<exists>s'. put (Some a) s = ret (True, s') \<and> get k s' = get k s"
proof -
  from put_rep [OF assms(1-3)] obtain s' where
    s': "put (Some a) s = ret (True, s')" "rep s' (a # as)" "key_of s' = key_of s" by blast
  with get_rep [OF s'(2), of k] get_rep [OF assms(1), of k] show ?thesis using assms(4) by auto
qed

text \<open>What a lookup finds is accepted, and nothing newer is.\<close>

lemma get_newest:
  assumes "rep s as" and "get k s = ret (Some a)"
  shows "\<exists>us vs. as = us @ a # vs \<and> accepts k (key_of s a) \<and> (\<forall>u \<in> set us. \<not> accepts k (key_of s u))"
proof -
  from assms have "find (\<lambda>a. accepts k (key_of s a)) as = Some a" by (simp add: get_rep)
  then show ?thesis by (rule find_SomeE) blast
qed

lemma get_none:
  assumes "rep s as"
  shows "get k s = ret None \<longleftrightarrow> (\<forall>a \<in> set as. \<not> accepts k (key_of s a))"
  using get_rep [OF assms, of k] by (auto simp: find_None_iff)

end

section \<open>The hash table provides it\<close>

definition table_get :: "string \<Rightarrow> kv_state \<Rightarrow> ptr prog" where
  "table_get k = get_node (Some k)"

definition table_accepts :: "string \<Rightarrow> string \<Rightarrow> bool" where
  "table_accepts k k' \<longleftrightarrow> hash_string k' = hash_string k \<and> take (length k) k' = k"

definition table_key :: "kv_state \<Rightarrow> addr \<Rightarrow> string" where
  "table_key s a = kv_key (node_at s a)"

definition table_node :: "kv_state \<Rightarrow> addr \<Rightarrow> bool" where
  "table_node s a \<longleftrightarrow> kv_heap s a \<noteq> None"

lemma table_put_rep:
  assumes "kv_rep s as" and "table_node s a" and "a \<notin> set as"
  shows "\<exists>s'. insert_node (Some a) s = ret (True, s') \<and> kv_rep s' (a # as) \<and>
    table_key s' = table_key s \<and> table_node s' = table_node s"
proof -
  from assms(2) obtain n where n: "kv_heap s a = Some n" by (auto simp: table_node_def)
  from insert_node_rep [OF assms(1) n assms(3)] obtain s' where
    s': "insert_node (Some a) s = ret (True, s')" "kv_rep s' (a # as)" and
    h: "\<And>b. map_option (\<lambda>n. n\<lparr>kv_next := None\<rparr>) (kv_heap s' b) =
             map_option (\<lambda>n. n\<lparr>kv_next := None\<rparr>) (kv_heap s b)" by blast
  have "table_key s' b = table_key s b \<and> table_node s' b = table_node s b" for b
    using h [of b] by (cases "kv_heap s b"; cases "kv_heap s' b")
      (auto simp: table_key_def table_node_def node_at_def dest: arg_cong [of _ _ kv_key])
  with s' show ?thesis by (auto simp: fun_eq_iff)
qed

interpretation kvs: kv_store table_get insert_node kv_rep table_key table_accepts table_node
proof
  fix s as k
  assume "kv_rep s as"
  then show "table_get k s = ret (find (\<lambda>a. table_accepts k (table_key s a)) as)"
    by (simp add: table_get_def get_node_rep matches_def [abs_def] table_accepts_def table_key_def)
qed (auto simp: table_accepts_def intro: table_put_rep)

section \<open>Properties\<close>



end
