(* ===== verification/KvServer.thy ===== *)
theory KvServer
  imports Sockets HashQueue
begin

text \<open>
  \<open>memcache_lite/server_mt.c\<close>, the connection side: parsing the headers of a request, reading
  the value, and \<open>handle_client\<close>, which turns what a connection delivers into a node on the
  request queue or an error message. Sleeping and printing are left out.
\<close>

section \<open>Headers\<close>

definition HEADERSIZE :: nat where "HEADERSIZE = 40"
definition KEYSIZE :: nat where "KEYSIZE = 12"

definition HEADER_DELIM :: string where
  "HEADER_DELIM = CRLF"

text \<open>The key, or \<open>NULL\<close> when the header has none.\<close>

definition parse_header_get :: "string \<Rightarrow> string option" where
  "parse_header_get recv_header = map_option fst (strtok HEADER_DELIM (cstr recv_header))"

text \<open>
  \<open>errno\<close> is \<open>ERANGE\<close> or not; \<open>strtoul\<close> sets it on overflow and nothing clears it, so the
  value it has when the function is called matters. The result is the status with
  \<open>actual_size\<close>, \<open>value_size\<close> and \<open>key_size\<close>, and \<open>errno\<close> afterwards.
\<close>

type_synonym errno = bool

definition parse_header_set ::
  "string \<Rightarrow> errno \<Rightarrow> (size_t \<times> size_t \<times> size_t) option \<times> errno" where
  "parse_header_set recv_header errno =
     (case strtok HEADER_DELIM (cstr recv_header) of
        None \<Rightarrow> (None, errno)
      | Some (token, saveptr) \<Rightarrow>
          let (vsize, e) = strtoul token; errno = (errno \<or> e) in
          if errno then (None, errno)
          else (case strtok HEADER_DELIM saveptr of
            None \<Rightarrow> (None, errno)
          | Some (token, saveptr) \<Rightarrow>
              let (actual_size, e) = strtoul token; errno = (errno \<or> e) in
              (case strtok HEADER_DELIM saveptr of
                None \<Rightarrow> (None, errno)
              | Some (token, saveptr) \<Rightarrow>
                  let (key_size, e) = strtoul token; errno = (errno \<or> e) in
                  if errno then (None, errno)
                  else (Some (actual_size, vsize, key_size), errno))))"

section \<open>The value\<close>

text \<open>
  The loop of \<open>parse_body\<close>: \<open>None\<close> in the result is a failed \<open>recv\<close>. It asks for two bytes
  more than it waits for.
\<close>

partial_function (option) parse_body_loop ::
  "int \<Rightarrow> int \<Rightarrow> string \<Rightarrow> arrival list \<Rightarrow> ((int \<times> string) option \<times> arrival list) prog" where
  "parse_body_loop actual_size recv_bytes buffer as =
     (if recv_bytes < actual_size
      then bindp (recv as (nat (actual_size + 2 - recv_bytes))) (\<lambda>(r, as).
        case r of
          None \<Rightarrow> ret (None, as)
        | Some bs \<Rightarrow>
            bindp (write_at buffer (nat recv_bytes) bs) (\<lambda>buffer.
            parse_body_loop actual_size (recv_bytes + int (length bs)) buffer as))
      else ret (Some (recv_bytes, buffer), as))"

text \<open>\<open>parse_body\<close>: the filled buffer, or \<open>None\<close> for -1, and what it did to the socket.\<close>

definition parse_body ::
  "int \<Rightarrow> string \<Rightarrow> int \<Rightarrow> arrival list \<Rightarrow> (string option \<times> action list \<times> arrival list) prog" where
  "parse_body client_fd buffer actual_size as =
     (if 2 ^ 31 \<le> actual_size + 2 then stop_with Overflow
      else bindp (parse_body_loop actual_size 0 buffer as) (\<lambda>(r, as).
        case r of
          None \<Rightarrow> ret (None, [], as)
        | Some (recv_bytes, buffer) \<Rightarrow>
            if recv_bytes \<noteq> actual_size + 2 then ret (None, [Close client_fd], as)
            else bindp (write_at buffer (nat recv_bytes) [NUL]) (\<lambda>buffer.
              ret (Some buffer, [], as))))"

section \<open>A connection\<close>

text \<open>
  What the allocator answers while a connection is handled (\<open>key_mem\<close> and \<open>buf_mem\<close>: what the
  new block holds, \<open>None\<close> on failure; the two node addresses), and \<open>slack\<close>, the bytes behind
  \<open>op_header\<close> in the stack frame that belong to no other object.
\<close>

record client_env =
  key_mem :: "nat \<Rightarrow> string option"
  buf_mem :: "nat \<Rightarrow> string option"
  node_mem :: ptr
  hash_mem :: ptr
  slack :: string

text \<open>A block from \<open>malloc (n)\<close> whose first \<open>k\<close> bytes \<open>memset\<close> clears.\<close>

definition cleared :: "(nat \<Rightarrow> string option) \<Rightarrow> nat \<Rightarrow> nat \<Rightarrow> string option prog" where
  "cleared mem n k =
     (case mem n of
        None \<Rightarrow> ret None
      | Some junk \<Rightarrow> bindp (write_at (take n junk) 0 (replicate k NUL)) (\<lambda>b. ret (Some b)))"

definition ack_n :: string where
  "ack_n = ''Error'' @ CRLF"

text \<open>
  The set branch up to the call of \<open>create_node\<close>: \<open>Inl\<close> the actions of an early return, or
  \<open>Inr\<close> the key, the value buffer and \<open>value_size\<close>. \<open>actual_size\<close> is passed to
  \<open>parse_body\<close> as an \<open>int\<close>, its low 32 bits.
\<close>

definition client_set_body ::
  "client_env \<Rightarrow> int \<Rightarrow> size_t \<Rightarrow> size_t \<Rightarrow> size_t \<Rightarrow> arrival list \<Rightarrow>
   (action list + string \<times> string \<times> size_t) prog" where
  "client_set_body env client_fd actual_size vsize key_size as =
     bindp (cleared (key_mem env) (unat (key_size + 2)) (unat key_size)) (\<lambda>key. case key of
       None \<Rightarrow> ret (Inl [Send client_fd ack_n])
     | Some key \<Rightarrow>
         let buffer_size = unat (actual_size + 8) in
         bindp (cleared (buf_mem env) buffer_size buffer_size) (\<lambda>buffer. case buffer of
           None \<Rightarrow> ret (Inl [Send client_fd ack_n])
         | Some buffer \<Rightarrow>
             bindp (recv as (unat key_size)) (\<lambda>(r, as). case r of
               None \<Rightarrow> ret (Inl [Send client_fd ack_n])
             | Some bs \<Rightarrow>
                 bindp (write_at key 0 bs) (\<lambda>key.
                 bindp (write_at key (length bs) [NUL]) (\<lambda>key.
                 bindp (parse_body client_fd buffer (sint (ucast actual_size :: 32 word)) as)
                   (\<lambda>(body, acts, as). case body of
                     None \<Rightarrow> ret (Inl (acts @ [Send client_fd ack_n]))
                   | Some buffer \<Rightarrow> ret (Inr (key, buffer, vsize))))))))"

text \<open>Both branches: the early return, or the key (\<open>NULL\<close> possible), buffer, size and flag.\<close>

definition client_set_branch ::
  "client_env \<Rightarrow> int \<Rightarrow> errno \<Rightarrow> arrival list \<Rightarrow>
   ((action list + string option \<times> string \<times> size_t \<times> 8 word) \<times> errno) prog" where
  "client_set_branch env client_fd errno as =
     bindp (recv as 28) (\<lambda>(r, as). case r of
       None \<Rightarrow> ret (Inl [Send client_fd ack_n], errno)
     | Some recv_header \<Rightarrow>
         (case parse_header_set recv_header errno of
            (None, errno) \<Rightarrow> ret (Inl [Send client_fd ack_n], errno)
          | (Some (actual_size, vsize, key_size), errno) \<Rightarrow>
              bindp (client_set_body env client_fd actual_size vsize key_size as) (\<lambda>res.
              case res of
                Inl acts \<Rightarrow> ret (Inl acts, errno)
              | Inr (key, buffer, vsize) \<Rightarrow>
                  ret (Inr (Some key, buffer, vsize, 1), errno))))"

definition client_get_branch ::
  "client_env \<Rightarrow> int \<Rightarrow> errno \<Rightarrow> arrival list \<Rightarrow>
   ((action list + string option \<times> string \<times> size_t \<times> 8 word) \<times> errno) prog" where
  "client_get_branch env client_fd errno as =
     bindp (recv as KEYSIZE) (\<lambda>(r, as). case r of
       None \<Rightarrow> ret (Inl [Send client_fd ack_n], errno)
     | Some recv_header \<Rightarrow>
         (case buf_mem env 1 of
            None \<Rightarrow> stop_with Null_deref
          | Some _ \<Rightarrow> ret (Inr (parse_header_get recv_header, [NUL], 0, 0), errno)))"

text \<open>
  \<open>handle_client\<close>: the new state, what was sent and closed, and \<open>errno\<close>. The terminator
  behind a header of five bytes is written behind \<open>op_header\<close>.
\<close>

definition handle_client ::
  "client_env \<Rightarrow> int \<Rightarrow> errno \<Rightarrow> arrival list \<Rightarrow> kv_state \<Rightarrow> (kv_state \<times> action list \<times> errno) prog" where
  "handle_client env client_fd errno as s =
     bindp (recv as 5) (\<lambda>(r, as). case r of
       None \<Rightarrow> ret (s, [Send client_fd ack_n], errno)
     | Some bs \<Rightarrow>
         if bs = [] then ret (s, [Send client_fd ack_n], errno)
         else bindp (write_at (take 5 (bs @ replicate 5 NUL) @ slack env) (length bs) [NUL])
           (\<lambda>op_header.
             bindp (if strcmp (cstr op_header) (''set'' @ CRLF) = 0
                    then client_set_branch env client_fd errno as
                    else client_get_branch env client_fd errno as) (\<lambda>(res, errno).
             case res of
               Inl acts \<Rightarrow> ret (s, acts, errno)
             | Inr (key, buffer, vsize, gs_flg) \<Rightarrow>
                 bindp (create_node (node_mem env) key vsize buffer gs_flg s) (\<lambda>(node, s).
                 bindp (enqueue_hash (hash_mem env) node client_fd s) (\<lambda>s.
                 ret (s, [], errno))))))"

section \<open>Reading the client's header\<close>

lemma pad_right_no_delim:
  "\<forall>c \<in> set (pad_right w (dec n)). c \<notin> set HEADER_DELIM \<and> c \<noteq> NUL"
  using dec_digits [of n] by (auto simp: pad_right_def HEADER_DELIM_def CRLF_def)

lemma pad_right_nonempty [simp]: "pad_right w (dec n) \<noteq> []"
  by (simp add: pad_right_def)

lemma strtok_field [cstr_simps]:
  "strtok HEADER_DELIM (pad_right w (dec n) @ CR # rest) = Some (pad_right w (dec n), rest)"
  using pad_right_no_delim
  by (intro strtok_token) (auto simp: HEADER_DELIM_def CRLF_def)

lemma strtok_LF [cstr_simps]: "strtok HEADER_DELIM (LF # s) = strtok HEADER_DELIM s"
  by (simp add: strtok_skip HEADER_DELIM_def CRLF_def)

lemma strtoul_field [cstr_simps]:
  "n < 2 ^ 64 \<Longrightarrow> strtoul (pad_right w (dec n)) = (of_nat n, False)"
  using scan_int_pad_right [of "[]" w n] by (simp add: strtoul_def ulong_of_nat)

text \<open>Three numbers in fields padded with blanks, each ended by CR LF.\<close>

definition set_header :: "nat \<Rightarrow> nat \<Rightarrow> nat \<Rightarrow> string" where
  "set_header v a k =
     pad_right 8 (dec v) @ CRLF @ pad_right 8 (dec a) @ CRLF @ pad_right 6 (dec k) @ CRLF"

lemma set_header_no_NUL: "NUL \<notin> set (set_header v a k)"
  using pad_right_no_delim by (auto simp: set_header_def CRLF_def)

lemma length_set_header:
  "v < 10 ^ 8 \<Longrightarrow> a < 10 ^ 8 \<Longrightarrow> k < 10 ^ 6 \<Longrightarrow> length (set_header v a k) = 28"
  using length_dec_le [of 8 v] length_dec_le [of 8 a] length_dec_le [of 6 k]
  by (simp add: set_header_def CRLF_def)

lemma parse_set_header:
  "v < 2 ^ 64 \<Longrightarrow> a < 2 ^ 64 \<Longrightarrow> k < 2 ^ 64 \<Longrightarrow>
   parse_header_set (set_header v a k) False = (Some (of_nat a, of_nat v, of_nat k), False)"
  using set_header_no_NUL [of v a k]
  by (simp add: parse_header_set_def cstr_idem)
    (simp add: set_header_def CRLF_def cstr_simps)

text \<open>Once \<open>errno\<close> is \<open>ERANGE\<close>, no header is accepted.\<close>

lemma parse_header_set_stale: "fst (parse_header_set h True) = None \<and> snd (parse_header_set h True)"
  by (auto simp: parse_header_set_def Let_def split: option.splits prod.splits)

lemma parse_header_set_errno: "snd (parse_header_set h e) \<Longrightarrow> fst (parse_header_set h e) = None \<or> e"
  by (auto simp: parse_header_set_def Let_def split: option.splits prod.splits if_splits)

section \<open>Reading the value\<close>

lemma parse_body_loop_done:
  "actual_size \<le> recv_bytes \<Longrightarrow>
   parse_body_loop actual_size recv_bytes buffer as = ret (Some (recv_bytes, buffer), as)"
  by (subst parse_body_loop.simps) simp

text \<open>
  While the connection stays open and delivers enough, the loop ends with a prefix of the
  stream in the buffer: all \<open>actual_size + 2\<close> bytes, or one or two bytes fewer.
\<close>

lemma parse_body_loop_open:
  assumes "open_stream as" and "0 \<le> rb" and "rb \<le> actual + 2"
    and "nat (actual + 2 - rb) \<le> length (stream as)"
    and "nat (actual + 2) \<le> length buffer"
  shows "\<exists>n buffer' as'. parse_body_loop actual rb buffer as = ret (Some (n, buffer'), as') \<and>
     rb \<le> n \<and> actual \<le> n \<and> n \<le> actual + 2 \<and> open_stream as' \<and>
     stream as' = drop (nat (n - rb)) (stream as) \<and> length buffer' = length buffer \<and>
     take (nat n) buffer' = take (nat rb) buffer @ take (nat (n - rb)) (stream as)"
  using assms
proof (induction "nat (actual + 2 - rb)" arbitrary: rb buffer as rule: less_induct)
  case less
  show ?case
  proof (cases "rb < actual")
    case False
    with less.prems show ?thesis by (simp add: parse_body_loop_done)
  next
    case True
    let ?m = "nat (actual + 2 - rb)"
    have "0 < ?m" "stream as \<noteq> []" using True less.prems by auto
    with less.prems(1) obtain bs as1 where r: "recv as ?m = ret (Some bs, as1)"
      using recv_open_ready by blast
    with recv_open [OF less.prems(1) r] \<open>0 < ?m\<close> have
      bs: "open_stream as1" "stream as = bs @ stream as1" "length bs \<le> ?m" "bs \<noteq> []" by auto
    let ?rb = "rb + int (length bs)"
    let ?buf = "take (nat rb) buffer @ bs @ drop (nat rb + length bs) buffer"
    have w: "write_at buffer (nat rb) bs = ret ?buf"
      using less.prems bs(3) by (intro write_at_ok) linarith
    have lb: "length ?buf = length buffer" using less.prems bs(3) by auto
    have tk: "take (nat ?rb) ?buf = take (nat rb) buffer @ bs"
      using less.prems bs(3) by (simp add: nat_add_distrib)
    have step: "parse_body_loop actual rb buffer as = parse_body_loop actual ?rb ?buf as1"
      by (subst parse_body_loop.simps) (use True r w in simp)
    have "\<exists>n buffer' as'. parse_body_loop actual ?rb ?buf as1 = ret (Some (n, buffer'), as') \<and>
       ?rb \<le> n \<and> actual \<le> n \<and> n \<le> actual + 2 \<and> open_stream as' \<and>
       stream as' = drop (nat (n - ?rb)) (stream as1) \<and> length buffer' = length ?buf \<and>
       take (nat n) buffer' = take (nat ?rb) ?buf @ take (nat (n - ?rb)) (stream as1)"
    proof (rule less.hyps)
      show "nat (actual + 2 - ?rb) < ?m" using bs(4) \<open>0 < ?m\<close> by (cases bs) auto
      show "nat (actual + 2 - ?rb) \<le> length (stream as1)" using less.prems(4) bs(2) by simp
    qed (use less.prems bs lb in auto)
    then obtain n buffer' as' where res:
      "parse_body_loop actual ?rb ?buf as1 = ret (Some (n, buffer'), as')"
      "?rb \<le> n" "actual \<le> n" "n \<le> actual + 2" "open_stream as'"
      "stream as' = drop (nat (n - ?rb)) (stream as1)" "length buffer' = length ?buf"
      "take (nat n) buffer' = take (nat ?rb) ?buf @ take (nat (n - ?rb)) (stream as1)" by blast
    have e: "nat (n - rb) = length bs + nat (n - ?rb)" using res(2) less.prems(2) by linarith
    show ?thesis
      using res lb tk bs(2) unfolding step by (intro exI [of _ n] exI [of _ buffer'] exI [of _ as'])
        (simp add: e)
  qed
qed

text \<open>A peer that closes before the value is complete leaves the loop running for ever.\<close>

lemma parse_body_loop_eof:
  assumes "rb < actual" and "nat rb \<le> length buffer"
  shows "parse_body_loop actual rb buffer (Eof # as) = None"
proof (rule ccontr)
  assume "parse_body_loop actual rb buffer (Eof # as) \<noteq> None"
  then obtain y where y: "parse_body_loop actual rb buffer (Eof # as) = Some y" by auto
  have "\<not> (\<exists>bs. Eof # as = Eof # bs \<and> rb < actual \<and> nat rb \<le> length buffer)"
  proof (rule parse_body_loop.raw_induct [where P = "\<lambda>a r b as y.
        \<not> (\<exists>bs. as = Eof # bs \<and> r < a \<and> nat r \<le> length b)", OF _ y])
    fix f :: "int \<Rightarrow> int \<Rightarrow> string \<Rightarrow> arrival list \<Rightarrow> ((int \<times> string) option \<times> arrival list) prog"
      and a r b as' y'
    assume IH: "\<And>a r b as y. f a r b as = Some y \<Longrightarrow>
        \<not> (\<exists>bs. as = Eof # bs \<and> r < a \<and> nat r \<le> length b)"
      and eq: "(if r < a then bindp (recv as' (nat (a + 2 - r))) (\<lambda>(q, as).
          case q of None \<Rightarrow> ret (None, as)
          | Some bs \<Rightarrow> bindp (write_at b (nat r) bs) (\<lambda>b. f a (r + int (length bs)) b as))
        else ret (Some (r, b), as')) = Some y'"
    show "\<not> (\<exists>bs. as' = Eof # bs \<and> r < a \<and> nat r \<le> length b)"
    proof
      assume "\<exists>bs. as' = Eof # bs \<and> r < a \<and> nat r \<le> length b"
      with eq have "f a r b as' = Some y'" by (auto simp: write_at_def)
      from IH [OF this] \<open>\<exists>bs. as' = Eof # bs \<and> r < a \<and> nat r \<le> length b\<close> show False by blast
    qed
  qed
  with assms show False by blast
qed

section \<open>A whole request\<close>

text \<open>The allocator gives every block that is asked for.\<close>

definition gives :: "(nat \<Rightarrow> string option) \<Rightarrow> bool" where
  "gives mem \<longleftrightarrow> (\<forall>n. \<exists>junk. mem n = Some junk \<and> length junk = n)"

lemma cleared_gives:
  "gives mem \<Longrightarrow> k \<le> n \<Longrightarrow>
   \<exists>junk. cleared mem n k = ret (Some (replicate k NUL @ junk)) \<and> length junk = n - k"
proof -
  assume "gives mem" "k \<le> n"
  then obtain j where "mem n = Some j" "length j = n" unfolding gives_def by metis
  with \<open>k \<le> n\<close> show ?thesis
    by (intro exI [of _ "drop k j"]) (simp add: cleared_def write_at_def)
qed

lemma parse_body_whole:
  assumes "length cs = nat (actual + 2)" and "0 < actual" and "actual + 2 < 2 ^ 31"
    and "length cs < length buffer"
  shows "parse_body fd buffer actual (Bytes (cs @ rest) # as) =
    ret (Some (cs @ NUL # drop (Suc (length cs)) buffer), [], rest_of rest as)"
proof -
  have l: "int (length cs) = actual + 2" using assms(1,2) by simp
  have "recv (Bytes (cs @ rest) # as) (nat (actual + 2)) = ret (Some cs, rest_of rest as)"
    using assms by (intro recv_prefix) auto
  moreover have "write_at buffer 0 cs = ret (cs @ drop (length cs) buffer)"
    using assms(4) by (simp add: write_at_def)
  ultimately have "parse_body_loop actual 0 buffer (Bytes (cs @ rest) # as) =
      ret (Some (actual + 2, cs @ drop (length cs) buffer), rest_of rest as)"
    using assms(2) l by (subst parse_body_loop.simps) (simp add: parse_body_loop_done)
  moreover have "write_at (cs @ drop (length cs) buffer) (nat (actual + 2)) [NUL] =
      ret (cs @ NUL # drop (Suc (length cs)) buffer)"
    using assms(1,4) by (simp add: write_at_def)
  ultimately show ?thesis using assms(3) by (simp add: parse_body_def)
qed

text \<open>An empty value is refused: the loop does not run, and two bytes are expected.\<close>

lemma parse_body_empty: "parse_body fd buffer 0 as = ret (None, [Close fd], as)"
  by (simp add: parse_body_def parse_body_loop_done)

lemma int_of_size: "n < 2 ^ 31 \<Longrightarrow> sint (ucast (of_nat n :: size_t) :: 32 word) = int n"
proof -
  assume n: "n < 2 ^ 31"
  then have "(ucast (of_nat n :: size_t) :: 32 word) = of_nat n"
    by (simp add: word_unat_eq_iff unsigned_ucast_eq unsigned_of_nat take_bit_nat_eq_self)
  with n show ?thesis by (simp add: signed_of_nat signed_take_bit_int_eq_self)
qed

lemma client_set_body_ok:
  assumes mem: "gives (key_mem env)" "gives (buf_mem env)" and val: "val \<noteq> []" "length val < 10 ^ 8"
    and key: "length key < 10 ^ 6"
  shows "\<exists>j1 j2. client_set_body env fd (of_nat (length val)) vs (of_nat (length key))
      [Bytes (key @ CRLF @ val @ rest)] =
    ret (Inr (key @ NUL # j1, CRLF @ val @ NUL # j2, vs))"
proof -
  let ?k = "length key" and ?v = "length val"
  have u: "unat (of_nat ?k :: size_t) = ?k" "unat (of_nat ?k + 2 :: size_t) = ?k + 2"
    "unat (of_nat ?v + 8 :: size_t) = ?v + 8"
    using key val by (simp_all add: unat_word_ariths unat_of_nat)
  from cleared_gives [OF mem(1), of ?k "?k + 2"] obtain j where
    j: "cleared (key_mem env) (?k + 2) ?k = ret (Some (replicate ?k NUL @ j))" "length j = 2" by auto
  from cleared_gives [OF mem(2), of "?v + 8" "?v + 8"] have
    b: "cleared (buf_mem env) (?v + 8) (?v + 8) = ret (Some (replicate (?v + 8) NUL))" by auto
  have r: "recv [Bytes (key @ CRLF @ val @ rest)] ?k = ret (Some key, [Bytes (CRLF @ val @ rest)])"
    by (rule recv_split) (simp_all add: CRLF_def)
  have w: "write_at (replicate ?k NUL @ j) 0 key = ret (key @ j)"
    "write_at (key @ j) ?k [NUL] = ret (key @ NUL # drop 1 j)"
    using j(2) by (simp_all add: write_at_def)
  have "parse_body fd (replicate (?v + 8) NUL) (int ?v) [Bytes ((CRLF @ val) @ rest)] =
      ret (Some ((CRLF @ val) @ NUL # drop (Suc (length (CRLF @ val))) (replicate (?v + 8) NUL)),
        [], rest_of rest [])"
    using val by (intro parse_body_whole) (auto simp: CRLF_def)
  with u j b r w int_of_size [of ?v] val show ?thesis
    by (simp add: client_set_body_def Let_def CRLF_def)
qed

lemma client_set_branch_ok:
  assumes mem: "gives (key_mem env)" "gives (buf_mem env)" and val: "val \<noteq> []" "length val < 10 ^ 8"
    and key: "length key < 10 ^ 6" and v: "v < 10 ^ 8"
  shows "\<exists>j1 j2. client_set_branch env fd False
      [Bytes (set_header v (length val) (length key) @ key @ CRLF @ val @ rest)] =
    ret (Inr (Some (key @ NUL # j1), CRLF @ val @ NUL # j2, of_nat v, 1), False)"
proof -
  have "recv [Bytes (set_header v (length val) (length key) @ key @ CRLF @ val @ rest)] 28 =
      ret (Some (set_header v (length val) (length key)), [Bytes (key @ CRLF @ val @ rest)])"
    using length_set_header [of v "length val" "length key"] v val key
    by (intro recv_split) (auto simp: CRLF_def)
  with parse_set_header [of v "length val" "length key"] v val key
    client_set_body_ok [OF mem val key, of fd "of_nat v" rest]
  show ?thesis by (auto simp: client_set_branch_def)
qed

lemma op_header_read:
  assumes "length op = 5" and "NUL \<notin> set op" and "slack env \<noteq> []"
  obtains h where "write_at (take 5 (op @ replicate 5 NUL) @ slack env) (length op) [NUL] = ret h"
    "cstr h = op"
proof -
  from assms(3) obtain c cs where "slack env = c # cs" by (cases "slack env") auto
  with assms that [of "op @ NUL # cs"] show thesis by (simp add: write_at_def cstr_append)
qed

text \<open>What happens to the request once the branch has produced its key and value.\<close>

lemma request_enqueued:
  assumes q: "hq_rep s rs" and a: "hq_fresh b s"
  shows "\<exists>s'. bindp (create_node (Some a) (Some k) vs buf flg s) (\<lambda>(node, s).
      bindp (enqueue_hash (Some b) node fd s) (\<lambda>s. ret (s, [], errno))) = ret (s', [], errno) \<and>
     hq_rep s' (rs @ [(Some a, fd)]) \<and> hash_map s' = hash_map s \<and>
     kv_heap s' = (kv_heap s)(a \<mapsto> \<lparr>kv_key = cstr k, kv_value = cstr buf,
       value_size = of_nat (length (cstr buf)), user_size = vs, oper_flg = flg, kv_next = None\<rparr>)"
proof -
  let ?n = "\<lparr>kv_key = cstr k, kv_value = cstr buf, value_size = of_nat (length (cstr buf)),
    user_size = vs, oper_flg = flg, kv_next = None\<rparr>"
  let ?s = "s\<lparr>kv_heap := (kv_heap s)(a \<mapsto> ?n)\<rparr>"
  have "hq_rep ?s rs" "hq_fresh b ?s" using q a by (simp_all add: hq_rep_def hq_fresh_def)
  from enqueue_hash_rep [OF this, of "Some a" fd] show ?thesis
    by (auto simp: create_node_def same_table_def)
qed

lemma handle_client_set:
  assumes mem: "gives (key_mem env)" "gives (buf_mem env)" "slack env \<noteq> []"
    "node_mem env = Some a" "hash_mem env = Some b" "hq_fresh b s"
    and val: "val \<noteq> []" "length val < 10 ^ 8" "NUL \<notin> set val"
    and key: "length key < 10 ^ 6" "NUL \<notin> set key" and v: "v < 10 ^ 8" and q: "hq_rep s rs"
  shows "\<exists>s'. handle_client env fd False [Bytes (''set'' @ CRLF @
        set_header v (length val) (length key) @ key @ CRLF @ val @ rest)] s = ret (s', [], False) \<and>
     hq_rep s' (rs @ [(Some a, fd)]) \<and> hash_map s' = hash_map s \<and>
     kv_heap s' = (kv_heap s)(a \<mapsto> \<lparr>kv_key = key, kv_value = CRLF @ val,
       value_size = of_nat (length val + 2), user_size = of_nat v, oper_flg = 1, kv_next = None\<rparr>)"
proof -
  let ?m = "set_header v (length val) (length key) @ key @ CRLF @ val @ rest"
  have "recv [Bytes ((''set'' @ CRLF) @ ?m)] 5 = ret (Some (''set'' @ CRLF), [Bytes ?m])"
    by (rule recv_split) (simp_all add: CRLF_def)
  moreover obtain h where "write_at (take 5 ((''set'' @ CRLF) @ replicate 5 NUL) @ slack env)
      (length (''set'' @ CRLF)) [NUL] = ret h" "cstr h = ''set'' @ CRLF"
    by (rule op_header_read [of "''set'' @ CRLF" env]) (use mem in \<open>simp_all add: CRLF_def\<close>)
  moreover obtain j1 j2 where "client_set_branch env fd False [Bytes ?m] =
      ret (Inr (Some (key @ NUL # j1), CRLF @ val @ NUL # j2, of_nat v, 1), False)"
    using client_set_branch_ok [OF mem(1,2) val(1,2) key(1) v] by blast
  moreover have "cstr ((CRLF @ val) @ NUL # j2) = CRLF @ val"
    by (rule cstr_append) (use val in \<open>simp add: CRLF_def\<close>)
  ultimately show ?thesis
    using request_enqueued [OF q mem(6), of a "key @ NUL # j1" "of_nat v" "CRLF @ val @ NUL # j2" 1 fd False]
      mem(4,5) key(2)
    by (simp add: handle_client_def strcmp_0_iff cstr_append) (simp add: CRLF_def)
qed

lemma handle_client_get:
  assumes mem: "gives (buf_mem env)" "slack env \<noteq> []" "node_mem env = Some a" "hash_mem env = Some b"
    "hq_fresh b s" and key: "key \<noteq> []" "length key \<le> 10" "NUL \<notin> set key" "CR \<notin> set key" "LF \<notin> set key"
    and rest: "length key + 2 + length rest \<le> 12" and q: "hq_rep s rs"
  shows "\<exists>s'. handle_client env fd errno [Bytes (''get'' @ CRLF @ key @ CRLF @ rest)] s =
       ret (s', [], errno) \<and>
     hq_rep s' (rs @ [(Some a, fd)]) \<and> hash_map s' = hash_map s \<and>
     kv_heap s' = (kv_heap s)(a \<mapsto> \<lparr>kv_key = key, kv_value = [],
       value_size = 0, user_size = 0, oper_flg = 0, kv_next = None\<rparr>)"
proof -
  let ?m = "key @ CRLF @ rest"
  have "recv [Bytes ((''get'' @ CRLF) @ ?m)] 5 = ret (Some (''get'' @ CRLF), [Bytes ?m])"
    by (rule recv_split) (simp_all add: CRLF_def)
  moreover obtain h where "write_at (take 5 ((''get'' @ CRLF) @ replicate 5 NUL) @ slack env)
      (length (''get'' @ CRLF)) [NUL] = ret h" "cstr h = ''get'' @ CRLF"
    by (rule op_header_read [of "''get'' @ CRLF" env]) (use mem in \<open>simp_all add: CRLF_def\<close>)
  moreover have "recv [Bytes ?m] KEYSIZE = ret (Some ?m, [])"
    using rest by (simp add: KEYSIZE_def CRLF_def)
  moreover have "parse_header_get ?m = Some key"
  proof -
    have "cstr ?m = key @ CRLF @ cstr rest"
      using cstr_no_NUL [of "key @ CRLF" rest] key(3) by (simp add: CRLF_def)
    then show ?thesis
      using strtok_token [of key HEADER_DELIM CR "LF # cstr rest"] key
      by (auto simp: parse_header_get_def HEADER_DELIM_def CRLF_def)
  qed
  moreover obtain j where "buf_mem env 1 = Some j" using mem(1) by (auto simp: gives_def)
  ultimately show ?thesis
    using request_enqueued [OF q mem(5), of a key 0 "[NUL]" 0 fd errno] mem(3,4) key(3)
    by (simp add: handle_client_def client_get_branch_def strcmp_0_iff cstr_idem)
      (simp add: CRLF_def cstr_def)
qed

section \<open>Properties\<close>

text \<open>An environment in which every allocation succeeds, for the examples.\<close>

definition sample_env :: client_env where
  "sample_env = \<lparr>key_mem = \<lambda>n. Some (replicate n (CHR ''x'')), buf_mem = \<lambda>n. Some (replicate n (CHR ''x'')),
     node_mem = Some 21, hash_mem = Some 22, slack = [CHR ''x'']\<rparr>"

lemma sample_env_gives:
  "gives (key_mem sample_env)" "gives (buf_mem sample_env)" "slack sample_env \<noteq> []"
  "node_mem sample_env = Some 21" "hash_mem sample_env = Some 22"
  by (simp_all add: sample_env_def gives_def)



text \<open>
  C27: when the client closes the connection before the whole value has arrived, \<open>parse_body\<close> never
  returns: \<open>recv\<close> answers 0 for ever and the loop does not look at it. The worker is lost.
\<close>

theorem body_of_closed_connection_loops:
  assumes "length bs < nat actual" and "actual + 2 < 2 ^ 31" and "nat actual < length buffer"
  shows "parse_body fd buffer actual (Bytes bs # Eof # as) = None"
proof -
  have "parse_body_loop actual 0 buffer (Bytes bs # Eof # as) = None"
  proof (cases "bs = []")
    case True
    have "parse_body_loop actual 0 buffer (Bytes [] # Eof # as) = parse_body_loop actual 0 buffer (Eof # as)"
      using assms by (subst (1 2) parse_body_loop.simps) simp
    then show ?thesis using True assms parse_body_loop_eof [of 0 actual buffer as] by simp
  next
    case False
    have "0 < actual" "length bs \<le> nat (actual + 2)" "length bs \<le> length buffer"
      using assms by linarith+
    then have "parse_body_loop actual 0 buffer (Bytes bs # Eof # as) =
        parse_body_loop actual (int (length bs)) (bs @ drop (length bs) buffer) (Eof # as)"
      using False by (subst parse_body_loop.simps) (simp add: write_at_def)
    then show ?thesis using assms by (simp add: parse_body_loop_eof)
  qed
  then show ?thesis using assms(2) by (simp add: parse_body_def)
qed

theorem body_of_closed_connection_loops_witness:
  "parse_body 8 (replicate 13 NUL) 5 [Bytes ''abc'', Eof] = None"
  using body_of_closed_connection_loops [of "''abc''" 5 "replicate 13 NUL" 8 "[]"] by simp

text \<open>
  Once a thread's \<open>errno\<close> is \<open>ERANGE\<close>, it refuses every set request, however well formed: the
  code tests \<open>errno\<close> after \<open>strtoul\<close> and never clears it.
\<close>

lemma stale_errno_refuses:
  assumes "recv as 28 = ret (Some header, as')"
  shows "client_set_branch env fd True as = ret (Inl [Send fd ack_n], True)"
  using parse_header_set_stale [of header] assms
  by (cases "parse_header_set header True") (simp add: client_set_branch_def)

text \<open>
  Unless the compiler leaves a free byte behind \<open>op_header\<close>, every complete operation header
  makes \<open>handle_client\<close> write out of bounds: the terminator goes to index 5 of an array of five.
\<close>

lemma op_header_overrun:
  assumes "recv as 5 = ret (Some bs, as')" and "length bs = 5" and "slack env = []"
  shows "handle_client env fd errno as s = stop_with Out_of_bounds"
proof -
  have "write_at (take 5 (bs @ replicate 5 NUL) @ slack env) (length bs) [NUL] = stop_with Out_of_bounds"
    using assms(2,3) by (intro write_at_oob) simp
  moreover have "bs \<noteq> []" using assms(2) by auto
  ultimately show ?thesis using assms(1) by (simp add: handle_client_def)
qed

end
