(* ===== verification/KvHandler.thy ===== *)
theory KvHandler
  imports KvStore KvServer
begin

text \<open>
  \<open>memcache_lite/server_mt.c\<close>, the request side: \<open>handle_hash\<close>, which serves one request of the
  queue from the table, writes the log before a node is inserted and formats the
  reply.
\<close>

section \<open>The reply to a get\<close>

definition reply_size :: "kv_node \<Rightarrow> nat" where
  "reply_size n = length ''VALUE '' + length (kv_key n) + 1 + 10 + 1 + 2 + length (kv_value n) + 2
     + length (''END'' @ CRLF) + 1"

definition reply_head :: "kv_node \<Rightarrow> string" where
  "reply_head n = ''VALUE '' @ kv_key n @ '' '' @ dec (unat (user_size n))"

definition reply_tail :: string where
  "reply_tail = CRLF @ ''END'' @ CRLF"

text \<open>
  \<open>mem\<close> is the allocator (\<open>malloc\<close> is not checked). The second \<open>snprintf\<close> is given
  \<open>buffer_size - offset\<close>, a \<open>size_t\<close>; its return value moves the final terminator whether or
  not the text fitted.
\<close>

definition send_message_format :: "(nat \<Rightarrow> string option) \<Rightarrow> kv_node \<Rightarrow> string prog" where
  "send_message_format mem n =
     (case mem (reply_size n) of
        None \<Rightarrow> stop_with Null_deref
      | Some junk \<Rightarrow>
          let msg = take (reply_size n) junk;
              offset = length (reply_head n)
          in bindp (write_at msg 0 (snprintf_bytes (reply_size n + 1) (reply_head n))) (\<lambda>msg.
             bindp (slice (kv_value n @ [NUL]) 0 (unat (value_size n))) (\<lambda>bytes.
             bindp (write_at msg offset bytes) (\<lambda>msg.
             let offset = offset + unat (value_size n);
                 room = nat ((int (reply_size n) - int offset) mod 2 ^ 64)
             in bindp (write_at msg offset (snprintf_bytes room reply_tail)) (\<lambda>msg.
             write_at msg (offset + length reply_tail) [NUL])))))"

section \<open>Serving a request\<close>

record server =
  table :: kv_state
  log_text :: string

definition err_get :: string where
  "err_get = ''Error: key not found'' @ [LF]"

definition log_line :: "kv_node \<Rightarrow> string" where
  "log_line n = ''SET '' @ kv_key n @ '' '' @ dec (unat (user_size n)) @ '' ''
     @ dec (unat (value_size n)) @ '' '' @ kv_value n @ [LF]"

text \<open>\<open>block\<close> is the queue node the worker was given.\<close>

definition handle_hash ::
  "(nat \<Rightarrow> string option) \<Rightarrow> ptr \<Rightarrow> server \<Rightarrow> (server \<times> action list) prog" where
  "handle_hash mem block s =
     bindp (load (nh_heap (table s)) block) (\<lambda>b.
     bindp (load (kv_heap (table s)) (nh_data b)) (\<lambda>tmp.
     let client_fd = sock_fd b in
     if oper_flg tmp = 0 then
       bindp (get_node (Some (kv_key tmp)) (table s)) (\<lambda>tmp_node.
       if tmp_node = None then ret (s, [Send client_fd err_get, Close client_fd])
       else bindp (load (kv_heap (table s)) tmp_node) (\<lambda>n.
            bindp (send_message_format mem n) (\<lambda>client_msg.
            ret (s, [Send client_fd (cstr client_msg), Close client_fd]))))
     else if oper_flg tmp = 1 then
       let s = s\<lparr>log_text := log_text s @ log_line tmp\<rparr> in
       bindp (insert_node (nh_data b) (table s)) (\<lambda>(set_stat, t).
       let s = s\<lparr>table := t\<rparr> in
       if \<not> set_stat then ret (s, [Send client_fd (''NOT-STORED'' @ CRLF), Close client_fd])
       else ret (s, [Send client_fd (''STORED'' @ CRLF), Close client_fd]))
     else ret (s, [])))"

section \<open>The reply fits its buffer up to thirteen digits\<close>

text \<open>A node as \<open>create_node\<close> makes it: strings without terminators inside, sizes that agree.\<close>

definition node_ok :: "kv_node \<Rightarrow> bool" where
  "node_ok n \<longleftrightarrow> NUL \<notin> set (kv_key n) \<and> NUL \<notin> set (kv_value n) \<and>
     unat (value_size n) = length (kv_value n) \<and> reply_size n < 2 ^ 64"

definition reply_text :: "kv_node \<Rightarrow> string" where
  "reply_text n = reply_head n @ kv_value n @ reply_tail"

lemma reply_text_no_NUL: "node_ok n \<Longrightarrow> NUL \<notin> set (reply_text n)"
  using dec_digits [of "unat (user_size n)"]
  by (auto simp: node_ok_def reply_text_def reply_head_def reply_tail_def CRLF_def)

lemma reply_lengths:
  "reply_size n = 28 + length (kv_key n) + length (kv_value n)"
  "length (reply_head n) = 7 + length (kv_key n) + length (dec (unat (user_size n)))"
  "length reply_tail = 7"
  by (simp_all add: reply_size_def reply_head_def reply_tail_def CRLF_def)

text \<open>The writes up to the tail, for a buffer of the right size.\<close>

lemma reply_prefix:
  assumes j: "mem (reply_size n) = Some junk" "length junk = reply_size n"
    and n: "node_ok n" and d: "length (dec (unat (user_size n))) < 21"
  defines "t \<equiv> reply_head n @ kv_value n"
  shows "send_message_format mem n =
    (let rest = drop (length (kv_value n)) (NUL # drop (Suc (length (reply_head n))) junk) in
     bindp (write_at (wbuf t rest) (length t) (snprintf_bytes (reply_size n - length t) reply_tail))
       (\<lambda>msg. write_at msg (length t + length reply_tail) [NUL]))"
proof -
  note l = reply_lengths(1) [of n] reply_lengths(2) [of n] reply_lengths(3)
  have v: "unat (value_size n) = length (kv_value n)" "reply_size n < 2 ^ 64"
    using n by (simp_all add: node_ok_def)
  have lt: "length t = length (reply_head n) + length (kv_value n)" by (simp add: t_def)
  have room: "nat ((int (reply_size n) - int (length t)) mod 2 ^ 64) = reply_size n - length t"
    using l d v(2) lt by (subst mod_pos_pos_trivial) auto
  have w1: "write_at junk 0 (snprintf_bytes (reply_size n + 1) (reply_head n)) =
      ret (wbuf (reply_head n) (NUL # drop (Suc (length (reply_head n))) junk))"
    using l d j(2) by (simp add: snprintf_fits write_fresh wbuf_snoc)
  have w2: "write_at (wbuf (reply_head n) (NUL # drop (Suc (length (reply_head n))) junk))
      (length (reply_head n)) (kv_value n) =
      ret (wbuf t (drop (length (kv_value n)) (NUL # drop (Suc (length (reply_head n))) junk)))"
    unfolding t_def by (rule write_wbuf) (use l d j(2) in simp_all)
  show ?thesis
    using w1 w2 v(1) room lt j by (simp add: send_message_format_def Let_def)
qed

lemma send_message_format_fits:
  assumes mem: "gives mem" and n: "node_ok n" and d: "length (dec (unat (user_size n))) \<le> 13"
  shows "\<exists>msg. send_message_format mem n = ret msg \<and> cstr msg = reply_text n"
proof -
  obtain junk where j: "mem (reply_size n) = Some junk" "length junk = reply_size n"
    using mem unfolding gives_def by metis
  note l = reply_lengths(1) [of n] reply_lengths(2) [of n] reply_lengths(3)
  let ?t = "reply_head n @ kv_value n"
  define rest where "rest = drop (length (kv_value n)) (NUL # drop (Suc (length (reply_head n))) junk)"
  have lr: "length rest = reply_size n - length ?t" using j l d by (simp add: rest_def)
  have "snprintf_bytes (reply_size n - length ?t) reply_tail = reply_tail @ [NUL]"
    by (rule snprintf_fits) (use l d in simp)
  moreover have "write_at (wbuf ?t rest) (length ?t) (reply_tail @ [NUL]) =
      ret (wbuf (?t @ reply_tail) (NUL # drop (Suc (length reply_tail)) rest))"
    by (subst write_wbuf) (use lr l d in \<open>simp_all add: wbuf_def\<close>)
  moreover have "write_at (wbuf (?t @ reply_tail) (NUL # drop (Suc (length reply_tail)) rest))
      (length ?t + length reply_tail) [NUL] =
      ret (wbuf (?t @ reply_tail) (NUL # drop (Suc (length reply_tail)) rest))"
    by (subst write_wbuf) (simp_all add: wbuf_def)
  ultimately have "send_message_format mem n =
      ret (wbuf (?t @ reply_tail) (NUL # drop (Suc (length reply_tail)) rest))"
    using reply_prefix [of mem n junk] j n d by (simp add: Let_def rest_def [symmetric])
  then show ?thesis
    using cstr_append [OF reply_text_no_NUL [OF n]] by (simp add: wbuf_def reply_text_def)
qed

text \<open>
  From fourteen digits on the tail does not fit: it is cut, but the last terminator is
  written where the whole tail would have ended.
\<close>

lemma send_message_format_overflow:
  assumes mem: "gives mem" and n: "node_ok n"
    and d: "14 \<le> length (dec (unat (user_size n)))" "length (dec (unat (user_size n))) < 21"
  shows "send_message_format mem n = stop_with Out_of_bounds"
proof -
  obtain junk where j: "mem (reply_size n) = Some junk" "length junk = reply_size n"
    using mem unfolding gives_def by metis
  note l = reply_lengths(1) [of n] reply_lengths(2) [of n] reply_lengths(3)
  let ?t = "reply_head n @ kv_value n"
  define rest where "rest = drop (length (kv_value n)) (NUL # drop (Suc (length (reply_head n))) junk)"
  have lr: "length rest = reply_size n - length ?t" using j l d by (simp add: rest_def)
  let ?s = "snprintf_bytes (reply_size n - length ?t) reply_tail"
  have w: "write_at (wbuf ?t rest) (length ?t) ?s = ret (wbuf (?t @ ?s) (drop (length ?s) rest))"
    by (rule write_wbuf) (use lr length_snprintf in simp_all)
  have "length (wbuf (?t @ ?s) (drop (length ?s) rest)) = reply_size n"
    using lr length_snprintf [of "reply_size n - length ?t" reply_tail] l d
    unfolding length_wbuf length_append length_drop by linarith
  moreover have "reply_size n < length ?t + length reply_tail + 1" using l d by simp
  ultimately have o: "write_at (wbuf (?t @ ?s) (drop (length ?s) rest))
      (length ?t + length reply_tail) [NUL] = stop_with Out_of_bounds"
    by (intro write_at_oob) (simp only: list.size)
  show ?thesis
    unfolding reply_prefix [of mem n junk, OF j n d(2)] Let_def rest_def [symmetric] w bindp_simps o ..
qed

section \<open>The log and the table\<close>

lemma log_line_next: "log_line (n\<lparr>kv_next := p\<rparr>) = log_line n"
  by (simp add: log_line_def)

text \<open>
  \<open>wal log0 base s as\<close>: the table holds the nodes \<open>as\<close>, newest first, on top of the nodes \<open>base\<close>
  it had at the start, and the log has grown from \<open>log0\<close> by one line for each of the new nodes,
  oldest first.
\<close>

definition wal :: "string \<Rightarrow> addr list \<Rightarrow> server \<Rightarrow> addr list \<Rightarrow> bool" where
  "wal log0 base s as \<longleftrightarrow> kv_rep (table s) (as @ base) \<and>
     log_text s = log0 @ concat (map (\<lambda>a. log_line (node_at (table s) a)) (rev as))"

lemma handle_hash_set:
  assumes w: "wal log0 base s as" and b: "nh_heap (table s) p = Some b" "nh_data b = Some a"
    and n: "kv_heap (table s) a = Some n" "oper_flg n = 1" and new: "a \<notin> set (as @ base)"
  shows "\<exists>s'. handle_hash mem (Some p) s =
      ret (s', [Send (sock_fd b) (''STORED'' @ CRLF), Close (sock_fd b)]) \<and> wal log0 base s' (a # as) \<and>
      nh_heap (table s') = nh_heap (table s) \<and> head_hash (table s') = head_hash (table s) \<and>
      tail_hash (table s') = tail_hash (table s) \<and>
      (\<forall>c. map_option (\<lambda>n. n\<lparr>kv_next := None\<rparr>) (kv_heap (table s') c) =
           map_option (\<lambda>n. n\<lparr>kv_next := None\<rparr>) (kv_heap (table s) c))"
proof -
  have r: "kv_rep (table s) (as @ base)" using w by (simp add: wal_def)
  from insert_node_rep [OF r n(1) new] obtain t where
    t: "insert_node (Some a) (table s) = ret (True, t)" "kv_rep t (a # as @ base)" and
    h: "\<And>c. map_option (\<lambda>n. n\<lparr>kv_next := None\<rparr>) (kv_heap t c) =
             map_option (\<lambda>n. n\<lparr>kv_next := None\<rparr>) (kv_heap (table s) c)" and
    q: "nh_heap t = nh_heap (table s)" "head_hash t = head_hash (table s)" "tail_hash t = tail_hash (table s)"
    by blast
  have l: "log_line (node_at t c) = log_line (node_at (table s) c)" if "kv_heap (table s) c \<noteq> None" for c
    using that h [of c] log_line_next [of None "the (kv_heap t c)"]
      log_line_next [of None "the (kv_heap (table s) c)"] by (auto simp: node_at_def)
  have "concat (map (\<lambda>c. log_line (node_at t c)) (rev as)) =
      concat (map (\<lambda>c. log_line (node_at (table s) c)) (rev as))"
    by (intro arg_cong [of _ _ concat] map_cong [OF refl]) (use kv_rep_alloc [OF r] l in fastforce)
  moreover have "log_line (node_at t a) = log_line n" using l [of a] n(1) by (simp add: node_at_def)
  ultimately have "wal log0 base (s\<lparr>log_text := log_text s @ log_line n, table := t\<rparr>) (a # as)"
    using w t(2) by (simp add: wal_def)
  moreover have "handle_hash mem (Some p) s = ret (s\<lparr>log_text := log_text s @ log_line n, table := t\<rparr>,
      [Send (sock_fd b) (''STORED'' @ CRLF), Close (sock_fd b)])"
    using b n t(1) by (simp add: handle_hash_def Let_def)
  ultimately show ?thesis using h q by auto
qed

lemma handle_hash_get_missing:
  assumes r: "kv_rep (table s) as" and b: "nh_heap (table s) p = Some b" "nh_data b = Some a"
    and n: "kv_heap (table s) a = Some n" "oper_flg n = 0"
    and none: "\<forall>c \<in> set as. \<not> table_accepts (kv_key n) (table_key (table s) c)"
  shows "handle_hash mem (Some p) s = ret (s, [Send (sock_fd b) err_get, Close (sock_fd b)])"
  using kvs.get_none [OF r, of "kv_key n"] none b n
  by (simp add: handle_hash_def Let_def table_get_def)

lemma handle_hash_get_found:
  assumes r: "kv_rep (table s) as" and b: "nh_heap (table s) p = Some b" "nh_data b = Some a"
    and n: "kv_heap (table s) a = Some n" "oper_flg n = 0"
    and f: "find (\<lambda>c. table_accepts (kv_key n) (table_key (table s) c)) as = Some c"
    and m: "gives mem" "node_ok (node_at (table s) c)"
      "length (dec (unat (user_size (node_at (table s) c)))) \<le> 13"
  shows "handle_hash mem (Some p) s =
    ret (s, [Send (sock_fd b) (reply_text (node_at (table s) c)), Close (sock_fd b)])"
proof -
  have "c \<in> set as" using f by (auto elim: find_SomeE)
  then have "kv_heap (table s) c = Some (node_at (table s) c)"
    using kv_rep_alloc [OF r] by (fastforce simp: node_at_def)
  moreover obtain msg where "send_message_format mem (node_at (table s) c) = ret msg"
    "cstr msg = reply_text (node_at (table s) c)"
    using send_message_format_fits [OF m] by blast
  moreover have "get_node (Some (kv_key n)) (table s) = ret (Some c)"
    using kvs.get_rep [OF r, of "kv_key n"] f by (simp add: table_get_def)
  ultimately show ?thesis using b n by (simp add: handle_hash_def Let_def)
qed

section \<open>Properties\<close>

text \<open>The sample table with a request for its node 13 in the queue, and one for a get.\<close>

definition sample_server :: "ptr \<Rightarrow> 8 word \<Rightarrow> server" where
  "sample_server p flg = \<lparr>table = sample_table\<lparr>nh_heap := [9 \<mapsto> \<lparr>nh_data = p, sock_fd = 8, nh_next = None\<rparr>],
       kv_heap := (kv_heap sample_table)(15 \<mapsto> (sample_node ''AD'' None)\<lparr>oper_flg := flg\<rparr>)\<rparr>,
     log_text = concat (map (\<lambda>a. log_line (node_at sample_table a)) [11, 12])\<rparr>"

lemma sample_server_rep: "kv_rep (table (sample_server p flg)) [12, 11]"
proof (rule kv_rep_cong_keys)
  fix i assume "i < TABLESIZE"
  from kv_repD [OF sample_table_rep this]
  show "chain kv_next (kv_heap (table (sample_server p flg))) (hash_map (table (sample_server p flg)) ! i)
      (filter (\<lambda>x. bucket_of sample_table x = i) [12, 11]) None"
    by (simp add: sample_server_def chain_frame)
qed (use sample_table_rep in \<open>auto simp: kv_rep_def bucket_of_def node_at_def sample_server_def\<close>)

lemma sample_server_wal: "wal [] [] (sample_server p flg) [12, 11]"
  unfolding wal_def using sample_server_rep [of p flg]
  by (simp add: sample_server_def node_at_def)

lemma sample_server_nodes:
  "nh_heap (table (sample_server p flg)) 9 = Some \<lparr>nh_data = p, sock_fd = 8, nh_next = None\<rparr>"
  "kv_heap (table (sample_server p flg)) 13 = Some (sample_node ''B'' None)"
  "kv_heap (table (sample_server p flg)) 15 = Some ((sample_node ''AD'' None)\<lparr>oper_flg := flg\<rparr>)"
  "kv_heap (table (sample_server p flg)) 12 = Some (sample_node ''AD'' (Some 11))"
  "node_at (table (sample_server p flg)) 12 = sample_node ''AD'' (Some 11)"
  by (simp_all add: sample_server_def sample_keys node_at_def)

text \<open>
  C23: serving a set request appends the node's line to the log and puts the node in front of the
  table, and answers \<open>STORED\<close>. At every such step the log holds one line for each node the table
  has gained, in the order they were inserted.
\<close>

theorem set_logged_and_stored:
  assumes "wal log0 base s as" and "nh_heap (table s) p = Some b" "nh_data b = Some a"
    and "kv_heap (table s) a = Some n" "oper_flg n = 1" and "a \<notin> set (as @ base)"
  shows "\<exists>s'. handle_hash mem (Some p) s =
      ret (s', [Send (sock_fd b) (''STORED'' @ CRLF), Close (sock_fd b)]) \<and> wal log0 base s' (a # as) \<and>
      log_text s' = log_text s @ log_line n"
proof -
  from handle_hash_set [OF assms, of mem] obtain s' where
    s': "handle_hash mem (Some p) s =
        ret (s', [Send (sock_fd b) (''STORED'' @ CRLF), Close (sock_fd b)])" "wal log0 base s' (a # as)"
    by blast
  moreover from s'(1) assms have "log_text s' = log_text s @ log_line n"
    by (auto simp: handle_hash_def Let_def bindp_ret_conv split: prod.splits if_splits)
  ultimately show ?thesis by blast
qed

theorem set_logged_and_stored_witness:
  "\<exists>s'. handle_hash (\<lambda>n. None) (Some 9) (sample_server (Some 13) 1) =
      ret (s', [Send 8 (''STORED'' @ CRLF), Close 8]) \<and> wal [] [] s' [13, 12, 11]"
  using set_logged_and_stored [OF sample_server_wal sample_server_nodes(1) _ sample_server_nodes(2),
    where mem = "\<lambda>n. None"]
  by (auto simp: sample_node_def)

text \<open>
  C24: serving a get request answers with the key, the size and the value of the newest node that
  the table accepts for the key, and with the error text when there is none; table and log do not
  change. The size the user gave must have at most thirteen digits.
\<close>

theorem get_answers:
  assumes "kv_rep (table s) as" and "nh_heap (table s) p = Some b" "nh_data b = Some a"
    and "kv_heap (table s) a = Some n" "oper_flg n = 0" and "gives mem"
    and "\<forall>c \<in> set as. node_ok (node_at (table s) c) \<and> unat (user_size (node_at (table s) c)) < 10 ^ 13"
  shows "handle_hash mem (Some p) s =
    ret (s, [Send (sock_fd b)
        (case find (\<lambda>c. table_accepts (kv_key n) (table_key (table s) c)) as of
           None \<Rightarrow> err_get | Some c \<Rightarrow> reply_text (node_at (table s) c)),
      Close (sock_fd b)])"
proof (cases "find (\<lambda>c. table_accepts (kv_key n) (table_key (table s) c)) as")
  case None
  then have "\<forall>c \<in> set as. \<not> table_accepts (kv_key n) (table_key (table s) c)"
    by (simp add: find_None_iff)
  from handle_hash_get_missing [OF assms(1-5) this, of mem] show ?thesis by (simp add: None)
next
  case (Some c)
  then have "c \<in> set as" by (auto elim: find_SomeE)
  with assms(7) have "node_ok (node_at (table s) c)"
    "length (dec (unat (user_size (node_at (table s) c)))) \<le> 13"
    by (auto simp: length_dec_le_iff)
  from handle_hash_get_found [OF assms(1-5) Some assms(6) this] Some show ?thesis by simp
qed

theorem get_answers_witness:
  "handle_hash (\<lambda>n. Some (replicate n NUL)) (Some 9) (sample_server (Some 15) 0) =
     ret (sample_server (Some 15) 0,
       [Send 8 (''VALUE AD 7'' @ CRLF @ ''v'' @ CRLF @ ''END'' @ CRLF), Close 8])"
proof -
  have "\<forall>c \<in> set [12, 11]. node_ok (node_at (table (sample_server (Some 15) 0)) c) \<and>
      unat (user_size (node_at (table (sample_server (Some 15) 0)) c)) < 10 ^ 13"
    by (simp add: sample_server_def node_at_def sample_keys node_ok_def sample_node_def reply_lengths CRLF_def)
  moreover have "gives (\<lambda>n. Some (replicate n NUL))" by (simp add: gives_def)
  moreover have "find (\<lambda>c. table_accepts ''AD'' (table_key (table (sample_server (Some 15) 0)) c)) [12, 11] = Some 12"
    by (simp add: table_accepts_def table_key_def sample_server_nodes) (simp add: sample_node_def)
  moreover have "dec 7 = ''7''" by (simp add: dec.simps digit_char_def) code_simp
  ultimately show ?thesis
    using get_answers [OF sample_server_rep sample_server_nodes(1) _ sample_server_nodes(3)]
    by (simp add: sample_node_def sample_server_nodes reply_text_def reply_head_def reply_tail_def)
qed

text \<open>
  C25: the reply buffer holds the whole reply while the size the user gave has at most thirteen
  digits, and is overrun from fourteen digits on: the code reserves ten digits and does not
  check what \<open>snprintf\<close> returns.
\<close>

theorem reply_fits_thirteen_digits:
  assumes "gives mem" and "node_ok n"
  shows "(unat (user_size n) < 10 ^ 13 \<longrightarrow>
       (\<exists>msg. send_message_format mem n = ret msg \<and> cstr msg = reply_text n)) \<and>
     (10 ^ 13 \<le> unat (user_size n) \<longrightarrow> send_message_format mem n = stop_with Out_of_bounds)"
proof (intro conjI impI)
  assume "unat (user_size n) < 10 ^ 13"
  then show "\<exists>msg. send_message_format mem n = ret msg \<and> cstr msg = reply_text n"
    by (intro send_message_format_fits [OF assms]) (simp add: length_dec_le_iff)
next
  assume "10 ^ 13 \<le> unat (user_size n)"
  then have "13 < length (dec (unat (user_size n)))" by (rule dec_ge_length)
  moreover have "unat (user_size n) < 2 ^ 64" using unsigned_less [of "user_size n"] by simp
  then have "length (dec (unat (user_size n))) \<le> 20" by (intro length_dec_le) simp_all
  ultimately show "send_message_format mem n = stop_with Out_of_bounds"
    by (intro send_message_format_overflow [OF assms]) simp_all
qed

theorem reply_fits_thirteen_digits_witness:
  "(\<exists>msg. send_message_format (\<lambda>n. Some (replicate n NUL)) (sample_node ''AD'' None) = ret msg \<and>
      cstr msg = reply_text (sample_node ''AD'' None)) \<and>
   send_message_format (\<lambda>n. Some (replicate n NUL))
     ((sample_node ''AD'' None)\<lparr>user_size := 99999999999999\<rparr>) = stop_with Out_of_bounds"
proof -
  have ok: "node_ok (sample_node ''AD'' None)"
    "node_ok ((sample_node ''AD'' None)\<lparr>user_size := 99999999999999\<rparr>)"
    by (simp_all add: node_ok_def sample_node_def reply_lengths CRLF_def)
  have "gives (\<lambda>n. Some (replicate n NUL))" by (simp add: gives_def)
  from reply_fits_thirteen_digits [OF this ok(1)] reply_fits_thirteen_digits [OF this ok(2)]
  show ?thesis by (simp add: sample_node_def)
qed

end
