(* ===== verification/KvRecovery.thy ===== *)
theory KvRecovery
  imports KvHandler
begin

text \<open>
  \<open>memcache_lite/server_mt.c\<close>, the start of the server: \<open>init_hash_from_log\<close>, which reads the log of
  the last run line by line and rebuilds the table from the lines it recognises.
\<close>

section \<open>Reading the log\<close>

text \<open>
  \<open>fgets (line, n, f)\<close> on the rest of the file: at most \<open>n - 1\<close> bytes, up to and including
  the first line feed, and what is left to read.
\<close>

fun fgets :: "nat \<Rightarrow> string \<Rightarrow> string \<times> string" where
  "fgets n [] = ([], [])"
| "fgets n (c # inp) =
     (if n \<le> 1 then ([], c # inp)
      else if c = LF then ([c], inp)
      else (let (line, rest) = fgets (n - 1) inp in (c # line, rest)))"

text \<open>The conversions \<open>%s\<close> and \<open>%zu\<close> of \<open>sscanf\<close>.\<close>

definition scan_word :: "string \<Rightarrow> (string \<times> string) option" where
  "scan_word s =
     (let t = dropWhile is_space s; w = takeWhile (\<lambda>c. \<not> is_space c) t
      in if w = [] then None else Some (w, dropWhile (\<lambda>c. \<not> is_space c) t))"

definition scan_zu :: "string \<Rightarrow> (size_t \<times> string) option" where
  "scan_zu s = map_option (\<lambda>(neg, m, r). (ulong_of neg m, r)) (scan_int s)"

text \<open>
  \<open>sscanf (line, "SET %s %zu %zu %s", \<dots>)\<close>: \<open>None\<close> when fewer than three items are converted; the
  last component says whether the fourth one is. The key goes to an array of 50 bytes.
\<close>

definition scan_record :: "string \<Rightarrow> (string \<times> size_t \<times> size_t \<times> string option) option prog" where
  "scan_record line =
     (case scan_lit ''SET'' (cstr line) of
        None \<Rightarrow> ret None
      | Some s \<Rightarrow>
          (case scan_word s of
             None \<Rightarrow> ret None
           | Some (key, s) \<Rightarrow>
               if 50 < length key + 1 then stop_with Out_of_bounds
               else (case scan_zu s of
                 None \<Rightarrow> ret None
               | Some (usize, s) \<Rightarrow>
                   (case scan_zu s of
                      None \<Rightarrow> ret None
                    | Some (vsize, s) \<Rightarrow> ret (Some (key, usize, vsize, map_option fst (scan_word s)))))))"

section \<open>Rebuilding the table\<close>

text \<open>The walk along a chain for a node with exactly the given key.\<close>

partial_function (option) recover_find :: "kv_node heap \<Rightarrow> string \<Rightarrow> ptr \<Rightarrow> ptr prog" where
  "recover_find h key current =
     (if current = None then ret None
      else bindp (load h current) (\<lambda>n.
        if strcmp (kv_key n) key = 0 then ret current else recover_find h key (kv_next n)))"

text \<open>
  One iteration: \<open>m\<close> is the answer of \<open>malloc\<close> and \<open>flg\<close> the flag the new node happens to have,
  since the code does not set it. \<open>value\<close> is the array of 700 bytes that the fourth item is
  written to; a line with three items reads it as it is.
\<close>

definition recover_record ::
  "ptr \<Rightarrow> 8 word \<Rightarrow> string \<Rightarrow> string \<Rightarrow> size_t \<Rightarrow> size_t \<Rightarrow> kv_state \<Rightarrow> kv_state prog" where
  "recover_record m flg value key usize vsize s =
     (case m of
        None \<Rightarrow> stop_with Null_deref
      | Some a \<Rightarrow>
          let v = cstr (take (unat vsize) value);
              n = \<lparr>kv_key = key, kv_value = v, value_size = vsize, user_size = usize, oper_flg = flg,
                   kv_next = None\<rparr>
          in bindp (recover_find (kv_heap s) key (hash_map s ! unat (hash_string key))) (\<lambda>current.
             if current = None
             then bindp (insert_node m (s\<lparr>kv_heap := (kv_heap s)(a \<mapsto> n)\<rparr>)) (\<lambda>(_, s). ret s)
             else bindp (modify (kv_heap s) current (\<lambda>c. c\<lparr>kv_value := v, value_size := vsize, user_size := usize\<rparr>))
                    (\<lambda>h. ret (s\<lparr>kv_heap := h\<rparr>))))"

definition recover_line ::
  "ptr \<Rightarrow> 8 word \<Rightarrow> string \<Rightarrow> string \<Rightarrow> kv_state \<Rightarrow> (string \<times> kv_state) prog" where
  "recover_line m flg line value s =
     bindp (scan_record line) (\<lambda>r. case r of
       None \<Rightarrow> ret (value, s)
     | Some (key, usize, vsize, Some v) \<Rightarrow> bindp (write_at value 0 (v @ [NUL])) (\<lambda>value. ret (value, s))
     | Some (key, usize, vsize, None) \<Rightarrow>
         if 700 \<le> vsize then ret (value, s)
         else bindp (recover_record m flg value key usize vsize s) (\<lambda>s. ret (value, s)))"

text \<open>Every call takes something off a file that is not at its end.\<close>

lemma fgets_append: "fgets n inp = (line, rest) \<Longrightarrow> line @ rest = inp"
  by (induction n inp arbitrary: line rule: fgets.induct)
    (auto simp: Let_def split: if_splits prod.splits)

lemma fgets_nonempty: "1 < n \<Longrightarrow> inp \<noteq> [] \<Longrightarrow> fgets n inp = (line, rest) \<Longrightarrow> line \<noteq> []"
  by (cases inp) (auto simp: Let_def split: if_splits prod.splits)

lemma fgets_shorter:
  assumes "1 < n" and "inp \<noteq> []" and "fgets n inp = (line, rest)"
  shows "length rest < length inp"
  using fgets_append [OF assms(3)] fgets_nonempty [OF assms] by (auto simp flip: fgets_append [OF assms(3)])

text \<open>
  The loop: \<open>mem i\<close> and \<open>flgs i\<close> are the allocator's answer and the flag byte in iteration \<open>i\<close>. It
  ends, since every iteration takes a line off the file.
\<close>

function recover_loop ::
  "(nat \<Rightarrow> ptr) \<Rightarrow> (nat \<Rightarrow> 8 word) \<Rightarrow> nat \<Rightarrow> string \<Rightarrow> string \<Rightarrow> kv_state \<Rightarrow> kv_state prog" where
  "recover_loop mem flgs i inp value s =
     (if inp = [] then ret s
      else bindp (recover_line (mem i) (flgs i) (fst (fgets 150 inp)) value s) (\<lambda>(value, s).
        recover_loop mem flgs (Suc i) (snd (fgets 150 inp)) value s))"
  by pat_completeness auto

termination
  by (relation "measure (\<lambda>(_, _, _, inp, _, _). length inp)")
    (auto intro: fgets_shorter [of 150, OF _ _ prod.collapse [symmetric]])

declare recover_loop.simps [simp del]

text \<open>\<open>log\<close> is the content of the log file, \<open>None\<close> when it cannot be opened.\<close>

definition init_hash_from_log ::
  "(nat \<Rightarrow> ptr) \<Rightarrow> (nat \<Rightarrow> 8 word) \<Rightarrow> string \<Rightarrow> string option \<Rightarrow> kv_state \<Rightarrow> kv_state prog" where
  "init_hash_from_log mem flgs value log s =
     (case log of None \<Rightarrow> ret s | Some inp \<Rightarrow> recover_loop mem flgs 0 inp value s)"

section \<open>The table stays well formed\<close>

lemma recover_find_None [simp]: "recover_find h key None = ret None"
  by (subst recover_find.simps) simp

lemma recover_find_find:
  "chain kv_next h p as None \<Longrightarrow> recover_find h key p = ret (find (\<lambda>a. kv_key (the (h a)) = key) as)"
proof (induction as arbitrary: p)
  case Nil
  then show ?case by (subst recover_find.simps) simp
next
  case (Cons a as)
  then show ?case
    by (subst recover_find.simps) (auto simp: strcmp_0_iff split: option.splits)
qed

text \<open>Changing a node's value and sizes does not move it.\<close>

lemma kv_rep_update:
  assumes r: "kv_rep s as" and n: "kv_heap s a = Some n" and k: "kv_key m = kv_key n" "kv_next m = kv_next n"
  shows "kv_rep (s\<lparr>kv_heap := (kv_heap s)(a \<mapsto> m)\<rparr>) as"
proof (rule kv_rep_cong_keys)
  fix i assume "i < TABLESIZE"
  from kv_repD [OF r this]
  show "chain kv_next (kv_heap (s\<lparr>kv_heap := (kv_heap s)(a \<mapsto> m)\<rparr>))
      (hash_map (s\<lparr>kv_heap := (kv_heap s)(a \<mapsto> m)\<rparr>) ! i) (filter (\<lambda>x. bucket_of s x = i) as) None"
    using n k(2) by (subst chain_cong [of _ kv_next _ "kv_heap s"]) auto
qed (use r n k in \<open>auto simp: bucket_of_def node_at_def kv_rep_def\<close>)

lemma kv_rep_new:
  assumes r: "kv_rep s as" and a: "kv_heap s a = None"
  shows "kv_rep (s\<lparr>kv_heap := (kv_heap s)(a \<mapsto> n)\<rparr>) as" and "a \<notin> set as"
proof -
  have ne: "x \<noteq> a" if "x \<in> set as" for x using kv_rep_alloc [OF r that] a by auto
  then show "a \<notin> set as" by auto
  show "kv_rep (s\<lparr>kv_heap := (kv_heap s)(a \<mapsto> n)\<rparr>) as"
  proof (rule kv_rep_cong_keys)
    fix i assume "i < TABLESIZE"
    from kv_repD [OF r this] ne
    show "chain kv_next (kv_heap (s\<lparr>kv_heap := (kv_heap s)(a \<mapsto> n)\<rparr>))
        (hash_map (s\<lparr>kv_heap := (kv_heap s)(a \<mapsto> n)\<rparr>) ! i) (filter (\<lambda>x. bucket_of s x = i) as) None"
      by (subst chain_cong [of _ kv_next _ "kv_heap s"]) auto
  qed (use r ne in \<open>auto simp: bucket_of_def node_at_def kv_rep_def\<close>)
qed

definition same_queue :: "kv_state \<Rightarrow> kv_state \<Rightarrow> bool" where
  "same_queue s t \<longleftrightarrow> nh_heap t = nh_heap s \<and> head_hash t = head_hash s \<and> tail_hash t = tail_hash s"

text \<open>A recognised record updates the node with its key, or puts a new one in front.\<close>

lemma recover_record_rep:
  assumes r: "kv_rep s as" and a: "kv_heap s a = None"
  shows "\<exists>s' bs. recover_record (Some a) flg value key usize vsize s = ret s' \<and> kv_rep s' bs \<and>
    same_queue s s' \<and> (\<forall>c. c \<noteq> a \<longrightarrow> kv_heap s c = None \<longrightarrow> kv_heap s' c = None) \<and>
    (case find (\<lambda>c. kv_key (node_at s c) = key) as of 
       None \<Rightarrow> bs = a # as \<and> (\<exists>p. node_at s' a = \<lparr>kv_key = key, kv_value = cstr (take (unat vsize) value),
         value_size = vsize, user_size = usize, oper_flg = flg, kv_next = p\<rparr>)
     | Some c \<Rightarrow> bs = as)"
proof -
  let ?i = "unat (hash_string key)"
  let ?v = "cstr (take (unat vsize) value)"
  let ?n = "\<lparr>kv_key = key, kv_value = ?v, value_size = vsize, user_size = usize, oper_flg = flg, kv_next = None\<rparr>"
  let ?f = "\<lambda>c. c\<lparr>kv_value := ?v, value_size := vsize, user_size := usize\<rparr>"
  have "recover_find (kv_heap s) key (hash_map s ! ?i) =
      ret (find (\<lambda>a. kv_key (the (kv_heap s a)) = key) (filter (\<lambda>a. bucket_of s a = ?i) as))"
    by (rule recover_find_find [OF kv_repD [OF r hash_string_bound]])
  also have "find (\<lambda>a. kv_key (the (kv_heap s a)) = key) (filter (\<lambda>a. bucket_of s a = ?i) as) =
      find (\<lambda>c. kv_key (node_at s c) = key) as"
    unfolding find_filter by (rule find_cong [OF refl]) (auto simp: bucket_of_def node_at_def)
  finally have f: "recover_find (kv_heap s) key (hash_map s ! ?i) =
      ret (find (\<lambda>c. kv_key (node_at s c) = key) as)" .
  show ?thesis
  proof (cases "find (\<lambda>c. kv_key (node_at s c) = key) as")
    case None
    let ?s = "s\<lparr>kv_heap := (kv_heap s)(a \<mapsto> ?n)\<rparr>"
    have "kv_rep ?s as" "a \<notin> set as" using kv_rep_new [OF r a] by auto
    from insert_node_rep [OF this(1) _ this(2), of ?n] obtain s' where
      s': "insert_node (Some a) ?s = ret (True, s')" "kv_rep s' (a # as)" "same_queue s s'" and
      k: "\<And>b. map_option (\<lambda>n. n\<lparr>kv_next := None\<rparr>) (kv_heap s' b) =
          map_option (\<lambda>n. n\<lparr>kv_next := None\<rparr>) (kv_heap ?s b)"
      by (auto simp: same_queue_def)
    have "kv_heap s' c = None" if "c \<noteq> a" "kv_heap s c = None" for c using k [of c] that by simp
    moreover have "\<exists>p. node_at s' a = ?n\<lparr>kv_next := p\<rparr>"
    proof -
      from k [of a] obtain x where x: "kv_heap s' a = Some x" "x\<lparr>kv_next := None\<rparr> = ?n" by auto
      then have "x = ?n\<lparr>kv_next := kv_next x\<rparr>" by (cases x) simp
      with x(1) show ?thesis by (intro exI [of _ "kv_next x"]) (simp add: node_at_def)
    qed
    ultimately show ?thesis using s' f None by (simp add: recover_record_def Let_def)
  next
    case (Some c)
    then have "c \<in> set as" by (metis find_Some_iff nth_mem)
    then obtain m where m: "kv_heap s c = Some m" using kv_rep_alloc [OF r] by blast
    let ?s = "s\<lparr>kv_heap := (kv_heap s)(c \<mapsto> ?f m)\<rparr>"
    have "recover_record (Some a) flg value key usize vsize s = ret ?s"
      using f Some m by (simp add: recover_record_def Let_def)
    moreover have "kv_rep ?s as" by (rule kv_rep_update [OF r m]) simp_all
    ultimately show ?thesis using Some m by (auto simp: same_queue_def)
  qed
qed

lemma scan_word_length: "scan_word s = Some (w, t) \<Longrightarrow> length w + length t \<le> length s"
proof -
  assume "scan_word s = Some (w, t)"
  then have "w @ t = dropWhile is_space s" by (auto simp: scan_word_def Let_def split: if_splits)
  then have "length w + length t = length (dropWhile is_space s)" by (metis length_append)
  then show ?thesis using length_dropWhile_le [of is_space s] by simp
qed

text \<open>What \<open>recover_line\<close> does with a line that fits \<open>fgets\<close>.\<close>

lemma scan_record_word:
  assumes "scan_record line = ret (Some (key, usize, vsize, Some v))"
  shows "length v \<le> length line"
proof -
  have d: "length t \<le> length u" if "scan_zu u = Some (x, t)" for u x t
  proof -
    have "t = dropWhile is_digit (snd (scan_sign (dropWhile is_space u)))"
      using that by (auto simp: scan_zu_def scan_int_def Let_def split: prod.splits if_splits)
    moreover have "length (snd (scan_sign w)) \<le> length w" for w
      by (cases w) (auto simp: scan_sign_def)
    ultimately show ?thesis
      by (metis le_trans length_dropWhile_le)
  qed
  have c: "length (cstr line) \<le> length line" by (simp add: cstr_def length_takeWhile_le)
  from assms show ?thesis
    by (auto simp: scan_record_def scan_lit_def split: option.splits if_splits prod.splits
        dest!: scan_word_length d intro: le_trans [OF _ c])
qed

lemma recover_line_cases:
  assumes r: "kv_rep s as" and a: "kv_heap s a = None" and v: "length value = 700" and l: "length line \<le> 149"
  shows "recover_line (Some a) flg line value s = stop_with Out_of_bounds \<or>
    (\<exists>v' s' bs. recover_line (Some a) flg line value s = ret (v', s') \<and> length v' = 700 \<and> kv_rep s' bs \<and>
       same_queue s s' \<and> (\<forall>c. c \<noteq> a \<longrightarrow> kv_heap s c = None \<longrightarrow> kv_heap s' c = None))"
proof -
  have "scan_record line = stop_with Out_of_bounds \<or> (\<exists>r. scan_record line = ret r)"
    by (auto simp: scan_record_def split: option.splits)
  then consider "scan_record line = stop_with Out_of_bounds" | "scan_record line = ret None"
    | key us vs w where "scan_record line = ret (Some (key, us, vs, Some w))"
    | key us vs where "scan_record line = ret (Some (key, us, vs, None))"
    by (metis option.exhaust prod.exhaust)
  then show ?thesis
  proof cases
    case 1
    then show ?thesis by (simp add: recover_line_def)
  next
    case 2
    then show ?thesis using r v by (auto simp: recover_line_def same_queue_def)
  next
    case (3 key us vs w)
    then have "length w + 1 \<le> length value" using scan_record_word [OF 3] l v by simp
    then have "write_at value 0 (w @ [NUL]) = ret ((w @ [NUL]) @ drop (length w + 1) value)"
      by (simp add: write_at_def)
    then show ?thesis using 3 r v \<open>length w + 1 \<le> length value\<close>
      by (auto simp: recover_line_def same_queue_def)
  next
    case (4 key us vs)
    from recover_record_rep [OF r a, of flg "value" key us vs] obtain s' bs where
      "recover_record (Some a) flg value key us vs s = ret s'" "kv_rep s' bs" "same_queue s s'"
      "\<forall>c. c \<noteq> a \<longrightarrow> kv_heap s c = None \<longrightarrow> kv_heap s' c = None" by blast
    with 4 r v show ?thesis by (auto simp: recover_line_def same_queue_def)
  qed
qed

lemma fgets_length: "fgets n inp = (line, rest) \<Longrightarrow> length line \<le> n - 1"
  by (induction n inp arbitrary: line rule: fgets.induct)
    (fastforce simp: Let_def split: if_splits prod.splits)+

text \<open>Addresses that the allocator has still to give, all different and not in use.\<close>

definition fresh_from :: "(nat \<Rightarrow> ptr) \<Rightarrow> nat \<Rightarrow> kv_state \<Rightarrow> bool" where
  "fresh_from mem i s \<longleftrightarrow> (\<forall>j \<ge> i. \<exists>a. mem j = Some a \<and> kv_heap s a = None) \<and>
     (\<forall>j \<ge> i. \<forall>k \<ge> i. mem j = mem k \<longrightarrow> j = k)"

lemma fresh_from_step:
  assumes "fresh_from mem i s" and "mem i = Some a"
    and "\<forall>c. c \<noteq> a \<longrightarrow> kv_heap s c = None \<longrightarrow> kv_heap s' c = None"
  shows "fresh_from mem (Suc i) s'"
  unfolding fresh_from_def
proof (intro conjI allI impI)
  fix j assume "Suc i \<le> j"
  then have "i \<le> j" by simp
  with assms(1) obtain b where b: "mem j = Some b" "kv_heap s b = None" by (auto simp: fresh_from_def)
  have "mem i \<noteq> mem j"
    using assms(1) \<open>i \<le> j\<close> \<open>Suc i \<le> j\<close> unfolding fresh_from_def by (metis Suc_n_not_le_n le_refl)
  then have "b \<noteq> a" using assms(2) b(1) by auto
  with b assms(3) show "\<exists>a. mem j = Some a \<and> kv_heap s' a = None" by auto
next
  fix j k assume "Suc i \<le> j" "Suc i \<le> k" "mem j = mem k"
  with assms(1) show "j = k" by (auto simp: fresh_from_def)
qed

lemma recover_loop_cases:
  assumes "kv_rep s as" and "length value = 700" and "fresh_from mem i s"
  shows "recover_loop mem flgs i inp value s = stop_with Out_of_bounds \<or>
    (\<exists>s' bs. recover_loop mem flgs i inp value s = ret s' \<and> kv_rep s' bs \<and> same_queue s s')"
  using assms
proof (induction "length inp" arbitrary: i inp "value" s as rule: less_induct)
  case less
  show ?case
  proof (cases "inp = []")
    case True
    then show ?thesis using less.prems by (subst (1 2) recover_loop.simps) (auto simp: same_queue_def)
  next
    case False
    obtain line rest where f: "fgets 150 inp = (line, rest)" by (cases "fgets 150 inp") auto
    have short: "length rest < length inp" by (rule fgets_shorter [OF _ False f]) simp
    have l: "length line \<le> 149" using fgets_length [OF f] by simp
    obtain a where a: "mem i = Some a" "kv_heap s a = None"
      using less.prems(3) by (auto simp: fresh_from_def)
    have step: "recover_loop mem flgs i inp value s =
        bindp (recover_line (Some a) (flgs i) line value s) (\<lambda>(value, s).
          recover_loop mem flgs (Suc i) rest value s)"
      using False f a(1) by (subst recover_loop.simps) simp
    from recover_line_cases [OF less.prems(1) a(2) less.prems(2) l, of "flgs i"] show ?thesis
    proof
      assume "recover_line (Some a) (flgs i) line value s = stop_with Out_of_bounds"
      then show ?thesis by (simp add: step)
    next
      assume "\<exists>v' s' bs. recover_line (Some a) (flgs i) line value s = ret (v', s') \<and> length v' = 700 \<and>
        kv_rep s' bs \<and> same_queue s s' \<and> (\<forall>c. c \<noteq> a \<longrightarrow> kv_heap s c = None \<longrightarrow> kv_heap s' c = None)"
      then obtain v' s' bs where s': "recover_line (Some a) (flgs i) line value s = ret (v', s')"
        "length v' = 700" "kv_rep s' bs" "same_queue s s'"
        "\<forall>c. c \<noteq> a \<longrightarrow> kv_heap s c = None \<longrightarrow> kv_heap s' c = None" by blast
      from less.hyps [OF short s'(3,2) fresh_from_step [OF less.prems(3) a(1) s'(5)]]
      show ?thesis using s'(1,4) by (auto simp: step same_queue_def)
    qed
  qed
qed

section \<open>What comes back\<close>

lemma fgets_line:
  "LF \<notin> set l \<Longrightarrow> length l + 1 < n \<Longrightarrow> fgets n (l @ LF # rest) = (l @ [LF], rest)"
proof (induction l arbitrary: n)
  case (Cons c l)
  then have "fgets (n - 1) (l @ LF # rest) = (l @ [LF], rest)" by auto
  with Cons.prems show ?case by (auto simp: Let_def)
qed auto

text \<open>The line of the log on which the value of a record begins, up to the value.\<close>

definition log_head :: "kv_node \<Rightarrow> string" where
  "log_head n = ''SET '' @ kv_key n @ '' '' @ dec (unat (user_size n)) @ '' ''
     @ dec (unat (value_size n)) @ '' '' @ [CR]"

lemma log_line_head: "kv_value n = CRLF @ val \<Longrightarrow> log_line n = log_head n @ LF # val @ [LF]"
  by (simp add: log_line_def log_head_def CRLF_def)

text \<open>A key as it must be for its record to be read back.\<close>

definition log_key :: "string \<Rightarrow> bool" where
  "log_key k \<longleftrightarrow> k \<noteq> [] \<and> length k < 50 \<and> NUL \<notin> set k \<and> (\<forall>c \<in> set k. \<not> is_space c)"

lemma dec_clean: "LF \<notin> set (dec n)" "NUL \<notin> set (dec n)"
  using dec_digits [of n] by auto

lemma log_head_clean: "log_key (kv_key n) \<Longrightarrow> LF \<notin> set (log_head n) \<and> NUL \<notin> set (log_head n)"
  using dec_clean by (auto simp: log_head_def log_key_def)

lemma length_dec_size: "length (dec (unat (w :: size_t))) \<le> 20"
proof -
  have "unat w < 2 ^ 64" using unsigned_less [of w] by simp
  then show ?thesis by (intro length_dec_le) simp_all
qed

lemma log_head_length: "log_key (kv_key n) \<Longrightarrow> length (log_head n) + 1 < 150"
  using length_dec_size [of "user_size n"] length_dec_size [of "value_size n"]
  by (simp add: log_head_def log_key_def)

lemma scan_word_word:
  assumes "w \<noteq> []" and "\<forall>c \<in> set w. \<not> is_space c" and "is_space d"
  shows "scan_word (CHR '' '' # w @ d # rest) = Some (w, d # rest)"
proof -
  from assms(1,2) obtain c w' where w: "w = c # w'" "\<not> is_space c" by (cases w) auto
  then have "dropWhile is_space (CHR '' '' # w @ d # rest) = w @ d # rest" by simp
  moreover have "takeWhile (\<lambda>c. \<not> is_space c) (w @ d # rest) = w"
    "dropWhile (\<lambda>c. \<not> is_space c) (w @ d # rest) = d # rest"
    using assms(2,3) by (simp_all add: takeWhile_append2 dropWhile_append2)
  ultimately show ?thesis using assms(1) by (simp add: scan_word_def Let_def)
qed

lemma scan_zu_dec:
  "rest = [] \<or> \<not> is_digit (hd rest) \<Longrightarrow>
   scan_zu (CHR '' '' # dec (unat (w :: size_t)) @ rest) = Some (w, rest)"
proof -
  assume r: "rest = [] \<or> \<not> is_digit (hd rest)"
  have "unat w < 2 ^ 64" using unsigned_less [of w] by simp
  then have "ulong_of False (unat w) = w" by (simp add: ulong_of_nat)
  then show ?thesis using scan_int_dec [OF r, of "unat w"] by (simp add: scan_zu_def scan_int_space)
qed

lemma scan_record_head:
  assumes "log_key (kv_key n)"
  shows "scan_record (log_head n @ [LF]) = ret (Some (kv_key n, user_size n, value_size n, None))"
proof -
  let ?u = "dec (unat (user_size n))" and ?v = "dec (unat (value_size n))"
  note k = assms [unfolded log_key_def]
  have "NUL \<notin> set (log_head n @ [LF])" using log_head_clean [OF assms] by simp
  then have c: "cstr (log_head n @ [LF]) = log_head n @ [LF]" by (rule cstr_idem)
  have "scan_lit ''SET'' (log_head n @ [LF]) =
      Some (CHR '' '' # kv_key n @ CHR '' '' # ?u @ CHR '' '' # ?v @ '' '' @ [CR, LF])"
    by (simp add: scan_lit_def log_head_def)
  moreover have "scan_word (CHR '' '' # kv_key n @ CHR '' '' # ?u @ CHR '' '' # ?v @ '' '' @ [CR, LF]) =
      Some (kv_key n, CHR '' '' # ?u @ CHR '' '' # ?v @ '' '' @ [CR, LF])"
    using k by (intro scan_word_word) auto
  moreover have "scan_zu (CHR '' '' # ?u @ CHR '' '' # ?v @ '' '' @ [CR, LF]) =
      Some (user_size n, CHR '' '' # ?v @ '' '' @ [CR, LF])"
    by (rule scan_zu_dec) simp
  moreover have "scan_zu (CHR '' '' # ?v @ '' '' @ [CR, LF]) = Some (value_size n, '' '' @ [CR, LF])"
    by (rule scan_zu_dec) simp
  moreover have "scan_word ('' '' @ [CR, LF]) = None" by (simp add: scan_word_def)
  ultimately show ?thesis using k by (simp add: scan_record_def c)
qed

text \<open>Lines without an \<open>S\<close> are not records.\<close>

lemma recover_loop_skips:
  assumes "CHR ''S'' \<notin> set inp"
  shows "recover_loop mem flgs i inp value s = ret s"
  using assms
proof (induction "length inp" arbitrary: i inp rule: less_induct)
  case less
  show ?case
  proof (cases "inp = []")
    case True
    then show ?thesis by (subst recover_loop.simps) simp
  next
    case False
    obtain line rest where f: "fgets 150 inp = (line, rest)" by (cases "fgets 150 inp") auto
    have short: "length rest < length inp" by (rule fgets_shorter [OF _ False f]) simp
    have S: "CHR ''S'' \<notin> set line" "CHR ''S'' \<notin> set rest"
      using less.prems by (auto simp flip: fgets_append [OF f])
    have "set (cstr line) \<subseteq> set line" by (auto simp: cstr_def dest: set_takeWhileD)
    with S(1) have "take (length ''SET'') (cstr line) \<noteq> ''SET''" by (metis in_set_takeD list.set_intros(1) subsetD)
    then have "scan_record line = ret None" by (simp add: scan_record_def scan_lit_def)
    then have "recover_loop mem flgs i inp value s = recover_loop mem flgs (Suc i) rest value s"
      using False f by (subst recover_loop.simps) (simp add: recover_line_def)
    then show ?thesis using less.hyps [OF short S(2)] by simp
  qed
qed

text \<open>One record of the log, as \<open>handle_hash\<close> writes it for a set request, put into a table without its key.\<close>

lemma recover_log_line:
  assumes r: "kv_rep s as" and a: "mem 0 = Some a" "kv_heap s a = None"
    and k: "log_key (kv_key n)" "\<forall>c \<in> set as. kv_key (node_at s c) \<noteq> kv_key n"
    and v: "kv_value n = CRLF @ val" "CHR ''S'' \<notin> set val" "value_size n < 700"
  shows "\<exists>s' p. init_hash_from_log mem flgs value (Some (log_line n)) s = ret s' \<and> kv_rep s' (a # as) \<and>
    node_at s' a = \<lparr>kv_key = kv_key n, kv_value = cstr (take (unat (value_size n)) value),
      value_size = value_size n, user_size = user_size n, oper_flg = flgs 0, kv_next = p\<rparr>"
proof -
  have f: "fgets 150 (log_line n) = (log_head n @ [LF], val @ [LF])"
    unfolding log_line_head [OF v(1)]
    by (rule fgets_line) (use log_head_clean [OF k(1)] log_head_length [OF k(1)] in auto)
  have none: "find (\<lambda>c. kv_key (node_at s c) = kv_key n) as = None"
    using k(2) by (auto simp: find_None_iff)
  from recover_record_rep [OF r a(2), of "flgs 0" "value" "kv_key n" "user_size n" "value_size n"] none
  obtain s' p where s': "recover_record (Some a) (flgs 0) value (kv_key n) (user_size n) (value_size n) s = ret s'"
    "kv_rep s' (a # as)" "node_at s' a = \<lparr>kv_key = kv_key n, kv_value = cstr (take (unat (value_size n)) value),
      value_size = value_size n, user_size = user_size n, oper_flg = flgs 0, kv_next = p\<rparr>"
    by auto
  have ne: "log_line n \<noteq> []" by (simp add: log_line_def)
  have nv: "\<not> 700 \<le> value_size n" using v(3) by simp
  have "recover_loop mem flgs 0 (log_line n) value s = recover_loop mem flgs (Suc 0) (val @ [LF]) value s'"
    using f s'(1) ne nv a(1)
    by (subst recover_loop.simps) (simp add: recover_line_def scan_record_head [OF k(1)])
  also have "\<dots> = ret s'" by (rule recover_loop_skips) (use v(2) in auto)
  finally show ?thesis using s' by (auto simp: init_hash_from_log_def)
qed

section \<open>Properties\<close>



text \<open>
  C29: the values of the last run are lost. After a restart from the log line of a set request, the
  key is in the table again with its sizes, but its value is what the array \<open>value\<close> happened to
  hold: the line feed in front of the value ends the line, and the record is taken to have three
  items.
\<close>

theorem recovery_loses_values:
  assumes "kv_rep s as" and "mem 0 = Some a" "kv_heap s a = None"
    and "log_key (kv_key n)" "\<forall>c \<in> set as. kv_key (node_at s c) \<noteq> kv_key n"
    and "kv_value n = CRLF @ val" "CHR ''S'' \<notin> set val" "value_size n < 700"
  shows "\<exists>s'. init_hash_from_log mem flgs value (Some (log_line n)) s = ret s' \<and>
    get_node (Some (kv_key n)) s' = ret (Some a) \<and> kv_key (node_at s' a) = kv_key n \<and>
    user_size (node_at s' a) = user_size n \<and> value_size (node_at s' a) = value_size n \<and>
    kv_value (node_at s' a) = cstr (take (unat (value_size n)) value)"
proof -
  from recover_log_line [of s as mem a n val flgs "value"] assms obtain s' p where
    s': "init_hash_from_log mem flgs value (Some (log_line n)) s = ret s'" "kv_rep s' (a # as)"
    "node_at s' a = \<lparr>kv_key = kv_key n, kv_value = cstr (take (unat (value_size n)) value),
      value_size = value_size n, user_size = user_size n, oper_flg = flgs 0, kv_next = p\<rparr>" by blast
  then have "get_node (Some (kv_key n)) s' = ret (Some a)"
    using get_node_rep [OF s'(2), of "kv_key n"] by (simp add: matches_def)
  with s' show ?thesis by simp
qed

theorem recovery_loses_values_witness:
  "\<exists>s'. init_hash_from_log (\<lambda>i. Some (30 + i)) (\<lambda>i. 0) (replicate 700 NUL)
      (Some (log_line (sample_node ''AD'' None))) kv_init = ret s' \<and>
    kv_value (node_at s' 30) = [] \<and> kv_value (sample_node ''AD'' None) = CRLF @ ''v''"
proof -
  have "log_key (kv_key (sample_node ''AD'' None))"
    by (simp add: log_key_def sample_node_def is_space_def)
  then show ?thesis
    using recovery_loses_values [OF kv_rep_init, of "\<lambda>i. Some (30 + i)" 30 "sample_node ''AD'' None" "''v''"
        "\<lambda>i. 0" "replicate 700 NUL"]
    by (auto simp: sample_node_def kv_init_def cstr_def)
qed

end
