(* ===== verification/KvSystem.thy ===== *)
theory KvSystem
  imports KvRecovery KvClient
begin

text \<open>
  The key-value server as a whole. Its threads share the request queue (under \<open>hash_mutex\<close>) and
  the table with the log (under \<open>hashmap_mutex\<close>); a step is what one thread does between taking
  and releasing a lock. The invariant says that table, log and queue stay consistent in every
  state the threads can reach, and the last section follows a request from the client's
  arguments to the server's reply.
\<close>

section \<open>The steps\<close>

record kv_sys =
  srv :: server
  held :: "addr list"      \<comment> \<open>queue nodes that workers have taken and not served yet\<close>
  sent :: "action list"    \<comment> \<open>what the threads did to the sockets\<close>

definition unused :: "client_env \<Rightarrow> kv_state \<Rightarrow> bool" where
  "unused env t \<longleftrightarrow> (\<forall>a. node_mem env = Some a \<longrightarrow> kv_heap t a = None) \<and>
     (\<forall>b. hash_mem env = Some b \<longrightarrow> nh_heap t b = None)"

text \<open>
  A connection worker handles a connection, with any arrivals, any answers of the allocator and
  any \<open>errno\<close> left over; a request worker takes the oldest request; a request worker serves a
  request it holds.
\<close>

inductive kv_step :: "kv_sys \<Rightarrow> kv_sys \<Rightarrow> bool" where
  connection: "unused env (table (srv S)) \<Longrightarrow>
     handle_client env fd errno as (table (srv S)) = ret (t, acts, errno') \<Longrightarrow>
     kv_step S (S\<lparr>srv := (srv S)\<lparr>table := t\<rparr>, sent := sent S @ acts\<rparr>)"
| take_request: "dequeue_hash (table (srv S)) = ret (Some p, t) \<Longrightarrow>
     kv_step S (S\<lparr>srv := (srv S)\<lparr>table := t\<rparr>, held := held S @ [p]\<rparr>)"
| serve: "i < length (held S) \<Longrightarrow> handle_hash mem (Some (held S ! i)) (srv S) = ret (s', acts) \<Longrightarrow>
     kv_step S (S\<lparr>srv := s', held := take i (held S) @ drop (Suc i) (held S), sent := sent S @ acts\<rparr>)"

text \<open>The server starts with the table \<open>t0\<close> it has rebuilt and the log \<open>log0\<close> it has found.\<close>

inductive kv_reach :: "kv_state \<Rightarrow> string \<Rightarrow> kv_sys \<Rightarrow> bool" for t0 log0 where
  start: "kv_reach t0 log0 \<lparr>srv = \<lparr>table = t0, log_text = log0\<rparr>, held = [], sent = []\<rparr>"
| step: "kv_reach t0 log0 S \<Longrightarrow> kv_step S T \<Longrightarrow> kv_reach t0 log0 T"

inductive_cases kv_stepE: "kv_step S T"

section \<open>What a connection does to the shared state\<close>

text \<open>Nothing, or one new node and one new entry at the end of the queue.\<close>

lemma client_set_branch_flag:
  "client_set_branch env fd errno as = ret (Inr (key, buffer, vsize, flg), e) \<Longrightarrow> flg = 1"
  by (auto simp: client_set_branch_def elim!: bindp_retE
      split: option.split_asm prod.split_asm sum.split_asm)

lemma client_get_branch_flag:
  "client_get_branch env fd errno as = ret (Inr (key, buffer, vsize, flg), e) \<Longrightarrow> flg = 0"
  by (auto simp: client_get_branch_def bindp_ret_conv split: option.splits)

text \<open>The two ways a connection is refused; the second sends on a descriptor it has closed.\<close>

definition refusal :: "int \<Rightarrow> action list \<Rightarrow> bool" where
  "refusal fd acts \<longleftrightarrow> acts = [Send fd ack_n] \<or> acts = [Close fd, Send fd ack_n]"

lemma parse_body_acts: "parse_body fd buffer n as = ret (None, acts, as') \<Longrightarrow> acts = [] \<or> acts = [Close fd]"
  by (auto simp: parse_body_def elim!: bindp_retE split: option.split_asm prod.split_asm if_split_asm)

lemma client_set_body_refusal:
  "client_set_body env fd actual vsize key_size as = ret (Inl acts) \<Longrightarrow> refusal fd acts"
  by (auto simp: client_set_body_def Let_def refusal_def elim!: bindp_retE dest!: parse_body_acts
      split: option.split_asm prod.split_asm)

lemma client_branch_refusal:
  "client_set_branch env fd errno as = ret (Inl acts, e) \<Longrightarrow> refusal fd acts"
  "client_get_branch env fd errno as = ret (Inl acts, e) \<Longrightarrow> refusal fd acts"
  by (auto simp: client_set_branch_def client_get_branch_def refusal_def elim!: bindp_retE
      dest!: client_set_body_refusal split: option.split_asm prod.split_asm sum.split_asm)

text \<open>The nodes that connections make: proper strings, the value's length, and a get or set flag.\<close>

definition node_typed :: "kv_node \<Rightarrow> bool" where
  "node_typed n \<longleftrightarrow> NUL \<notin> set (kv_key n) \<and> NUL \<notin> set (kv_value n) \<and>
     value_size n = of_nat (length (kv_value n)) \<and> (oper_flg n = 0 \<or> oper_flg n = 1)"

lemma handle_client_effect:
  assumes "handle_client env fd errno as s = ret (t, acts, errno')"
  shows "t = s \<and> refusal fd acts \<or> acts = [] \<and> (\<exists>a n. node_mem env = Some a \<and> node_typed n \<and> kv_next n = None \<and>
    enqueue_hash (hash_mem env) (Some a) fd (s\<lparr>kv_heap := (kv_heap s)(a \<mapsto> n)\<rparr>) = ret t)"
proof -
  obtain r as1 where r: "recv as 5 = ret (r, as1)"
    using assms by (auto simp: handle_client_def bindp_ret_conv)
  show ?thesis
  proof (cases "r = None \<or> r = Some []")
    case True
    with assms r show ?thesis by (auto simp: handle_client_def refusal_def)
  next
    case False
    then obtain bs where "r = Some bs" "bs \<noteq> []" by auto
    with assms r obtain h res e where
      b: "(if strcmp (cstr h) (''set'' @ CRLF) = 0 then client_set_branch env fd errno as1
          else client_get_branch env fd errno as1) = ret (res, e)"
      and c: "(case res of Inl acts \<Rightarrow> ret (s, acts, e)
        | Inr (key, buffer, vsize, gs_flg) \<Rightarrow>
            bindp (create_node (node_mem env) key vsize buffer gs_flg s) (\<lambda>(node, s).
            bindp (enqueue_hash (hash_mem env) node fd s) (\<lambda>s. ret (s, [], e)))) = ret (t, acts, errno')"
      by (auto simp: handle_client_def bindp_ret_conv)
    show ?thesis
    proof (cases res)
      case (Inl acts')
      with b have "refusal fd acts'" by (auto dest: client_branch_refusal split: if_splits)
      with c Inl show ?thesis by simp
    next
      case (Inr x)
      obtain key buffer vsize flg where x: "x = (key, buffer, vsize, flg)" by (cases x) auto
      have flg: "flg = 0 \<or> flg = 1"
        using b Inr x by (auto dest: client_set_branch_flag client_get_branch_flag split: if_splits)
      from c Inr x obtain node s1 where
        n: "create_node (node_mem env) key vsize buffer flg s = ret (node, s1)" and
        q: "enqueue_hash (hash_mem env) node fd s1 = ret t"
        by (auto simp: bindp_ret_conv)
      from n obtain a k where "node_mem env = Some a" "node = Some a" "s1 = s\<lparr>kv_heap := (kv_heap s)(a \<mapsto>
          \<lparr>kv_key = cstr k, kv_value = cstr buffer, value_size = of_nat (length (cstr buffer)),
           user_size = vsize, oper_flg = flg, kv_next = None\<rparr>)\<rparr>"
        by (auto simp: create_node_def split: option.split_asm)
      moreover have "acts = []" using c Inr x n q by simp
      ultimately show ?thesis using q flg
        by (intro disjI2 conjI [of "acts = []"] exI [of _ a] exI [of _ "\<lparr>kv_key = cstr k, kv_value = cstr buffer,
          value_size = of_nat (length (cstr buffer)), user_size = vsize, oper_flg = flg, kv_next = None\<rparr>"])
          (simp_all add: node_typed_def NUL_notin_cstr)
    qed
  qed
qed


section \<open>The invariant\<close>

text \<open>The entries of the request queue keep what they point to when one is added.\<close>

lemma enqueue_hash_frame:
  assumes "enqueue_hash m p fd s = ret t" and "nh_heap s b \<noteq> None" and "\<And>a. m = Some a \<Longrightarrow> nh_heap s a = None"
  shows "map_option request_of (nh_heap t b) = map_option request_of (nh_heap s b)"
  using assms
  by (auto simp: enqueue_hash_def Let_def request_of_def heap_simps elim!: bindp_retE
      split: option.split_asm if_split_asm)

lemma dequeue_hash_frame: "dequeue_hash s = ret (r, t) \<Longrightarrow> nh_heap t = nh_heap s"
  by (auto simp: dequeue_hash_def Let_def elim!: bindp_retE split: if_splits)

text \<open>The nodes of the requests that workers hold.\<close>

definition held_data :: "kv_state \<Rightarrow> addr list \<Rightarrow> ptr list" where
  "held_data t bs = map (\<lambda>b. nh_data (the (nh_heap t b))) bs"

text \<open>
  \<open>kv_inv log0 base S as rs ps\<close>: table and log agree, the queue is a FIFO queue of the requests
  \<open>rs\<close>, and the nodes \<open>ps\<close> of the requests held and queued exist, carry a get or set flag and are
  neither in the table nor shared.
\<close>

definition kv_inv ::
  "string \<Rightarrow> addr list \<Rightarrow> kv_sys \<Rightarrow> addr list \<Rightarrow> request list \<Rightarrow> addr list \<Rightarrow> bool" where
  "kv_inv log0 base S as rs ps \<longleftrightarrow>
     wal log0 base (srv S) as \<and> hq_rep (table (srv S)) rs \<and>
     (\<forall>b \<in> set (held S). nh_heap (table (srv S)) b \<noteq> None) \<and>
     held_data (table (srv S)) (held S) @ map fst rs = map Some ps \<and>
     distinct (ps @ as @ base) \<and>
     (\<forall>p \<in> set ps. \<exists>n. kv_heap (table (srv S)) p = Some n \<and> (oper_flg n = 0 \<or> oper_flg n = 1))"

lemma wal_frame:
  assumes w: "wal log0 base s as" and a: "kv_heap (table s) a = None"
    and t: "kv_heap t = (kv_heap (table s))(a \<mapsto> n)" "hash_map t = hash_map (table s)"
  shows "wal log0 base (s\<lparr>table := t\<rparr>) as"
proof -
  have r: "kv_rep (table s) (as @ base)" using w by (simp add: wal_def)
  have ne: "x \<noteq> a" if "x \<in> set (as @ base)" for x using kv_rep_alloc [OF r that] a by auto
  then have at: "node_at t x = node_at (table s) x" if "x \<in> set (as @ base)" for x
    using that t(1) by (auto simp: node_at_def)
  have "kv_rep t (as @ base)"
  proof (rule kv_rep_cong_keys)
    fix i assume "i < TABLESIZE"
    let ?f = "filter (\<lambda>x. bucket_of (table s) x = i) (as @ base)"
    have "a \<notin> set ?f" using ne by auto
    from chain_frame [OF this] kv_repD [OF r \<open>i < TABLESIZE\<close>]
    show "chain kv_next (kv_heap t) (hash_map t ! i) ?f None" unfolding t by (rule iffD2)
  qed (use at r t in \<open>auto simp: bucket_of_def kv_rep_def\<close>)
  moreover have "concat (map (\<lambda>a. log_line (node_at t a)) (rev as)) =
      concat (map (\<lambda>a. log_line (node_at (table s) a)) (rev as))"
    by (intro arg_cong [of _ _ concat] map_cong [OF refl]) (simp add: at)
  ultimately show ?thesis using w by (simp add: wal_def)
qed

lemma held_data_cong:
  assumes "\<And>b. b \<in> set bs \<Longrightarrow> nh_heap s b \<noteq> None"
    and "\<And>b. b \<in> set bs \<Longrightarrow> map_option request_of (nh_heap t b) = map_option request_of (nh_heap s b)"
  shows "held_data t bs = held_data s bs" and "\<And>b. b \<in> set bs \<Longrightarrow> nh_heap t b \<noteq> None"
proof -
  have "\<exists>m n. nh_heap s b = Some n \<and> nh_heap t b = Some m \<and> nh_data m = nh_data n" if "b \<in> set bs" for b
    using assms(1) [OF that] assms(2) [OF that] by (auto simp: request_of_def map_option_case split: option.splits)
  then show "held_data t bs = held_data s bs" "\<And>b. b \<in> set bs \<Longrightarrow> nh_heap t b \<noteq> None"
    by (fastforce simp: held_data_def)+
qed

lemma kv_inv_connection:
  assumes inv: "kv_inv log0 base S as rs ps" and u: "unused env (table (srv S))"
    and h: "handle_client env fd errno as' (table (srv S)) = ret (t, acts, errno')"
  shows "\<exists>rs' ps'. kv_inv log0 base (S\<lparr>srv := (srv S)\<lparr>table := t\<rparr>, sent := out\<rparr>) as rs' ps'"
proof -
  let ?s = "table (srv S)"
  note i = inv [unfolded kv_inv_def]
  from handle_client_effect [OF h] consider "t = ?s" | a n where
    "node_mem env = Some a" "node_typed n"
    "enqueue_hash (hash_mem env) (Some a) fd (?s\<lparr>kv_heap := (kv_heap ?s)(a \<mapsto> n)\<rparr>) = ret t" by blast
  then show ?thesis
  proof cases
    case 1
    with inv show ?thesis by (intro exI [of _ rs] exI [of _ ps]) (simp add: kv_inv_def wal_def)
  next
    case (2 a n)
    let ?s' = "?s\<lparr>kv_heap := (kv_heap ?s)(a \<mapsto> n)\<rparr>"
    have a: "kv_heap ?s a = None" using u 2(1) by (simp add: unused_def)
    have q: "hq_rep ?s' rs" using i by (simp add: hq_rep_def)
    have eff: "kv_heap t = (kv_heap ?s)(a \<mapsto> n) \<and> hash_map t = hash_map ?s \<and>
        (\<exists>rs'. hq_rep t (rs @ rs') \<and> set rs' \<subseteq> {(Some a, fd)} \<and> length rs' \<le> 1)"
    proof (cases "hash_mem env")
      case None
      with 2(3) q show ?thesis by (auto simp: enqueue_hash_def intro!: exI [of _ "[]"])
    next
      case (Some b)
      with u have "hq_fresh b ?s'" by (simp add: unused_def hq_fresh_def)
      from enqueue_hash_rep [OF q this, of "Some a" fd] 2(3) Some show ?thesis
        by (auto simp: same_table_def intro!: exI [of _ "[(Some a, fd)]"])
    qed
    then obtain rs' where rs': "hq_rep t (rs @ rs')" "rs' = [] \<or> rs' = [(Some a, fd)]"
      by (auto simp: length_Suc_conv le_Suc_eq)
    have fr: "map_option request_of (nh_heap t b) = map_option request_of (nh_heap ?s b)"
      if "b \<in> set (held S)" for b
      using enqueue_hash_frame [OF 2(3), of b] that i u by (auto simp: unused_def)
    have hd: "held_data t (held S) = held_data ?s (held S)" "\<forall>b \<in> set (held S). nh_heap t b \<noteq> None"
      using held_data_cong [of "held S" ?s t] fr i by auto
    have na: "a \<notin> set ps" "a \<notin> set (as @ base)"
      using i a kv_rep_alloc [of ?s "as @ base" a] by (auto simp: wal_def)
    have "wal log0 base ((srv S)\<lparr>table := t\<rparr>) as"
      by (rule wal_frame) (use i a eff in auto)
    moreover have "held_data t (held S) @ map fst (rs @ rs') = map Some (ps @ map (the \<circ> fst) rs')"
      using i hd(1) rs'(2) by auto
    moreover have "distinct ((ps @ map (the \<circ> fst) rs') @ as @ base)"
      using i na rs'(2) by auto
    ultimately show ?thesis
      using rs' hd i eff na 2(2) [unfolded node_typed_def]
      by (intro exI [of _ "rs @ rs'"] exI [of _ "ps @ map (the \<circ> fst) rs'"]) (auto simp: kv_inv_def)
  qed
qed

lemma kv_inv_take:
  assumes inv: "kv_inv log0 base S as rs ps" and d: "dequeue_hash (table (srv S)) = ret (Some b, t)"
  shows "\<exists>rs'. kv_inv log0 base (S\<lparr>srv := (srv S)\<lparr>table := t\<rparr>, held := held S @ [b]\<rparr>) as rs' ps"
proof -
  let ?s = "table (srv S)"
  note i = inv [unfolded kv_inv_def]
  have "rs \<noteq> []" using d i dequeue_hash_nil [of ?s] by auto
  then obtain r rs' where rs: "rs = r # rs'" by (cases rs) auto
  with dequeue_hash_cons [of ?s r rs'] i d obtain n where
    n: "nh_heap t b = Some n" "request_of n = r" "hq_rep t rs'" "same_table ?s t" by auto
  have h: "nh_heap t = nh_heap ?s" using dequeue_hash_frame [OF d] .
  have "wal log0 base ((srv S)\<lparr>table := t\<rparr>) as"
    using i n(4) by (auto simp: wal_def same_table_def kv_rep_def bucket_of_def node_at_def)
  moreover have "held_data t (held S @ [b]) @ map fst rs' = map Some ps"
    using i n(1,2) rs h by (auto simp: held_data_def request_of_def)
  ultimately show ?thesis
    using i n h by (intro exI [of _ rs']) (auto simp: kv_inv_def same_table_def)
qed

lemma handle_hash_get_same:
  assumes "handle_hash mem (Some b) s = ret (s', acts)" and "nh_heap (table s) b = Some bn"
    and "nh_data bn = Some a" and "kv_heap (table s) a = Some n" and "oper_flg n = 0"
  shows "s' = s"
  using assms by (auto simp: handle_hash_def Let_def elim!: bindp_retE split: if_split_asm)

lemma held_data_split:
  assumes "held_data t bs @ qs = map Some ps" and "i < length bs"
  shows "nh_data (the (nh_heap t (bs ! i))) = Some (ps ! i)"
    and "held_data t (take i bs @ drop (Suc i) bs) @ qs = map Some (take i ps @ drop (Suc i) ps)"
    and "i < length ps"
proof -
  have l: "length bs \<le> length ps" using assms(1) by (metis held_data_def length_append length_map le_add1)
  with assms(2) show i: "i < length ps" by simp
  have "(held_data t bs @ qs) ! i = Some (ps ! i)" using i by (simp add: assms(1))
  then show "nh_data (the (nh_heap t (bs ! i))) = Some (ps ! i)"
    using assms(2) by (simp add: held_data_def nth_append)
  have "take i (held_data t bs @ qs) @ drop (Suc i) (held_data t bs @ qs) =
      map Some (take i ps @ drop (Suc i) ps)"
    by (simp add: assms(1) take_map drop_map)
  moreover have "take i (held_data t bs @ qs) @ drop (Suc i) (held_data t bs @ qs) =
      held_data t (take i bs @ drop (Suc i) bs) @ qs"
    using assms(2) by (simp add: held_data_def take_map drop_map)
  ultimately show "held_data t (take i bs @ drop (Suc i) bs) @ qs = map Some (take i ps @ drop (Suc i) ps)"
    by simp
qed

lemma drop_nth_facts:
  assumes "i < length ps" and "distinct (ps @ xs)"
  shows "distinct ((take i ps @ drop (Suc i) ps) @ xs)" and "ps ! i \<notin> set xs"
    and "ps ! i \<notin> set (take i ps @ drop (Suc i) ps)" and "set (take i ps @ drop (Suc i) ps) \<subseteq> set ps"
proof -
  have d: "distinct ((take i ps @ ps ! i # drop (Suc i) ps) @ xs)"
    using assms by (simp flip: id_take_nth_drop)
  then show "distinct ((take i ps @ drop (Suc i) ps) @ xs)" "ps ! i \<notin> set xs"
    "ps ! i \<notin> set (take i ps @ drop (Suc i) ps)" by auto
  show "set (take i ps @ drop (Suc i) ps) \<subseteq> set ps"
    using set_take_subset set_drop_subset by fastforce
qed

lemma kv_inv_serve:
  assumes inv: "kv_inv log0 base S as rs ps" and i: "i < length (held S)"
    and h: "handle_hash mem (Some (held S ! i)) (srv S) = ret (s', acts)"
  shows "\<exists>as' ps'. kv_inv log0 base
    (S\<lparr>srv := s', held := take i (held S) @ drop (Suc i) (held S), sent := out\<rparr>) as' rs ps'"
proof -
  let ?t = "table (srv S)" and ?p = "ps ! i" and ?ps = "take i ps @ drop (Suc i) ps"
    and ?held = "take i (held S) @ drop (Suc i) (held S)"
  note I = inv [unfolded kv_inv_def]
  from I have eq: "held_data ?t (held S) @ map fst rs = map Some ps" by blast
  note hd = held_data_split [OF eq i]
  from I have "distinct (ps @ as @ base)" by blast
  note dr = drop_nth_facts [OF hd(3) this]
  have b: "nh_heap ?t (held S ! i) = Some (the (nh_heap ?t (held S ! i)))" using I i by auto
  obtain n where n: "kv_heap ?t ?p = Some n" "oper_flg n = 0 \<or> oper_flg n = 1"
    using I hd(3) nth_mem by blast
  have held: "\<forall>b \<in> set ?held. nh_heap ?t b \<noteq> None"
    using I set_take_subset [of i "held S"] set_drop_subset [of "Suc i" "held S"] by auto
  from n(2) show ?thesis
  proof
    assume "oper_flg n = 0"
    with handle_hash_get_same [OF h b hd(1) n(1)] have "s' = srv S" by simp
    then show ?thesis
      using I hd(2) dr held by (intro exI [of _ as] exI [of _ ?ps]) (auto simp: kv_inv_def)
  next
    assume f: "oper_flg n = 1"
    have "wal log0 base (srv S) as" "?p \<notin> set (as @ base)" using I dr by auto
    from handle_hash_set [OF this(1) b hd(1) n(1) f this(2), of mem] h
    have s': "wal log0 base s' (?p # as)" "nh_heap (table s') = nh_heap ?t"
      "head_hash (table s') = head_hash ?t" "tail_hash (table s') = tail_hash ?t" and
      k: "\<forall>c. map_option (\<lambda>n. n\<lparr>kv_next := None\<rparr>) (kv_heap (table s') c) =
           map_option (\<lambda>n. n\<lparr>kv_next := None\<rparr>) (kv_heap ?t c)" by auto
    have "\<exists>m. kv_heap (table s') c = Some m \<and> oper_flg m = oper_flg n'" if "kv_heap ?t c = Some n'" for c n'
      using k [rule_format, of c] that by (auto dest: arg_cong [of _ _ oper_flg])
    then have "\<forall>c \<in> set ?ps. \<exists>n. kv_heap (table s') c = Some n \<and> (oper_flg n = 0 \<or> oper_flg n = 1)"
      using I dr(4) by (metis subsetD)
    moreover have "hq_rep (table s') rs" using I s'(2-4) by (simp add: hq_rep_def)
    moreover have "distinct (?ps @ (?p # as) @ base)" using dr by auto
    ultimately show ?thesis
      using s' hd(2) held
      by (intro exI [of _ "?p # as"] exI [of _ ?ps]) (auto simp: kv_inv_def held_data_def)
  qed
qed

lemma kv_inv_step: "kv_step S T \<Longrightarrow> kv_inv log0 base S as rs ps \<Longrightarrow> \<exists>as rs ps. kv_inv log0 base T as rs ps"
proof (induction rule: kv_step.induct)
  case (connection env S fd errno as' t acts errno')
  then show ?case using kv_inv_connection by blast
next
  case (take_request S b t)
  then show ?case using kv_inv_take by blast
next
  case (serve i S mem s' acts)
  then show ?case using kv_inv_serve by blast
qed

lemma kv_inv_reach:
  assumes "kv_reach t0 log0 S" and "kv_rep t0 base" and "hq_rep t0 []"
  shows "\<exists>as rs ps. kv_inv log0 base S as rs ps"
  using assms(1)
proof (induction rule: kv_reach.induct)
  case start
  have "kv_inv log0 base \<lparr>srv = \<lparr>table = t0, log_text = log0\<rparr>, held = [], sent = []\<rparr> [] [] []"
    using assms(2,3) kv_rep_distinct by (auto simp: kv_inv_def wal_def held_data_def)
  then show ?case by blast
next
  case (step S T)
  then show ?case using kv_inv_step by blast
qed

text \<open>What \<open>main\<close> does to the table before it accepts connections.\<close>

lemma kv_inv_server:
  assumes "init_hash_from_log mem flgs value (Some log0) (init_map kv_init) = ret t0"
    and "length value = 700" and "fresh_from mem 0 kv_init" and "kv_reach t0 log0 S"
  shows "\<exists>base as rs ps. kv_inv log0 base S as rs ps"
proof -
  have i: "init_map kv_init = kv_init" by (simp add: init_map_def kv_init_def)
  have "recover_loop mem flgs 0 log0 value kv_init = ret t0"
    using assms(1) by (simp add: i init_hash_from_log_def)
  with recover_loop_cases [OF kv_rep_init assms(2,3), of flgs log0]
  obtain base where "kv_rep t0 base" "same_queue kv_init t0" by auto
  moreover from this(2) have "hq_rep t0 []" by (simp add: same_queue_def hq_rep_def kv_init_def)
  ultimately show ?thesis using kv_inv_reach [OF assms(4)] by blast
qed

text \<open>
  Serving a request a worker holds: a set always succeeds, a get when the node it finds can be
  printed. No null pointer or freed node is met.
\<close>

lemma serve_held:
  assumes inv: "kv_inv log0 base S as rs ps" and i: "i < length (held S)" and mem: "gives mem"
    and ok: "\<forall>c \<in> set (as @ base). node_ok (node_at (table (srv S)) c) \<and>
      unat (user_size (node_at (table (srv S)) c)) < 10 ^ 13"
  shows "\<exists>s' fd reply. handle_hash mem (Some (held S ! i)) (srv S) = ret (s', [Send fd reply, Close fd])"
proof -
  let ?t = "table (srv S)" and ?p = "ps ! i"
  note I = inv [unfolded kv_inv_def]
  from I have eq: "held_data ?t (held S) @ map fst rs = map Some ps" by blast
  note hd = held_data_split [OF eq i]
  from I have "distinct (ps @ as @ base)" by blast
  note dr = drop_nth_facts [OF hd(3) this]
  have b: "nh_heap ?t (held S ! i) = Some (the (nh_heap ?t (held S ! i)))" using I i by auto
  obtain n where n: "kv_heap ?t ?p = Some n" "oper_flg n = 0 \<or> oper_flg n = 1"
    using I hd(3) nth_mem by blast
  from I have w: "wal log0 base (srv S) as" by blast
  then have r: "kv_rep ?t (as @ base)" by (simp add: wal_def)
  from n(2) show ?thesis
  proof
    assume f: "oper_flg n = 0"
    show ?thesis
    proof (cases "find (\<lambda>c. table_accepts (kv_key n) (table_key ?t c)) (as @ base)")
      case None
      then have "\<forall>c \<in> set (as @ base). \<not> table_accepts (kv_key n) (table_key ?t c)"
        by (auto simp: find_None_iff)
      from handle_hash_get_missing [OF r b hd(1) n(1) f this, of mem] show ?thesis by blast
    next
      case (Some c)
      then have "c \<in> set (as @ base)" by (metis find_Some_iff nth_mem)
      with ok have "node_ok (node_at ?t c)" "length (dec (unat (user_size (node_at ?t c)))) \<le> 13"
        by (auto simp: length_dec_le_iff)
      from handle_hash_get_found [OF r b hd(1) n(1) f Some mem this] show ?thesis by blast
    qed
  next
    assume f: "oper_flg n = 1"
    from handle_hash_set [OF w b hd(1) n(1) f dr(2), of mem] show ?thesis by blast
  qed
qed

section \<open>A request from end to end\<close>

text \<open>
  What an idle server does for one connection: a connection worker parses the request and
  queues it, a request worker takes it and serves it.
\<close>

definition serve_connection ::
  "client_env \<Rightarrow> (nat \<Rightarrow> string option) \<Rightarrow> int \<Rightarrow> errno \<Rightarrow> arrival list \<Rightarrow> server \<Rightarrow>
   (server \<times> action list) prog" where
  "serve_connection env mem fd errno as s =
     bindp (handle_client env fd errno as (table s)) (\<lambda>(t, acts, _).
     bindp (dequeue_hash t) (\<lambda>(p, t).
     if p = None then ret (s\<lparr>table := t\<rparr>, acts)
     else bindp (handle_hash mem p (s\<lparr>table := t\<rparr>)) (\<lambda>(s, acts').
       ret (s, acts @ acts'))))"

lemma dequeue_single:
  assumes "hq_rep t [r]"
  obtains p n t' where "dequeue_hash t = ret (Some p, t')" "nh_heap t' p = Some n" "request_of n = r"
    "hq_rep t' []" "kv_heap t' = kv_heap t" "hash_map t' = hash_map t"
  using dequeue_hash_cons [OF assms] by (auto simp: same_table_def)

text \<open>The only queue node a connection adds is the one \<open>malloc\<close> gave it.\<close>

lemma handle_client_queue_nodes:
  assumes "handle_client env fd errno as s = ret (t, acts, errno')" and "hash_mem env \<noteq> Some c"
    and "nh_heap s c = None"
  shows "nh_heap t c = None"
proof -
  have "enqueue_hash (hash_mem env) p fd s' = ret t \<Longrightarrow> nh_heap s' c = None \<Longrightarrow> nh_heap t c = None" for p s'
    using assms(2) by (auto simp: enqueue_hash_def Let_def heap_simps elim!: bindp_retE
        split: option.split_asm if_split_asm)
  with handle_client_effect [OF assms(1)] assms(3) show ?thesis by auto
qed

lemma serve_set:
  assumes mem: "gives (key_mem env)" "gives (buf_mem env)" "slack env \<noteq> []"
    "node_mem env = Some a" "hash_mem env = Some b" "unused env (table s)"
    and val: "val \<noteq> []" "length val < 10 ^ 8" "NUL \<notin> set val"
    and key: "length key < 10 ^ 6" "NUL \<notin> set key" and v: "v < 10 ^ 8"
    and w: "wal log0 base s as" and q: "hq_rep (table s) []"
  shows "\<exists>s'. serve_connection env m fd False [Bytes (''set'' @ CRLF @
        set_header v (length val) (length key) @ key @ CRLF @ val @ rest)] s =
      ret (s', [Send fd (''STORED'' @ CRLF), Close fd]) \<and> wal log0 base s' (a # as) \<and> hq_rep (table s') [] \<and>
    (\<exists>p. node_at (table s') a = \<lparr>kv_key = key, kv_value = CRLF @ val, value_size = of_nat (length val + 2),
       user_size = of_nat v, oper_flg = 1, kv_next = p\<rparr>) \<and>
    (\<forall>c. kv_heap (table s') c = None \<longleftrightarrow> c \<noteq> a \<and> kv_heap (table s) c = None) \<and>
    (\<forall>c. c \<noteq> b \<longrightarrow> nh_heap (table s) c = None \<longrightarrow> nh_heap (table s') c = None)"
proof -
  let ?t = "table s"
  let ?n = "\<lparr>kv_key = key, kv_value = CRLF @ val, value_size = of_nat (length val + 2), user_size = of_nat v,
    oper_flg = 1, kv_next = None\<rparr>"
  have a: "kv_heap ?t a = None" and b: "hq_fresh b ?t" using mem by (auto simp: unused_def hq_fresh_def)
  from handle_client_set [OF mem(1-5) b val key v q, of fd rest] obtain t1 where
    t1: "handle_client env fd False [Bytes (''set'' @ CRLF @
        set_header v (length val) (length key) @ key @ CRLF @ val @ rest)] ?t = ret (t1, [], False)"
      "hq_rep t1 [(Some a, fd)]" "hash_map t1 = hash_map ?t" "kv_heap t1 = (kv_heap ?t)(a \<mapsto> ?n)"
    by auto
  from t1(2) obtain p n t2 where t2: "dequeue_hash t1 = ret (Some p, t2)" "nh_heap t2 p = Some n"
    "request_of n = (Some a, fd)" "hq_rep t2 []" "kv_heap t2 = kv_heap t1" "hash_map t2 = hash_map t1"
    by (rule dequeue_single)
  have w2: "wal log0 base (s\<lparr>table := t2\<rparr>) as"
    by (rule wal_frame [OF w a]) (simp_all add: t2 t1)
  have n2: "kv_heap (table (s\<lparr>table := t2\<rparr>)) a = Some ?n" by (simp add: t2 t1)
  have "a \<notin> set (as @ base)" using w a kv_rep_alloc [of ?t "as @ base" a] by (auto simp: wal_def)
  from handle_hash_set [OF w2 _ _ n2 _ this, of p n m] t2(2,3) obtain s' where
    h: "handle_hash m (Some p) (s\<lparr>table := t2\<rparr>) = ret (s', [Send fd (''STORED'' @ CRLF), Close fd])"
    and w': "wal log0 base s' (a # as)" and nh: "nh_heap (table s') = nh_heap t2"
      "head_hash (table s') = head_hash t2" "tail_hash (table s') = tail_hash t2"
    and k: "\<And>c. map_option (\<lambda>n. n\<lparr>kv_next := None\<rparr>) (kv_heap (table s') c) =
           map_option (\<lambda>n. n\<lparr>kv_next := None\<rparr>) (kv_heap t2 c)" by (auto simp: request_of_def)
  have "serve_connection env m fd False [Bytes (''set'' @ CRLF @
        set_header v (length val) (length key) @ key @ CRLF @ val @ rest)] s =
      ret (s', [Send fd (''STORED'' @ CRLF), Close fd])"
    using t1(1) t2(1) h by (simp add: serve_connection_def)
  moreover have "hq_rep (table s') []" using t2(4) nh by (simp add: hq_rep_def)
  moreover have "\<exists>p. node_at (table s') a = ?n\<lparr>kv_next := p\<rparr>"
  proof -
    from k [of a] n2 obtain x where x: "kv_heap (table s') a = Some x" "x\<lparr>kv_next := None\<rparr> = ?n" by auto
    then have "x = ?n\<lparr>kv_next := kv_next x\<rparr>" by (cases x) simp
    with x(1) show ?thesis by (intro exI [of _ "kv_next x"]) (simp add: node_at_def)
  qed
  moreover have "kv_heap (table s') c = None \<longleftrightarrow> c \<noteq> a \<and> kv_heap ?t c = None" for c
    using k [of c] t1(4) t2(5) by (auto split: if_split_asm)
  moreover have "nh_heap (table s') c = None" if "c \<noteq> b" "nh_heap ?t c = None" for c
    using handle_client_queue_nodes [OF t1(1)] that mem(5) nh(1) dequeue_hash_frame [OF t2(1)] by auto
  ultimately show ?thesis using w' by simp
qed

lemma serve_get:
  assumes mem: "gives (buf_mem env)" "slack env \<noteq> []" "node_mem env = Some a" "hash_mem env = Some b"
    "unused env (table s)" "gives m"
    and key: "key \<noteq> []" "length key \<le> 10" "NUL \<notin> set key" "CR \<notin> set key" "LF \<notin> set key"
    and rest: "length key + 2 + length rest \<le> 12"
    and w: "wal log0 base s as" and q: "hq_rep (table s) []"
    and f: "find (\<lambda>c. table_accepts key (table_key (table s) c)) (as @ base) = Some c"
    and ok: "node_ok (node_at (table s) c)" "unat (user_size (node_at (table s) c)) < 10 ^ 13"
  shows "\<exists>s'. serve_connection env m fd errno [Bytes (''get'' @ CRLF @ key @ CRLF @ rest)] s =
      ret (s', [Send fd (reply_text (node_at (table s) c)), Close fd]) \<and> wal log0 base s' as \<and>
      hq_rep (table s') []"
proof -
  let ?t = "table s"
  let ?n = "\<lparr>kv_key = key, kv_value = [], value_size = 0, user_size = 0, oper_flg = 0, kv_next = None\<rparr>"
  have a: "kv_heap ?t a = None" and b: "hq_fresh b ?t" using mem by (auto simp: unused_def hq_fresh_def)
  from handle_client_get [OF mem(1-4) b key rest q, of fd errno] obtain t1 where
    t1: "handle_client env fd errno [Bytes (''get'' @ CRLF @ key @ CRLF @ rest)] ?t = ret (t1, [], errno)"
      "hq_rep t1 [(Some a, fd)]" "hash_map t1 = hash_map ?t" "kv_heap t1 = (kv_heap ?t)(a \<mapsto> ?n)"
    by auto
  from t1(2) obtain p n t2 where t2: "dequeue_hash t1 = ret (Some p, t2)" "nh_heap t2 p = Some n"
    "request_of n = (Some a, fd)" "hq_rep t2 []" "kv_heap t2 = kv_heap t1" "hash_map t2 = hash_map t1"
    by (rule dequeue_single)
  let ?s2 = "s\<lparr>table := t2\<rparr>"
  have w2: "wal log0 base ?s2 as" by (rule wal_frame [OF w a]) (simp_all add: t2 t1)
  have r: "kv_rep ?t (as @ base)" using w by (simp add: wal_def)
  have at: "node_at t2 x = node_at ?t x" if "x \<in> set (as @ base)" for x
    using kv_rep_alloc [OF r that] a by (auto simp: node_at_def t2 t1)
  have c: "c \<in> set (as @ base)" using f by (metis find_Some_iff nth_mem)
  have "find (\<lambda>c. table_accepts key (table_key t2 c)) (as @ base) =
      find (\<lambda>c. table_accepts key (table_key ?t c)) (as @ base)"
    by (rule find_cong [OF refl]) (simp add: table_key_def at)
  with f have "find (\<lambda>c. table_accepts key (table_key t2 c)) (as @ base) = Some c" by simp
  moreover have n2: "kv_heap (table ?s2) a = Some ?n" by (simp add: t2 t1)
  moreover have "node_ok (node_at (table ?s2) c)" "length (dec (unat (user_size (node_at (table ?s2) c)))) \<le> 13"
    using ok at [OF c] by (simp_all add: length_dec_le_iff)
  ultimately have "handle_hash m (Some p) ?s2 = ret (?s2, [Send fd (reply_text (node_at ?t c)), Close fd])"
    using handle_hash_get_found [of ?s2 "as @ base" p n a ?n c m] w2 t2(2,3) mem(6) at [OF c]
    by (simp add: wal_def request_of_def)
  then have "serve_connection env m fd errno [Bytes (''get'' @ CRLF @ key @ CRLF @ rest)] s =
      ret (?s2, [Send fd (reply_text (node_at ?t c)), Close fd])"
    using t1(1) t2(1) by (simp add: serve_connection_def)
  with w2 t2(4) show ?thesis by (intro exI [of _ ?s2]) simp
qed

section \<open>Properties\<close>

text \<open>
  C1: a value that is set can be got back: the client's set command, sent in one piece to an
  idle server, is answered \<open>STORED\<close>, and the client's get command for the same key is then
  answered with the key, the size the user gave and the value, whatever else the table holds.
  The value comes with the line end that was stored in front of it. The key has at most the
  three bytes for which the client's buffer is large enough.
\<close>

theorem set_then_get:
  assumes cmd: "strtoul size_arg = (of_nat v, False)" "0 < v" "v < 10 ^ 8" "length val + 2 \<le> v"
      "val \<noteq> []" "NUL \<notin> set val"
    and key: "key \<noteq> []" "length key \<le> 3" "NUL \<notin> set key" "CR \<notin> set key" "LF \<notin> set key"
    and env1: "gives (key_mem e1)" "gives (buf_mem e1)" "slack e1 \<noteq> []" "node_mem e1 = Some a1"
      "hash_mem e1 = Some b1" "unused e1 (table s)"
    and env2: "gives (buf_mem e2)" "slack e2 \<noteq> []" "node_mem e2 = Some a2" "hash_mem e2 = Some b2"
      "unused e2 (table s)" "a2 \<noteq> a1" "b2 \<noteq> b1" "gives mem"
    and inv: "wal log0 base s as" "hq_rep (table s) []"
  shows "\<exists>w1 w2 s1. client_request [prog, ''set'', key, size_arg, val] False = ret (Client_request w1) \<and>
    client_request [prog, ''get'', key] errno = ret (Client_request w2) \<and>
    serve_connection e1 mem fd1 False [Bytes w1] s = ret (s1, [Send fd1 (''STORED'' @ CRLF), Close fd1]) \<and>
    (\<exists>s2. serve_connection e2 mem fd2 errno [Bytes w2] s1 =
       ret (s2, [Send fd2 (''VALUE '' @ key @ '' '' @ dec v @ CRLF @ val @ CRLF @ ''END'' @ CRLF), Close fd2]))"
proof -
  have v: "length val < 10 ^ 8" and u: "unat (of_nat v :: size_t) = v"
    using cmd(3,4) by (simp_all add: unat_of_nat)
  have nz: "(of_nat v :: size_t) \<noteq> 0" using u cmd(2) by (metis not_gr_zero unsigned_0)
  let ?r1 = "replicate (4 - length key) NUL" and ?r2 = "replicate (6 - length key) NUL"
  have w1: "client_request [prog, ''set'', key, size_arg, val] False =
      ret (Client_request (''set'' @ CRLF @ set_header v (length val) (length key) @ key @ CRLF @ val @ CRLF @ ?r1))"
    using client_set_wire_eq [of size_arg "of_nat v" val key prog] cmd key u nz
    by (simp add: set_wire_def set_header_def)
  have w2: "client_request [prog, ''get'', key] errno =
      ret (Client_request (''get'' @ CRLF @ key @ CRLF @ ?r2))"
    using client_get_wire_eq [of prog key errno] key by simp
  have k6: "length key < 10 ^ 6" using key(2) by simp
  from serve_set [OF env1 cmd(5) v cmd(6) k6 key(3) cmd(3) inv, of mem fd1 "CRLF @ ?r1"]
  obtain s1 p where
    s1: "serve_connection e1 mem fd1 False [Bytes (''set'' @ CRLF @ set_header v (length val) (length key) @
        key @ CRLF @ val @ CRLF @ ?r1)] s = ret (s1, [Send fd1 (''STORED'' @ CRLF), Close fd1])"
      "wal log0 base s1 (a1 # as)" "hq_rep (table s1) []"
      "node_at (table s1) a1 = \<lparr>kv_key = key, kv_value = CRLF @ val, value_size = of_nat (length val + 2),
       user_size = of_nat v, oper_flg = 1, kv_next = p\<rparr>"
      "\<And>c. kv_heap (table s1) c = None \<longleftrightarrow> c \<noteq> a1 \<and> kv_heap (table s) c = None"
      "\<And>c. c \<noteq> b1 \<Longrightarrow> nh_heap (table s) c = None \<Longrightarrow> nh_heap (table s1) c = None" by blast
  have un: "unused e2 (table s1)" using env2(3-7) s1(5,6) by (auto simp: unused_def)
  have "find (\<lambda>c. table_accepts key (table_key (table s1) c)) ((a1 # as) @ base) = Some a1"
    using s1(4) by (simp add: table_key_def table_accepts_def)
  moreover have "node_ok (node_at (table s1) a1)" "unat (user_size (node_at (table s1) a1)) < 10 ^ 13"
    using s1(4) cmd key v u by (simp_all add: node_ok_def reply_lengths CRLF_def unat_word_ariths unat_of_nat)
  moreover have "reply_text (node_at (table s1) a1) =
      ''VALUE '' @ key @ '' '' @ dec v @ CRLF @ val @ CRLF @ ''END'' @ CRLF"
    using s1(4) u by (simp add: reply_text_def reply_head_def reply_tail_def)
  moreover have "length key \<le> 10" "length key + 2 + length ?r2 \<le> 12" using key(2) by simp_all
  ultimately have "\<exists>s2. serve_connection e2 mem fd2 errno [Bytes (''get'' @ CRLF @ key @ CRLF @ ?r2)] s1 =
      ret (s2, [Send fd2 (''VALUE '' @ key @ '' '' @ dec v @ CRLF @ val @ CRLF @ ''END'' @ CRLF), Close fd2])"
    using serve_get [OF env2(1-4) un env2(8) key(1) _ key(3-5) _ s1(2,3), of ?r2 a1 fd2 errno] by fastforce
  then show ?thesis using w1 w2 s1(1) by blast
qed

theorem set_then_get_witness:
  "\<exists>w1 w2 s1. client_request [''client'', ''set'', ''ab'', ''9'', ''hello''] False = ret (Client_request w1) \<and>
    client_request [''client'', ''get'', ''ab''] True = ret (Client_request w2) \<and>
    serve_connection sample_env (\<lambda>n. Some (replicate n NUL)) 8 False [Bytes w1]
      \<lparr>table = kv_init, log_text = []\<rparr> = ret (s1, [Send 8 (''STORED'' @ CRLF), Close 8]) \<and>
    (\<exists>s2. serve_connection (sample_env\<lparr>node_mem := Some 23, hash_mem := Some 24\<rparr>)
      (\<lambda>n. Some (replicate n NUL)) 9 True [Bytes w2] s1 =
       ret (s2, [Send 9 (''VALUE ab '' @ dec 9 @ CRLF @ ''hello'' @ CRLF @ ''END'' @ CRLF), Close 9]))"
proof -
  let ?s = "\<lparr>table = kv_init, log_text = []\<rparr>"
  have "strtoul ''9'' = (of_nat 9, False)"
    by (simp add: strtoul_def scan_int_def scan_sign_def is_space_def is_digit_def num_of_def digit_val_def
        ulong_of_def)
  moreover have "wal [] [] ?s []" "hq_rep (table ?s) []"
    by (simp_all add: wal_def kv_rep_init hq_rep_init)
  moreover have "unused sample_env (table ?s)"
    "unused (sample_env\<lparr>node_mem := Some 23, hash_mem := Some 24\<rparr>) (table ?s)"
    by (simp_all add: unused_def kv_init_def)
  moreover have "gives (\<lambda>n. Some (replicate n NUL))" by (simp add: gives_def)
  ultimately show ?thesis
    using set_then_get [of "''9''" 9 "''hello''" "''ab''" sample_env 21 22 ?s
        "sample_env\<lparr>node_mem := Some 23, hash_mem := Some 24\<rparr>" 23 24 "\<lambda>n. Some (replicate n NUL)"
        "[]" "[]" "[]" "''client''" True 8 9] sample_env_gives
    by simp
qed

text \<open>A state in which a worker holds a set request.\<close>

lemma sample_held:
  "\<exists>S. kv_reach kv_init [] S \<and> 0 < length (held S) \<and>
    (\<forall>c n. kv_heap (table (srv S)) c = Some n \<longrightarrow> node_ok n \<and> unat (user_size n) < 10 ^ 13)"
proof -
  let ?S = "\<lparr>srv = \<lparr>table = kv_init, log_text = []\<rparr>, held = [], sent = []\<rparr>"
  have "hq_fresh 22 kv_init" by (simp add: hq_fresh_def kv_init_def)
  with handle_client_set [OF sample_env_gives _ _ _ _ _ _ _ hq_rep_init, of "''hello''" "''ab''" 9 8 "[]"]
  obtain as t where t: "handle_client sample_env 8 False as kv_init = ret (t, [], False)"
    "hq_rep t [(Some 21, 8)]" "kv_heap t = [21 \<mapsto> \<lparr>kv_key = ''ab'', kv_value = CRLF @ ''hello'',
       value_size = of_nat (length ''hello'' + 2), user_size = of_nat 9, oper_flg = 1, kv_next = None\<rparr>]"
    by (auto simp: kv_init_def)
  from t(2) obtain p n u where u: "dequeue_hash t = ret (Some p, u)" "kv_heap u = kv_heap t"
    by (rule dequeue_single)
  have "kv_step ?S (?S\<lparr>srv := (srv ?S)\<lparr>table := t\<rparr>, sent := sent ?S @ []\<rparr>)"
    by (rule kv_step.connection [of sample_env]) (use t(1) in \<open>simp_all add: unused_def kv_init_def\<close>)
  from kv_reach.step [OF kv_reach.start this]
  have r: "kv_reach kv_init [] \<lparr>srv = \<lparr>table = t, log_text = []\<rparr>, held = [], sent = []\<rparr>" by simp
  from kv_reach.step [OF r kv_step.take_request [of _ p u]] u(1)
  have "kv_reach kv_init [] \<lparr>srv = \<lparr>table = u, log_text = []\<rparr>, held = [p], sent = []\<rparr>" by simp
  moreover have "\<forall>c n. kv_heap u c = Some n \<longrightarrow> node_ok n \<and> unat (user_size n) < 10 ^ 13"
    by (auto simp: u t node_ok_def reply_lengths CRLF_def split: if_split_asm)
  ultimately show ?thesis by (intro exI conjI) (assumption, auto)
qed

lemma sample_start:
  "init_hash_from_log (\<lambda>i. Some (30 + i)) (\<lambda>i. 0) (replicate 700 NUL) (Some []) (init_map kv_init) = ret kv_init"
  "fresh_from (\<lambda>i. Some (30 + i)) 0 kv_init"
  by (simp add: init_hash_from_log_def recover_loop.simps init_map_def kv_init_def)
    (simp add: fresh_from_def kv_init_def)



end
