(* ===== verification/KvMain.thy ===== *)
theory KvMain
  imports KvSystem ThreadQueue NetSetup "HOL-Library.Multiset"
begin

text \<open>
  The program \<open>server_mt.c\<close>: \<open>main\<close> sets up the socket, opens the log, rebuilds the table and
  accepts connections; the connection workers and the request workers run beside it. The state adds to that
  of \<open>KvSystem\<close> the queue of connections, the \<open>malloc\<close>ed cells with their descriptors, the
  socket calls the workers have still to make and the descriptors the process has open, so that the
  lemmas can follow every descriptor from \<open>accept\<close> to \<open>close\<close>.
\<close>

section \<open>The state\<close>

datatype event =
    Accepted int    \<comment> \<open>\<open>accept\<close> returned this descriptor\<close>
  | Did action      \<comment> \<open>a worker made this socket call\<close>

record kv_main =
  core :: kv_sys
  conns :: thread_queue
  cells :: "int heap"
  busy :: "addr list"                  \<comment> \<open>cells that connection workers have taken and not yet read\<close>
  conn_acts :: "action list list"      \<comment> \<open>what the connection workers have still to do to sockets\<close>
  hash_acts :: "action list list"      \<comment> \<open>the same for the request workers\<close>
  open_fds :: "int list"
  trace :: "event list"

section \<open>Starting\<close>

text \<open>
  \<open>init_log\<close>: the file is opened for appending, and created if it does not exist (\<open>None\<close>). The result is
  its content.
\<close>

definition init_log :: "bool \<Rightarrow> string option \<Rightarrow> string prog" where
  "init_log opens log_file =
     (if opens then ret (case log_file of None \<Rightarrow> [] | Some content \<Rightarrow> content) else stop_with Exited)"

text \<open>
  \<open>main\<close> up to the accept loop. \<open>reads\<close>: the log can also be opened for reading. \<open>fds\<close> are the
  descriptors the process was started with.
\<close>

definition kv_server_main ::
  "os \<Rightarrow> bool \<Rightarrow> bool \<Rightarrow> string option \<Rightarrow> (nat \<Rightarrow> ptr) \<Rightarrow> (nat \<Rightarrow> 8 word) \<Rightarrow> string \<Rightarrow> int list \<Rightarrow>
   (int + kv_main) prog" where
  "kv_server_main env opens reads log_file mem flgs value fds =
     (let s = init_map kv_init in
      bindp (kv_server_socket env) (\<lambda>r. case r of
        Inl status \<Rightarrow> ret (Inl (- 1))
      | Inr (sockfd, acts) \<Rightarrow>
          bindp (init_log opens log_file) (\<lambda>content.
          bindp (init_hash_from_log mem flgs value (if reads then Some content else None) s) (\<lambda>s.
          ret (Inr \<lparr>core = \<lparr>srv = \<lparr>table = s, log_text = content\<rparr>, held = [], sent = []\<rparr>,
            conns = tq_init, cells = Map.empty, busy = [], conn_acts = [], hash_acts = [],
            open_fds = fds @ still_open acts, trace = []\<rparr>)))))"

section \<open>The threads\<close>

text \<open>
  One pass of the accept loop: \<open>node\<close> and \<open>cell\<close> are what \<open>malloc\<close> answers. A failed \<open>accept\<close> is
  tried again.
\<close>

definition accept_client :: "ptr \<Rightarrow> ptr \<Rightarrow> int \<Rightarrow> kv_main \<Rightarrow> kv_main prog" where
  "accept_client node cell newfd M =
     (if newfd = - 1 then ret M
      else case cell of
        None \<Rightarrow> stop_with Null_deref
      | Some c \<Rightarrow>
          bindp (tq_enqueue node cell (conns M)) (\<lambda>q.
          ret (M\<lparr>conns := q, cells := (cells M)(c \<mapsto> newfd), open_fds := open_fds M @ [newfd],
                 trace := trace M @ [Accepted newfd]\<rparr>)))"

text \<open>\<open>client_threads\<close>: a worker takes a connection, if there is one.\<close>

definition take_client :: "kv_main \<Rightarrow> kv_main prog" where
  "take_client M =
     bindp (tq_dequeue (conns M)) (\<lambda>(client_sock, q).
     ret (M\<lparr>conns := q, busy := busy M @ (case client_sock of None \<Rightarrow> [] | Some c \<Rightarrow> [c])\<rparr>))"

text \<open>
  The worker that has taken the cell in place \<open>i\<close> of \<open>busy\<close> reads and frees it and handles the
  connection. What it sends and closes at the end becomes what it has still to do.
\<close>

definition drop_nth :: "nat \<Rightarrow> 'a list \<Rightarrow> 'a list" where
  "drop_nth i xs = take i xs @ drop (Suc i) xs"

definition client_worker :: "client_env \<Rightarrow> errno \<Rightarrow> arrival list \<Rightarrow> nat \<Rightarrow> kv_main \<Rightarrow> kv_main prog" where
  "client_worker env errno as i M =
     (let client_fd_ptr = Some (busy M ! i); S = core M in
      bindp (load (cells M) client_fd_ptr) (\<lambda>client_fd.
      bindp (release (cells M) client_fd_ptr) (\<lambda>h.
      bindp (handle_client env client_fd errno as (table (srv S))) (\<lambda>(t, acts, _).
      ret (M\<lparr>core := S\<lparr>srv := (srv S)\<lparr>table := t\<rparr>, sent := sent S @ acts\<rparr>, cells := h,
             busy := drop_nth i (busy M), conn_acts := conn_acts M @ [acts]\<rparr>)))))"

text \<open>\<open>hash_threads\<close>: a worker takes a request, if there is one, and serves it.\<close>

definition take_hash :: "kv_main \<Rightarrow> kv_main prog" where
  "take_hash M =
     (let S = core M in
      bindp (dequeue_hash (table (srv S))) (\<lambda>(tmp, t).
      ret (M\<lparr>core := S\<lparr>srv := (srv S)\<lparr>table := t\<rparr>,
             held := held S @ (case tmp of None \<Rightarrow> [] | Some p \<Rightarrow> [p])\<rparr>\<rparr>)))"

definition hash_worker :: "(nat \<Rightarrow> string option) \<Rightarrow> nat \<Rightarrow> kv_main \<Rightarrow> kv_main prog" where
  "hash_worker mem i M =
     (let S = core M in
      bindp (handle_hash mem (Some (held S ! i)) (srv S)) (\<lambda>(s, acts).
      ret (M\<lparr>core := S\<lparr>srv := s, held := drop_nth i (held S), sent := sent S @ acts\<rparr>,
             hash_acts := hash_acts M @ [acts]\<rparr>)))"

text \<open>The socket calls.\<close>

fun do_action :: "action \<Rightarrow> kv_main \<Rightarrow> kv_main" where
  "do_action (Send fd m) M = M\<lparr>trace := trace M @ [Did (Send fd m)]\<rparr>"
| "do_action (Close fd) M =
     M\<lparr>open_fds := removeAll fd (open_fds M), trace := trace M @ [Did (Close fd)]\<rparr>"

text \<open>Workers that have something left to do.\<close>

definition at_work :: "action list list \<Rightarrow> nat" where
  "at_work ws = length (filter (\<lambda>acts. acts \<noteq> []) ws)"

text \<open>
  The threads interleave. The allocator answers addresses not in use and \<open>accept\<close> a descriptor
  that is not open; a worker takes a new item only when it is done with the last one.
\<close>

inductive kv_main_step :: "kv_main \<Rightarrow> kv_main \<Rightarrow> bool" where
  accept: "(\<forall>a. node = Some a \<longrightarrow> tq_fresh a (conns M)) \<Longrightarrow> (\<forall>c. cell = Some c \<longrightarrow> cells M c = None) \<Longrightarrow>
     newfd \<notin> set (open_fds M) \<Longrightarrow> accept_client node cell newfd M = ret N \<Longrightarrow> kv_main_step M N"
| take_connection: "length (busy M) + at_work (conn_acts M) < CLIENTPOOL \<Longrightarrow> take_client M = ret N \<Longrightarrow>
     kv_main_step M N"
| connection: "i < length (busy M) \<Longrightarrow> unused env (table (srv (core M))) \<Longrightarrow>
     client_worker env errno as i M = ret N \<Longrightarrow> kv_main_step M N"
| connection_call: "i < length (conn_acts M) \<Longrightarrow> conn_acts M ! i = a # acts \<Longrightarrow>
     kv_main_step M (do_action a (M\<lparr>conn_acts := (conn_acts M)[i := acts]\<rparr>))"
| take_request: "length (held (core M)) + at_work (hash_acts M) < HASHPOOL \<Longrightarrow> take_hash M = ret N \<Longrightarrow>
     kv_main_step M N"
| request: "i < length (held (core M)) \<Longrightarrow> hash_worker mem i M = ret N \<Longrightarrow> kv_main_step M N"
| request_call: "i < length (hash_acts M) \<Longrightarrow> hash_acts M ! i = a # acts \<Longrightarrow>
     kv_main_step M (do_action a (M\<lparr>hash_acts := (hash_acts M)[i := acts]\<rparr>))"

inductive kv_run :: "kv_main \<Rightarrow> kv_main \<Rightarrow> bool" for M where
  here: "kv_run M M"
| step: "kv_run M N \<Longrightarrow> kv_main_step N P \<Longrightarrow> kv_run M P"

lemma kv_run_trans: "kv_run N P \<Longrightarrow> kv_run M N \<Longrightarrow> kv_run M P"
  by (induction rule: kv_run.induct) (auto intro: kv_run.step)

section \<open>The threads refine the steps of the shared state\<close>

lemma drop_nth_held: "take i xs @ drop (Suc i) xs = drop_nth i xs"
  by (simp add: drop_nth_def)

lemma core_do_action [simp]: "core (do_action a M) = core M"
  by (cases a) auto

lemma dequeue_hash_none: "dequeue_hash s = ret (None, t) \<Longrightarrow> t = s"
  by (auto simp: dequeue_hash_def Let_def elim!: bindp_retE split: if_splits)

lemma kv_main_step_core: "kv_main_step M N \<Longrightarrow> core N = core M \<or> kv_step (core M) (core N)"
proof (induction rule: kv_main_step.induct)
  case (accept node M cell newfd N)
  then show ?case by (auto simp: accept_client_def elim!: bindp_retE split: if_splits option.splits)
next
  case (take_connection M N)
  then show ?case by (auto simp: take_client_def elim!: bindp_retE)
next
  case (connection i M env errno as N)
  then show ?case
    by (auto simp: client_worker_def Let_def elim!: bindp_retE intro!: kv_step.connection [of env])
next
  case (take_request M N)
  then obtain p t where t: "dequeue_hash (table (srv (core M))) = ret (p, t)"
    "core N = core M\<lparr>srv := (srv (core M))\<lparr>table := t\<rparr>, held := held (core M) @ (case p of None \<Rightarrow> [] | Some p \<Rightarrow> [p])\<rparr>"
    by (auto simp: take_hash_def Let_def elim!: bindp_retE)
  show ?case
  proof (cases p)
    case None
    with t dequeue_hash_none [of "table (srv (core M))" t] show ?thesis by simp
  next
    case (Some b)
    with t kv_step.take_request [of "core M" b t] show ?thesis by simp
  qed
next
  case (request i M mem N)
  then show ?case
    by (auto simp: hash_worker_def Let_def drop_nth_def elim!: bindp_retE intro!: kv_step.serve [of _ _ mem])
qed simp_all

lemma kv_run_core:
  "kv_run M N \<Longrightarrow> kv_reach t0 log0 (core M) \<Longrightarrow> kv_reach t0 log0 (core N)"
  by (induction rule: kv_run.induct) (auto dest!: kv_main_step_core intro: kv_reach.step)

section \<open>The start\<close>

lemma kv_server_mainD:
  assumes "kv_server_main env opens reads log_file mem flgs value fds = ret (Inr M)"
  obtains t where
    "init_hash_from_log mem flgs value (if reads then Some (case log_file of None \<Rightarrow> [] | Some c \<Rightarrow> c) else None)
       (init_map kv_init) = ret t"
    "core M = \<lparr>srv = \<lparr>table = t, log_text = (case log_file of None \<Rightarrow> [] | Some c \<Rightarrow> c)\<rparr>, held = [], sent = []\<rparr>"
    "conns M = tq_init" "cells M = Map.empty" "busy M = []" "conn_acts M = []" "hash_acts M = []" "trace M = []"
  using assms
  by (auto simp: kv_server_main_def init_log_def Let_def elim!: bindp_retE split: sum.split_asm if_split_asm)

lemma recovered_table:
  assumes "init_hash_from_log mem flgs value log_file (init_map kv_init) = ret t"
    and "length value = 700" and "fresh_from mem 0 kv_init"
  shows "\<exists>base. kv_rep t base \<and> hq_rep t []"
proof -
  have i: "init_map kv_init = kv_init" by (simp add: init_map_def kv_init_def)
  show ?thesis
  proof (cases log_file)
    case None
    with assms(1) have "t = kv_init" by (simp add: i init_hash_from_log_def)
    with kv_rep_init hq_rep_init show ?thesis by blast
  next
    case (Some log)
    with assms(1) have "recover_loop mem flgs 0 log value kv_init = ret t"
      by (simp add: i init_hash_from_log_def)
    with recover_loop_cases [OF kv_rep_init assms(2,3), of flgs log]
    obtain base where "kv_rep t base" "same_queue kv_init t" by auto
    moreover from this(2) have "hq_rep t []" by (simp add: same_queue_def hq_rep_def kv_init_def)
    ultimately show ?thesis by blast
  qed
qed

section \<open>The pools are not exceeded\<close>

definition pools_ok :: "kv_main \<Rightarrow> bool" where
  "pools_ok M \<longleftrightarrow> length (busy M) + at_work (conn_acts M) \<le> CLIENTPOOL \<and>
     length (held (core M)) + at_work (hash_acts M) \<le> HASHPOOL"

lemma at_work_snoc: "at_work (ws @ [acts]) \<le> Suc (at_work ws)"
  by (simp add: at_work_def)

lemma at_work_update:
  assumes "i < length ws" and "ws ! i = a # acts"
  shows "at_work (ws[i := acts]) \<le> at_work ws"
proof -
  have "at_work ws = at_work (take i ws @ ws ! i # drop (Suc i) ws)" using id_take_nth_drop [OF assms(1)] by simp
  then show ?thesis using assms by (simp add: upd_conv_take_nth_drop at_work_def)
qed

lemma length_drop_nth: "i < length xs \<Longrightarrow> length xs = Suc (length (drop_nth i xs))"
  by (simp add: drop_nth_def)

lemma do_action_fields [simp]:
  "busy (do_action a M) = busy M" "conn_acts (do_action a M) = conn_acts M" "hash_acts (do_action a M) = hash_acts M"
  by (cases a; simp)+

lemma pools_ok_step: "kv_main_step M N \<Longrightarrow> pools_ok M \<Longrightarrow> pools_ok N"
proof (induction rule: kv_main_step.induct)
  case (accept node M cell newfd N)
  then show ?case by (auto simp: accept_client_def pools_ok_def elim!: bindp_retE split: if_splits option.splits)
next
  case (take_connection M N)
  then show ?case by (auto simp: take_client_def pools_ok_def elim!: bindp_retE split: option.splits)
next
  case (connection i M env errno as N)
  then obtain t acts where "core N = core M\<lparr>srv := (srv (core M))\<lparr>table := t\<rparr>, sent := sent (core M) @ acts\<rparr>"
    "busy N = drop_nth i (busy M)" "conn_acts N = conn_acts M @ [acts]" "hash_acts N = hash_acts M"
    by (auto simp: client_worker_def Let_def elim!: bindp_retE)
  with connection(4) length_drop_nth [OF connection(1)] at_work_snoc [of "conn_acts M" acts] show ?case
    by (simp add: pools_ok_def)
next
  case (connection_call i M a acts)
  with at_work_update [OF connection_call(1,2)] show ?case by (simp add: pools_ok_def)
next
  case (take_request M N)
  then show ?case by (auto simp: take_hash_def Let_def pools_ok_def elim!: bindp_retE split: option.splits)
next
  case (request i M mem N)
  then obtain acts where "held (core N) = drop_nth i (held (core M))" "busy N = busy M" "conn_acts N = conn_acts M"
    "hash_acts N = hash_acts M @ [acts]"
    by (auto simp: hash_worker_def Let_def elim!: bindp_retE)
  with request(3) length_drop_nth [OF request(1)] at_work_snoc [of "hash_acts M" acts] show ?case
    by (simp add: pools_ok_def)
next
  case (request_call i M a acts)
  with at_work_update [OF request_call(1,2)] show ?case by (simp add: pools_ok_def)
qed

lemma pools_ok_run: "kv_run M N \<Longrightarrow> pools_ok M \<Longrightarrow> pools_ok N"
  by (induction rule: kv_run.induct) (auto intro: pools_ok_step)

text \<open>Runs of a started server: it accepts a connection and hands it to a worker.\<close>

lemma accept_and_take:
  assumes "conns M = tq_init" "cells M c = None" "fd \<notin> set (open_fds M)" "fd \<noteq> - 1" "busy M = []" "at_work (conn_acts M) < CLIENTPOOL"
  shows "kv_run M (M\<lparr>cells := (cells M)(c \<mapsto> fd), busy := [c], open_fds := open_fds M @ [fd], trace := trace M @ [Accepted fd]\<rparr>)"
proof -
  let ?q = "\<lparr>tq_heap = [1 \<mapsto> \<lparr>tq_next = None, client_fd = Some c\<rparr>], tq_head = Some 1, tq_tail = Some 1\<rparr>"
  let ?M1 = "M\<lparr>conns := ?q, cells := (cells M)(c \<mapsto> fd), open_fds := open_fds M @ [fd], trace := trace M @ [Accepted fd]\<rparr>"
  have "kv_main_step M ?M1"
    by (rule kv_main_step.accept [of "Some 1" _ "Some c" fd])
      (use assms in \<open>simp_all add: tq_fresh_def tq_init_def accept_client_def tq_enqueue_def\<close>)
  moreover have "kv_main_step ?M1 (?M1\<lparr>conns := tq_init, busy := [c]\<rparr>)"
    by (rule kv_main_step.take_connection)
      (use assms in \<open>simp_all add: take_client_def tq_dequeue_def tq_init_def\<close>)
  ultimately have "kv_run M (?M1\<lparr>conns := tq_init, busy := [c]\<rparr>)" by (meson kv_run.here kv_run.step)
  moreover have "?M1\<lparr>conns := tq_init, busy := [c]\<rparr> =
      M\<lparr>cells := (cells M)(c \<mapsto> fd), busy := [c], open_fds := open_fds M @ [fd], trace := trace M @ [Accepted fd]\<rparr>"
    using assms(1) by (cases M) simp
  ultimately show ?thesis by simp
qed

section \<open>Properties\<close>

text \<open>
  C2: the whole program, from \<open>main\<close> on: once it is set up, every state its threads reach, in any
  interleaving and with any input, is a state of the shared data that the steps of \<open>KvSystem\<close> reach from
  the recovered table. There the table is a set of disjoint chains, the log has exactly one line for each
  node the table has gained, in order, the request queue is intact, and the requests that are queued or in
  work refer to distinct nodes that exist, are not in the table and carry a get or set flag. No more
  connections are in work than there are connection workers, and no more requests than request workers.
\<close>

theorem program_refines_server:
  assumes "kv_server_main env opens reads log_file imem flgs value fds = ret (Inr M0)"
    and "length value = 700" and "fresh_from imem 0 kv_init" and "kv_run M0 M"
  defines "log0 \<equiv> case log_file of None \<Rightarrow> [] | Some c \<Rightarrow> c" and "S \<equiv> core M"
  shows "kv_reach (table (srv (core M0))) log0 S \<and>
    (\<exists>base as rs ps. kv_rep (table (srv S)) (as @ base) \<and>
       log_text (srv S) = log0 @ concat (map (\<lambda>a. log_line (node_at (table (srv S)) a)) (rev as)) \<and>
       hq_rep (table (srv S)) rs \<and>
       held_data (table (srv S)) (held S) @ map fst rs = map Some ps \<and> distinct (ps @ as @ base) \<and>
       (\<forall>p \<in> set ps. \<exists>n. kv_heap (table (srv S)) p = Some n \<and> (oper_flg n = 0 \<or> oper_flg n = 1))) \<and>
    length (busy M) \<le> CLIENTPOOL \<and> length (held (core M)) \<le> HASHPOOL"
proof -
  let ?log = "case log_file of None \<Rightarrow> [] | Some c \<Rightarrow> c"
  obtain t where t: "init_hash_from_log imem flgs value (if reads then Some ?log else None) (init_map kv_init) = ret t"
    "core M0 = \<lparr>srv = \<lparr>table = t, log_text = ?log\<rparr>, held = [], sent = []\<rparr>"
    "busy M0 = []" "conn_acts M0 = []" "hash_acts M0 = []"
    by (rule kv_server_mainD [OF assms(1)]) (rule that)
  from recovered_table [OF t(1) assms(2,3)] obtain base where b: "kv_rep t base" "hq_rep t []" by blast
  have "kv_reach t ?log (core M0)" unfolding t(2) by (rule kv_reach.start)
  with kv_run_core [OF assms(4)] have r: "kv_reach t ?log (core M)" .
  from kv_inv_reach [OF r b] have "\<exists>as rs ps. kv_inv ?log base (core M) as rs ps" .
  then have "\<exists>as rs ps. kv_inv log0 base S as rs ps" by (simp add: log0_def S_def)
  moreover have "pools_ok M0" using t(2-5) by (simp add: pools_ok_def at_work_def)
  with pools_ok_run [OF assms(4)] have "pools_ok M" .
  ultimately show ?thesis using r t(2) unfolding kv_inv_def wal_def pools_ok_def log0_def S_def by fastforce
qed

text \<open>A server that has started.\<close>

lemma sample_started:
  "\<exists>M0. kv_server_main sample_os True True None (\<lambda>i. Some (30 + i)) (\<lambda>i. 0) (replicate 700 NUL) [0, 1, 2] = ret (Inr M0) \<and>
    table (srv (core M0)) = kv_init \<and> open_fds M0 = [0, 1, 2, 3]"
proof -
  have k: "kv_server_socket sample_os = ret (Inr (3, [Opened 3, Shut 3, Opened 3, Bound 3 ''v4'', Listening 3 200]))"
    by (rule sample_os_socket)
  have o: "still_open [Opened 3, Shut 3, Opened 3, Bound 3 ''v4'', Listening 3 200] = [3]"
    by (simp add: still_open_def)
  show ?thesis using sample_start(1) by (simp add: kv_server_main_def k o init_log_def)
qed

theorem program_refines_server_witness:
  "\<exists>M0 M. kv_run M0 M \<and> busy M = [50] \<and> kv_reach kv_init [] (core M) \<and>
     (\<exists>base as. kv_rep (table (srv (core M))) (as @ base))"
proof -
  obtain M0 where m: "kv_server_main sample_os True True None (\<lambda>i. Some (30 + i)) (\<lambda>i. 0) (replicate 700 NUL)
      [0, 1, 2] = ret (Inr M0)" "table (srv (core M0)) = kv_init" "open_fds M0 = [0, 1, 2, 3]"
    using sample_started by blast
  obtain c: "conns M0 = tq_init" "cells M0 = Map.empty" "busy M0 = []" "conn_acts M0 = []"
    by (rule kv_server_mainD [OF m(1)]) (rule that)
  let ?M = "M0\<lparr>cells := (cells M0)(50 \<mapsto> 5), busy := [50], open_fds := open_fds M0 @ [5], trace := trace M0 @ [Accepted 5]\<rparr>"
  have r: "kv_run M0 ?M" by (rule accept_and_take) (simp_all add: c m at_work_def CLIENTPOOL_def)
  have "kv_reach kv_init [] (core ?M)" "\<exists>base as. kv_rep (table (srv (core ?M))) (as @ base)"
    using program_refines_server [OF m(1) _ sample_start(2) r] m(2) by auto
  moreover have "busy ?M = [50]" by simp
  ultimately show ?thesis using r by blast
qed

end
