(* ===== verification/KvDescriptors.thy ===== *)
theory KvDescriptors
  imports KvMain
begin

text \<open>
  Every descriptor that \<open>accept\<close> returned is in one place: its cell is queued or with a connection
  worker, or a request that carries it is queued or with a request worker, or a worker has still
  to close it; or nothing refers to it any more and it stays open for ever. The lemmas show that each
  step keeps this, and so that no descriptor is closed twice.
\<close>

section \<open>Legal traces\<close>

text \<open>
  The descriptors that are open after an event (\<open>None\<close>: the event is not legal). A send to a descriptor
  that is not open is let through for the error message only.
\<close>

fun fd_step :: "event \<Rightarrow> int list \<Rightarrow> int list option" where
  "fd_step (Accepted fd) fds = (if fd \<in> set fds then None else Some (fds @ [fd]))"
| "fd_step (Did (Send fd m)) fds = (if fd \<in> set fds \<or> m = ack_n then Some fds else None)"
| "fd_step (Did (Close fd)) fds = (if fd \<in> set fds then Some (removeAll fd fds) else None)"

definition fds_after :: "int list \<Rightarrow> event list \<Rightarrow> int list option" where
  "fds_after fds es = foldl (\<lambda>r e. Option.bind r (fd_step e)) (Some fds) es"

lemma fds_after_simps [simp]:
  "fds_after fds [] = Some fds"
  "fds_after fds (es @ [e]) = Option.bind (fds_after fds es) (fd_step e)"
  by (simp_all add: fds_after_def)

section \<open>Who has a descriptor\<close>

definition closes :: "action list \<Rightarrow> int list" where
  "closes acts = concat (map (\<lambda>a. case a of Close fd \<Rightarrow> [fd] | Send fd m \<Rightarrow> []) acts)"

lemma closes_simps [simp]:
  "closes [] = []" "closes (Close fd # acts) = fd # closes acts" "closes (Send fd m # acts) = closes acts"
  "closes (acts @ acts') = closes acts @ closes acts'"
  by (simp_all add: closes_def)

definition cell_fds :: "int heap \<Rightarrow> addr list \<Rightarrow> int list" where
  "cell_fds h cs = map (\<lambda>c. the (h c)) cs"

definition held_fds :: "kv_state \<Rightarrow> addr list \<Rightarrow> int list" where
  "held_fds t bs = map (\<lambda>b. sock_fd (the (nh_heap t b))) bs"

text \<open>\<open>xs\<close>: the cells in the queue of connections, \<open>rs\<close>: the requests in the other queue.\<close>

definition owned :: "kv_main \<Rightarrow> addr list \<Rightarrow> request list \<Rightarrow> int list" where
  "owned M xs rs = cell_fds (cells M) (xs @ busy M) @ map snd rs @
     held_fds (table (srv (core M))) (held (core M)) @
     concat (map closes (conn_acts M)) @ concat (map closes (hash_acts M))"

definition conn_left :: "action list \<Rightarrow> bool" where
  "conn_left acts \<longleftrightarrow> acts = [] \<or> (\<exists>fd. acts = [Send fd ack_n] \<or> acts = [Close fd, Send fd ack_n])"

definition hash_left :: "action list \<Rightarrow> bool" where
  "hash_left acts \<longleftrightarrow> acts = [] \<or> (\<exists>fd m. acts = [Send fd m, Close fd] \<or> acts = [Close fd])"

definition fd_inv :: "int list \<Rightarrow> kv_main \<Rightarrow> addr list \<Rightarrow> request list \<Rightarrow> bool" where
  "fd_inv fds0 M xs rs \<longleftrightarrow>
     tq_rep (conns M) xs \<and> hq_rep (table (srv (core M))) rs \<and>
     (\<forall>b \<in> set (held (core M)). nh_heap (table (srv (core M))) b \<noteq> None) \<and>
     (\<forall>c \<in> set (xs @ busy M). cells M c \<noteq> None) \<and>
     distinct (owned M xs rs) \<and> set (owned M xs rs) \<subseteq> set (open_fds M) \<and>
     fds_after fds0 (trace M) = Some (open_fds M) \<and>
     (\<forall>acts \<in> set (conn_acts M). conn_left acts) \<and> (\<forall>acts \<in> set (hash_acts M). hash_left acts)"

section \<open>Lists\<close>

lemma mset_drop_nth: "i < length xs \<Longrightarrow> mset xs = add_mset (xs ! i) (mset (drop_nth i xs))"
  unfolding drop_nth_def
  by (subst id_take_nth_drop, assumption) (simp only: mset_append mset.simps, simp)

lemma set_drop_nth: "set (drop_nth i xs) \<subseteq> set xs"
  by (auto simp: drop_nth_def dest: in_set_takeD in_set_dropD)

lemma mset_concat_update:
  assumes "i < length ws"
  shows "mset (concat (map f (ws[i := w]))) + mset (f (ws ! i)) = mset (concat (map f ws)) + mset (f w)"
proof -
  have "mset (concat (map f ws)) = mset (concat (map f (take i ws @ ws ! i # drop (Suc i) ws)))"
    using id_take_nth_drop [OF assms] by simp
  then show ?thesis using assms by (simp add: upd_conv_take_nth_drop)
qed

lemma concat_closes_snoc [simp]: "concat (map closes (ws @ [acts])) = concat (map closes ws) @ closes acts"
  by simp

text \<open>Descriptors change hands, and some may be dropped.\<close>

lemma owned_moves:
  assumes "mset ys + D = mset xs" and "distinct xs"
  shows "distinct ys" and "set ys \<subseteq> set xs" and "\<And>d. d \<in># D \<Longrightarrow> d \<notin> set ys"
proof -
  obtain ds where ds: "mset ds = D" using ex_mset by blast
  with assms(1) have "mset (ys @ ds) = mset xs" by simp
  with assms(2) have "distinct (ys @ ds)" "set (ys @ ds) = set xs"
    using mset_eq_imp_distinct_iff mset_eq_setD by blast+
  then show "distinct ys" "set ys \<subseteq> set xs" "\<And>d. d \<in># D \<Longrightarrow> d \<notin> set ys" using ds by auto
qed

section \<open>The steps keep it\<close>

text \<open>
  What a step has to show: the descriptors that someone has afterwards are some of those before, and
  what is open changes accordingly.
\<close>

lemma fd_inv_moves:
  assumes "fd_inv fds0 M xs rs" and "mset (owned N ys qs) + D = mset (owned M xs rs)"
    and "tq_rep (conns N) ys" and "hq_rep (table (srv (core N))) qs"
    and "\<forall>b \<in> set (held (core N)). nh_heap (table (srv (core N))) b \<noteq> None"
    and "\<forall>c \<in> set (ys @ busy N). cells N c \<noteq> None"
    and "fds_after fds0 (trace N) = Some (open_fds N)"
    and "set (open_fds M) - set_mset D \<subseteq> set (open_fds N)"
    and "\<forall>acts \<in> set (conn_acts N). conn_left acts" and "\<forall>acts \<in> set (hash_acts N). hash_left acts"
  shows "fd_inv fds0 N ys qs \<and> set (open_fds M) - set (owned M xs rs) \<subseteq> set (open_fds N) - set (owned N ys qs)"
proof -
  from assms(1) have d: "distinct (owned M xs rs)" and o: "set (owned M xs rs) \<subseteq> set (open_fds M)"
    by (simp_all add: fd_inv_def)
  note m = owned_moves [OF assms(2) d]
  have D: "set_mset D \<subseteq> set (owned M xs rs)" using assms(2) by (metis set_mset_mset set_mset_union sup.cobounded2)
  have "set (owned N ys qs) \<subseteq> set (open_fds N)" using m(2,3) o assms(8) by blast
  moreover have "set (open_fds M) - set (owned M xs rs) \<subseteq> set (open_fds N) - set (owned N ys qs)"
    using m(2) D assms(8) by blast
  ultimately show ?thesis using assms(3-10) m(1) by (simp add: fd_inv_def)
qed

text \<open>What handling a connection does to the queue of requests.\<close>

lemma handle_client_queue:
  assumes h: "handle_client env fd errno as s = ret (t, acts, errno')" and u: "unused env s"
    and q: "hq_rep s rs"
  obtains rs' where "hq_rep t (rs @ rs')" "conn_left acts" "acts \<noteq> [] \<longrightarrow> rs' = []"
    "rs' = [] \<and> closes acts = [] \<or> rs' = [] \<and> closes acts = [fd] \<or> map snd rs' = [fd] \<and> closes acts = []"
    "\<And>b. nh_heap s b \<noteq> None \<Longrightarrow> map_option request_of (nh_heap t b) = map_option request_of (nh_heap s b)"
proof -
  from handle_client_effect [OF h] consider "t = s" "refusal fd acts" | a n where "acts = []"
    "enqueue_hash (hash_mem env) (Some a) fd (s\<lparr>kv_heap := (kv_heap s)(a \<mapsto> n)\<rparr>) = ret t" by blast
  then show thesis
  proof cases
    case 1
    with q show ?thesis by (intro that [of "[]"]) (auto simp: refusal_def conn_left_def)
  next
    case (2 a n)
    let ?s' = "s\<lparr>kv_heap := (kv_heap s)(a \<mapsto> n)\<rparr>"
    have q': "hq_rep ?s' rs" using q by (simp add: hq_rep_def)
    have fr: "map_option request_of (nh_heap t b) = map_option request_of (nh_heap s b)" if "nh_heap s b \<noteq> None" for b
      using enqueue_hash_frame [OF 2(2), of b] that u by (auto simp: unused_def)
    show ?thesis
    proof (cases "hash_mem env")
      case None
      with 2(2) have "t = ?s'" by (simp add: enqueue_hash_def)
      with 2 q' fr show ?thesis by (intro that [of "[]"]) (auto simp: conn_left_def)
    next
      case (Some b)
      with u have "hq_fresh b ?s'" by (simp add: unused_def hq_fresh_def)
      from enqueue_hash_rep [OF q' this, of "Some a" fd] 2(2) Some have "hq_rep t (rs @ [(Some a, fd)])" by auto
      with 2(1) fr show ?thesis by (intro that [of "[(Some a, fd)]"]) (auto simp: conn_left_def)
    qed
  qed
qed

text \<open>What serving a request does.\<close>

lemma handle_hash_acts:
  assumes "handle_hash mem (Some b) s = ret (s', acts)"
  shows "nh_heap (table s') = nh_heap (table s)" and "head_hash (table s') = head_hash (table s)"
    and "tail_hash (table s') = tail_hash (table s)" and "hash_left acts"
    and "acts = [] \<or> closes acts = [sock_fd (the (nh_heap (table s) b))]"
proof -
  have "nh_heap t = nh_heap (table s) \<and> head_hash t = head_hash (table s) \<and> tail_hash t = tail_hash (table s)"
    if "insert_node p (table s) = ret (r, t)" for p r t
    using that by (auto simp: insert_node_def Let_def elim!: bindp_retE split: if_splits)
  then show "nh_heap (table s') = nh_heap (table s)" "head_hash (table s') = head_hash (table s)"
    "tail_hash (table s') = tail_hash (table s)" "hash_left acts"
    "acts = [] \<or> closes acts = [sock_fd (the (nh_heap (table s) b))]"
    using assms by (auto simp: handle_hash_def Let_def hash_left_def load_ret elim!: bindp_retE
        split: if_split_asm)
qed

lemma held_fds_cong:
  "(\<And>b. b \<in> set bs \<Longrightarrow> nh_heap s b \<noteq> None) \<Longrightarrow>
   (\<And>b. b \<in> set bs \<Longrightarrow> map_option request_of (nh_heap t b) = map_option request_of (nh_heap s b)) \<Longrightarrow>
   held_fds t bs = held_fds s bs"
  unfolding held_fds_def by (rule map_cong [OF refl]) (fastforce simp: request_of_def map_option_case split: option.splits)

lemma cell_fds_simps [simp]: "cell_fds h [] = []" "cell_fds h (c # cs) = the (h c) # cell_fds h cs"
  "cell_fds h (cs @ ds) = cell_fds h cs @ cell_fds h ds"
  by (simp_all add: cell_fds_def)

lemma cell_fds_frame: "c \<notin> set cs \<Longrightarrow> cell_fds (h(c := v)) cs = cell_fds h cs"
  by (auto simp: cell_fds_def)

text \<open>A descriptor stays with nobody when nobody has it.\<close>

definition orphans :: "kv_main \<Rightarrow> addr list \<Rightarrow> request list \<Rightarrow> int set" where
  "orphans M xs rs = set (open_fds M) - set (owned M xs rs)"

lemma fd_inv_accept:
  assumes inv: "fd_inv fds0 M xs rs" and new: "\<forall>a. node = Some a \<longrightarrow> tq_fresh a (conns M)"
    "\<forall>c. cell = Some c \<longrightarrow> cells M c = None" "fd \<notin> set (open_fds M)" and a: "accept_client node cell fd M = ret N"
  shows "\<exists>ys qs. fd_inv fds0 N ys qs \<and> orphans M xs rs \<subseteq> orphans N ys qs"
proof (cases "fd = - 1")
  case True
  with a inv show ?thesis by (auto simp: accept_client_def)
next
  case False
  with a obtain c q where c: "cell = Some c" "tq_enqueue node cell (conns M) = ret q"
    "N = M\<lparr>conns := q, cells := (cells M)(c \<mapsto> fd), open_fds := open_fds M @ [fd], trace := trace M @ [Accepted fd]\<rparr>"
    by (auto simp: accept_client_def elim!: bindp_retE split: option.split_asm)
  note i = inv [unfolded fd_inv_def]
  from c(2) obtain b where b: "node = Some b" by (cases node) (auto simp: tq_enqueue_def)
  with tq_enqueue_rep [of "conns M" xs b c] i new(1) c have q: "tq_rep q (xs @ [c])" by auto
  from i have "\<forall>x \<in> set (xs @ busy M). cells M x \<noteq> None" by blast
  moreover have "cells M c = None" using new(2) c(1) by simp
  ultimately have "c \<notin> set (xs @ busy M)" by metis
  then have "cell_fds ((cells M)(c \<mapsto> fd)) xs = cell_fds (cells M) xs"
    "cell_fds ((cells M)(c \<mapsto> fd)) (busy M) = cell_fds (cells M) (busy M)"
    by (simp_all add: cell_fds_frame)
  then have o: "mset (owned N (xs @ [c]) rs) = add_mset fd (mset (owned M xs rs))"
    by (simp add: owned_def c(3))
  have n: "fd \<notin> set (owned M xs rs)" using i new(3) by blast
  from o have "mset (owned N (xs @ [c]) rs) = mset (fd # owned M xs rs)" by simp
  then have "distinct (owned N (xs @ [c]) rs) = distinct (fd # owned M xs rs)"
    "set (owned N (xs @ [c]) rs) = set (fd # owned M xs rs)"
    by (rule mset_eq_imp_distinct_iff, rule mset_eq_setD)
  moreover have "distinct (fd # owned M xs rs)" using i n by simp
  ultimately have "distinct (owned N (xs @ [c]) rs)" "set (owned N (xs @ [c]) rs) = insert fd (set (owned M xs rs))"
    by simp_all
  then show ?thesis using i q new(3) c(3)
    by (intro exI [of _ "xs @ [c]"] exI [of _ rs]) (auto simp: fd_inv_def orphans_def)
qed

lemma fd_inv_take_client:
  assumes inv: "fd_inv fds0 M xs rs" and t: "take_client M = ret N"
  shows "\<exists>ys qs. fd_inv fds0 N ys qs \<and> orphans M xs rs \<subseteq> orphans N ys qs"
proof (cases xs)
  case Nil
  with inv have "tq_rep (conns M) []" by (simp add: fd_inv_def)
  with t tq_dequeue_nil [of "conns M"] have "N = M" by (simp add: take_client_def)
  with inv show ?thesis by blast
next
  case (Cons x ys)
  note i = inv [unfolded fd_inv_def]
  with Cons tq_dequeue_cons [of "conns M" x ys] obtain q where
    q: "tq_dequeue (conns M) = ret (Some x, q)" "tq_rep q ys" by auto
  with t have N: "N = M\<lparr>conns := q, busy := busy M @ [x]\<rparr>" by (simp add: take_client_def)
  have "mset (owned N ys rs) + {#} = mset (owned M xs rs)"
    by (simp add: owned_def N Cons cell_fds_def)
  from fd_inv_moves [OF inv this] show ?thesis
    using i q(2) Cons by (intro exI [of _ ys] exI [of _ rs]) (auto simp: N orphans_def)
qed

lemma cell_fds_drop_nth:
  "i < length cs \<Longrightarrow> mset (cell_fds h cs) = add_mset (the (h (cs ! i))) (mset (cell_fds h (drop_nth i cs)))"
  by (simp add: cell_fds_def mset_drop_nth)

lemma fd_inv_client_worker:
  assumes inv: "fd_inv fds0 M xs rs" and b: "i < length (busy M)" and u: "unused env (table (srv (core M)))"
    and w: "client_worker env errno as i M = ret N"
  shows "\<exists>ys qs. fd_inv fds0 N ys qs \<and> orphans M xs rs \<subseteq> orphans N ys qs \<and>
    (last (conn_acts N) \<noteq> [] \<and> closes (last (conn_acts N)) = [] \<longrightarrow> the (cells M (busy M ! i)) \<in> orphans N ys qs)"
proof -
  let ?c = "busy M ! i" and ?s = "table (srv (core M))"
  note I = inv [unfolded fd_inv_def]
  have "?c \<in> set (xs @ busy M)" using b by simp
  moreover from I have al: "\<forall>x \<in> set (xs @ busy M). cells M x \<noteq> None" by blast
  ultimately obtain fd where fd: "cells M ?c = Some fd" by blast
  with w obtain t acts e where h: "handle_client env fd errno as ?s = ret (t, acts, e)" and
    N: "N = M\<lparr>core := (core M)\<lparr>srv := (srv (core M))\<lparr>table := t\<rparr>, sent := sent (core M) @ acts\<rparr>,
      cells := (cells M)(?c := None), busy := drop_nth i (busy M), conn_acts := conn_acts M @ [acts]\<rparr>"
    by (auto simp: client_worker_def Let_def elim!: bindp_retE)
  from I have hq: "hq_rep ?s rs" by blast
  obtain rs' where
    q: "hq_rep t (rs @ rs')" "conn_left acts" "acts \<noteq> [] \<longrightarrow> rs' = []"
    "rs' = [] \<and> closes acts = [] \<or> rs' = [] \<and> closes acts = [fd] \<or> map snd rs' = [fd] \<and> closes acts = []" and
    fr: "\<And>b. nh_heap ?s b \<noteq> None \<Longrightarrow> map_option request_of (nh_heap t b) = map_option request_of (nh_heap ?s b)"
    by (rule handle_client_queue [OF h u hq]) (rule that)
  from I have "distinct (owned M xs rs)" by blast
  then have "distinct (cell_fds (cells M) (xs @ busy M))" unfolding owned_def distinct_append by blast
  then have "distinct (xs @ busy M)" by (simp only: cell_fds_def distinct_map)
  then have "distinct (xs @ take i (busy M) @ ?c # drop (Suc i) (busy M))"
    using id_take_nth_drop [OF b] by simp
  then have c: "?c \<notin> set (xs @ drop_nth i (busy M))" by (auto simp: drop_nth_def)
  have held: "held_fds t (held (core M)) = held_fds ?s (held (core M))"
    by (rule held_fds_cong) (use I fr in auto)
  have cs: "\<forall>x \<in> set (xs @ busy N). cells N x \<noteq> None"
  proof
    fix x assume "x \<in> set (xs @ busy N)"
    then have "x \<in> set (xs @ drop_nth i (busy M))" by (simp add: N)
    with c set_drop_nth [of i "busy M"] have "x \<noteq> ?c" "x \<in> set (xs @ busy M)" by auto
    with al show "cells N x \<noteq> None" by (simp add: N)
  qed
  have nh: "\<forall>b \<in> set (held (core N)). nh_heap (table (srv (core N))) b \<noteq> None"
  proof
    fix b assume "b \<in> set (held (core N))"
    then have "nh_heap ?s b \<noteq> None" using I by (simp add: N)
    with fr [of b] show "nh_heap (table (srv (core N))) b \<noteq> None"
      by (auto simp: N map_option_case split: option.splits)
  qed
  have m: "mset (owned N xs (rs @ rs')) + (if rs' = [] \<and> closes acts = [] then {#fd#} else {#}) = mset (owned M xs rs)"
    using q(4) cell_fds_drop_nth [OF b, of "cells M"] cell_fds_frame [of ?c _ "cells M" None] c held fd
    by (auto simp: owned_def N)
  have "fd_inv fds0 N xs (rs @ rs') \<and> set (open_fds M) - set (owned M xs rs) \<subseteq>
      set (open_fds N) - set (owned N xs (rs @ rs'))"
    by (rule fd_inv_moves [OF inv m _ _ nh cs]) (use I q(1,2) in \<open>simp_all add: N\<close>)
  moreover have "fd \<in> orphans N xs (rs @ rs')" if "acts \<noteq> []" "closes acts = []"
  proof -
    from I have d: "distinct (owned M xs rs)" by blast
    have e: "mset (owned N xs (rs @ rs')) + {#fd#} = mset (owned M xs rs)" using m q(3) that by simp
    from owned_moves(3) [OF e d, of fd] have "fd \<notin> set (owned N xs (rs @ rs'))" by simp
    moreover have "fd \<in># mset (owned M xs rs)" by (simp flip: e)
    then have "fd \<in> set (owned M xs rs)" by simp
    with I have "fd \<in> set (open_fds N)" by (auto simp: N)
    ultimately show ?thesis by (simp add: orphans_def)
  qed
  ultimately show ?thesis unfolding orphans_def by (intro exI [of _ xs] exI [of _ "rs @ rs'"]) (simp add: N fd)
qed

lemma fd_inv_take_hash:
  assumes inv: "fd_inv fds0 M xs rs" and t: "take_hash M = ret N"
  shows "\<exists>ys qs. fd_inv fds0 N ys qs \<and> orphans M xs rs \<subseteq> orphans N ys qs"
proof (cases rs)
  case Nil
  with inv have "hq_rep (table (srv (core M))) []" by (simp add: fd_inv_def)
  with t dequeue_hash_nil [of "table (srv (core M))"] have "N = M" by (simp add: take_hash_def)
  with inv show ?thesis by blast
next
  case (Cons r qs)
  let ?s = "table (srv (core M))"
  note i = inv [unfolded fd_inv_def]
  from i have "hq_rep ?s (r # qs)" using Cons by blast
  from dequeue_hash_cons [OF this] obtain p n s' where
    q: "dequeue_hash ?s = ret (Some p, s')" "nh_heap s' p = Some n" "request_of n = r" "hq_rep s' qs" by blast
  have f: "nh_heap s' = nh_heap ?s" using dequeue_hash_frame [OF q(1)] .
  from t q(1) have N: "N = M\<lparr>core := (core M)\<lparr>srv := (srv (core M))\<lparr>table := s'\<rparr>, held := held (core M) @ [p]\<rparr>\<rparr>"
    by (simp add: take_hash_def Let_def)
  have "mset (owned N xs qs) + {#} = mset (owned M xs rs)"
    using q(2,3) f by (auto simp: owned_def N Cons held_fds_def request_of_def)
  from fd_inv_moves [OF inv this] show ?thesis
    using i q f by (intro exI [of _ xs] exI [of _ qs]) (auto simp: N orphans_def)
qed

lemma fd_inv_hash_worker:
  assumes inv: "fd_inv fds0 M xs rs" and b: "i < length (held (core M))" and w: "hash_worker mem i M = ret N"
  shows "\<exists>ys qs. fd_inv fds0 N ys qs \<and> orphans M xs rs \<subseteq> orphans N ys qs"
proof -
  let ?b = "held (core M) ! i" and ?s = "table (srv (core M))"
  note I = inv [unfolded fd_inv_def]
  from w obtain s' acts where h: "handle_hash mem (Some ?b) (srv (core M)) = ret (s', acts)" and
    N: "N = M\<lparr>core := (core M)\<lparr>srv := s', held := drop_nth i (held (core M)), sent := sent (core M) @ acts\<rparr>,
      hash_acts := hash_acts M @ [acts]\<rparr>"
    by (auto simp: hash_worker_def Let_def elim!: bindp_retE)
  note a = handle_hash_acts [OF h]
  have "mset (held_fds ?s (held (core M))) =
      add_mset (sock_fd (the (nh_heap ?s ?b))) (mset (held_fds ?s (drop_nth i (held (core M)))))"
    using mset_drop_nth [OF b] by (simp add: held_fds_def)
  then have "mset (owned N xs rs) + (if acts = [] then {#sock_fd (the (nh_heap ?s ?b))#} else {#}) = mset (owned M xs rs)"
    using a(1,5) by (auto simp: owned_def N held_fds_def)
  from fd_inv_moves [OF inv this] show ?thesis
    using I a set_drop_nth [of i "held (core M)"]
    by (intro exI [of _ xs] exI [of _ rs]) (auto simp: N orphans_def subset_iff hq_rep_def)
qed

text \<open>A worker makes a socket call.\<close>

lemma fd_inv_conn_call:
  assumes inv: "fd_inv fds0 M xs rs" and i: "i < length (conn_acts M)" and a: "conn_acts M ! i = a # acts"
  defines "N \<equiv> do_action a (M\<lparr>conn_acts := (conn_acts M)[i := acts]\<rparr>)"
  shows "\<exists>ys qs. fd_inv fds0 N ys qs \<and> orphans M xs rs \<subseteq> orphans N ys qs"
proof -
  note I = inv [unfolded fd_inv_def]
  have m: "conn_acts M ! i \<in> set (conn_acts M)" using i by simp
  with I have "conn_left (conn_acts M ! i)" by blast
  with a consider fd where "a = Send fd ack_n" "acts = []" | fd where "a = Close fd" "acts = [Send fd ack_n]"
    by (auto simp: conn_left_def)
  then have l: "conn_left acts" and s: "(\<exists>fd. a = Send fd ack_n) \<or> (\<exists>fd. a = Close fd)"
    by (auto simp: conn_left_def)
  have cl: "\<forall>acts' \<in> set ((conn_acts M)[i := acts]). conn_left acts'"
    using I l set_update_subset_insert [of "conn_acts M" i acts] by blast
  have o: "mset (owned N xs rs) + mset (closes [a]) = mset (owned M xs rs)"
    using mset_concat_update [OF i, of closes acts] a by (cases a) (auto simp: owned_def N_def)
  have "fd \<in> set (owned M xs rs)" if "a = Close fd" for fd
    using m a that unfolding owned_def by force
  then have "fd \<in> set (open_fds M)" if "a = Close fd" for fd
    using that I by blast
  with fd_inv_moves [OF inv o] I cl s show ?thesis
    by (intro exI [of _ xs] exI [of _ rs]) (cases a; auto simp: N_def orphans_def)
qed

lemma fd_inv_hash_call:
  assumes inv: "fd_inv fds0 M xs rs" and i: "i < length (hash_acts M)" and a: "hash_acts M ! i = a # acts"
  defines "N \<equiv> do_action a (M\<lparr>hash_acts := (hash_acts M)[i := acts]\<rparr>)"
  shows "\<exists>ys qs. fd_inv fds0 N ys qs \<and> orphans M xs rs \<subseteq> orphans N ys qs"
proof -
  note I = inv [unfolded fd_inv_def]
  have m: "hash_acts M ! i \<in> set (hash_acts M)" using i by simp
  with I have "hash_left (hash_acts M ! i)" by blast
  with a obtain fd m where s: "a = Send fd m \<and> acts = [Close fd] \<or> a = Close fd \<and> acts = []"
    by (auto simp: hash_left_def)
  then have l: "hash_left acts" by (auto simp: hash_left_def)
  have cl: "\<forall>acts' \<in> set ((hash_acts M)[i := acts]). hash_left acts'"
    using I l set_update_subset_insert [of "hash_acts M" i acts] by blast
  have o: "mset (owned N xs rs) + mset (closes [a]) = mset (owned M xs rs)"
    using mset_concat_update [OF i, of closes acts] a by (cases a) (auto simp: owned_def N_def)
  have "fd \<in> set (closes (hash_acts M ! i))" using s a by auto
  with m have "fd \<in> set (owned M xs rs)" unfolding owned_def by auto
  with I have "fd \<in> set (open_fds M)" by blast
  with fd_inv_moves [OF inv o] I cl s show ?thesis
    by (intro exI [of _ xs] exI [of _ rs]) (auto simp: N_def orphans_def)
qed

lemma fd_inv_step:
  "kv_main_step M N \<Longrightarrow> fd_inv fds0 M xs rs \<Longrightarrow> \<exists>ys qs. fd_inv fds0 N ys qs \<and> orphans M xs rs \<subseteq> orphans N ys qs"
proof (induction rule: kv_main_step.induct)
  case (accept node M cell newfd N)
  from fd_inv_accept [OF accept.prems accept.hyps] show ?case .
next
  case (take_connection M N)
  from fd_inv_take_client [OF take_connection.prems take_connection.hyps(2)] show ?case .
next
  case (connection i M env errno as N)
  from fd_inv_client_worker [OF connection.prems connection.hyps] show ?case by blast
next
  case (connection_call i M a acts)
  from fd_inv_conn_call [OF connection_call.prems connection_call.hyps] show ?case .
next
  case (take_request M N)
  from fd_inv_take_hash [OF take_request.prems take_request.hyps(2)] show ?case .
next
  case (request i M mem N)
  from fd_inv_hash_worker [OF request.prems request.hyps] show ?case .
next
  case (request_call i M a acts)
  from fd_inv_hash_call [OF request_call.prems request_call.hyps] show ?case .
qed

lemma fd_inv_run:
  assumes "kv_run M N" and "fd_inv fds0 M xs rs"
  shows "\<exists>ys qs. fd_inv fds0 N ys qs \<and> orphans M xs rs \<subseteq> orphans N ys qs"
  using assms(1)
proof (induction rule: kv_run.induct)
  case here
  from assms(2) show ?case by blast
next
  case (step N P)
  then show ?case using fd_inv_step by (meson subset_trans)
qed

section \<open>A server from its start\<close>

lemma fd_inv_start:
  assumes "kv_server_main env opens reads log_file imem flgs value fds = ret (Inr M0)"
    and "length value = 700" and "fresh_from imem 0 kv_init"
  shows "fd_inv (open_fds M0) M0 [] []"
proof -
  obtain t where t: "init_hash_from_log imem flgs value
      (if reads then Some (case log_file of None \<Rightarrow> [] | Some c \<Rightarrow> c) else None) (init_map kv_init) = ret t"
    "core M0 = \<lparr>srv = \<lparr>table = t, log_text = (case log_file of None \<Rightarrow> [] | Some c \<Rightarrow> c)\<rparr>, held = [], sent = []\<rparr>"
    "conns M0 = tq_init" "busy M0 = []" "conn_acts M0 = []" "hash_acts M0 = []" "trace M0 = []"
    by (rule kv_server_mainD [OF assms(1)]) (rule that)
  from recovered_table [OF t(1) assms(2,3)] have "hq_rep t []" by blast
  with t(2-7) show ?thesis by (simp add: fd_inv_def owned_def held_fds_def)
qed

lemma fd_inv_reached:
  assumes "kv_server_main env opens reads log_file imem flgs value fds = ret (Inr M0)"
    and "length value = 700" and "fresh_from imem 0 kv_init" and "kv_run M0 M"
  shows "\<exists>xs rs. fd_inv (open_fds M0) M xs rs"
  using fd_inv_run [OF assms(4) fd_inv_start [OF assms(1-3)]] by blast

text \<open>An environment in which the nodes are not allocated, and a request with an empty value.\<close>

definition empty_set :: "nat \<Rightarrow> string \<Rightarrow> string" where
  "empty_set v key = ''set'' @ CRLF @ set_header v 0 (length key) @ key @ CRLF"

lemma handle_client_empty:
  assumes mem: "gives (key_mem env)" "gives (buf_mem env)" "slack env \<noteq> []"
    and v: "v < 10 ^ 8" and key: "length key < 10 ^ 6" "key \<noteq> []"
  shows "handle_client env fd False [Bytes (empty_set v key)] s = ret (s, [Close fd, Send fd ack_n], False)"
proof -
  let ?k = "length key" and ?m = "set_header v 0 (length key) @ key @ CRLF"
  have u: "unat (of_nat ?k :: size_t) = ?k" "unat (of_nat ?k + 2 :: size_t) = ?k + 2"
    using key by (simp_all add: unat_word_ariths unat_of_nat)
  from cleared_gives [OF mem(1), of ?k "?k + 2"] obtain j where
    j: "cleared (key_mem env) (?k + 2) ?k = ret (Some (replicate ?k NUL @ j))" "length j = 2" by auto
  from cleared_gives [OF mem(2), of 8 8] have
    b: "cleared (buf_mem env) 8 8 = ret (Some (replicate 8 NUL))" by auto
  have r: "recv [Bytes (key @ CRLF)] ?k = ret (Some key, [Bytes CRLF])"
    by (rule recv_split) (simp_all add: CRLF_def key)
  have w: "write_at (replicate ?k NUL @ j) 0 key = ret (key @ j)"
    "write_at (key @ j) ?k [NUL] = ret (key @ NUL # drop 1 j)"
    using j(2) by (simp_all add: write_at_def)
  have body: "client_set_body env fd 0 (of_nat v) (of_nat ?k) [Bytes (key @ CRLF)] =
      ret (Inl [Close fd, Send fd ack_n])"
    using u j b r w by (simp add: client_set_body_def Let_def parse_body_empty)
  have "recv [Bytes ?m] 28 = ret (Some (set_header v 0 ?k), [Bytes (key @ CRLF)])"
    using length_set_header [of v 0 ?k] v key by (intro recv_split) (auto simp: CRLF_def)
  moreover have "parse_header_set (set_header v 0 ?k) False = (Some (0, of_nat v, of_nat ?k), False)"
    using parse_set_header [of v 0 ?k] v key by simp
  ultimately have branch: "client_set_branch env fd False [Bytes ?m] = ret (Inl [Close fd, Send fd ack_n], False)"
    using body by (simp add: client_set_branch_def)
  have "recv [Bytes ((''set'' @ CRLF) @ ?m)] 5 = ret (Some (''set'' @ CRLF), [Bytes ?m])"
    by (rule recv_split) (simp_all add: CRLF_def key)
  moreover obtain h where "write_at (take 5 ((''set'' @ CRLF) @ replicate 5 NUL) @ slack env)
      (length (''set'' @ CRLF)) [NUL] = ret h" "cstr h = ''set'' @ CRLF"
    by (rule op_header_read [of "''set'' @ CRLF" env]) (use mem in \<open>simp_all add: CRLF_def\<close>)
  ultimately show ?thesis using branch
    by (simp add: handle_client_def empty_set_def strcmp_0_iff CRLF_def)
qed

definition no_node_env :: client_env where
  "no_node_env = sample_env\<lparr>node_mem := None, hash_mem := None\<rparr>"

lemma no_node_env: "gives (key_mem no_node_env)" "gives (buf_mem no_node_env)" "slack no_node_env \<noteq> []"
  "unused no_node_env t"
  using sample_env_gives by (simp_all add: no_node_env_def unused_def)

section \<open>Properties\<close>

text \<open>
  C4: in every state the program reaches, the trace of accepted descriptors and socket calls is
  legal: only open descriptors are closed, none twice, and replies go to open descriptors, except perhaps the
  error message. The descriptors that queued cells, connection workers, queued requests and
  request workers carry or have still to close are all different and all open.
\<close>

theorem descriptors_in_order:
  assumes "kv_server_main env opens reads log_file imem flgs value fds = ret (Inr M0)"
    and "length value = 700" and "fresh_from imem 0 kv_init" and "kv_run M0 M"
  shows "fds_after (open_fds M0) (trace M) = Some (open_fds M) \<and>
    (\<exists>xs rs. tq_rep (conns M) xs \<and> hq_rep (table (srv (core M))) rs \<and>
       distinct (owned M xs rs) \<and> set (owned M xs rs) \<subseteq> set (open_fds M))"
  using fd_inv_reached [OF assms] unfolding fd_inv_def by blast

theorem descriptors_in_order_witness:
  "\<exists>M0 M. kv_run M0 M \<and> trace M = [Accepted 5] \<and> fds_after [0, 1, 2, 3] (trace M) = Some [0, 1, 2, 3, 5] \<and>
    (\<exists>xs rs. distinct (owned M xs rs) \<and> set (owned M xs rs) \<subseteq> {0, 1, 2, 3, 5})"
proof -
  obtain M0 where m: "kv_server_main sample_os True True None (\<lambda>i. Some (30 + i)) (\<lambda>i. 0) (replicate 700 NUL)
      [0, 1, 2] = ret (Inr M0)" "open_fds M0 = [0, 1, 2, 3]"
    using sample_started by blast
  obtain c: "conns M0 = tq_init" "cells M0 = Map.empty" "busy M0 = []" "conn_acts M0 = []" "trace M0 = []"
    by (rule kv_server_mainD [OF m(1)]) (rule that)
  let ?M = "M0\<lparr>cells := (cells M0)(50 \<mapsto> 5), busy := [50], open_fds := open_fds M0 @ [5], trace := trace M0 @ [Accepted 5]\<rparr>"
  have r: "kv_run M0 ?M" by (rule accept_and_take) (simp_all add: c m at_work_def CLIENTPOOL_def)
  from descriptors_in_order [OF m(1) _ sample_start(2) r] obtain xs rs where
    "fds_after (open_fds M0) (trace ?M) = Some (open_fds ?M)" "distinct (owned ?M xs rs)"
    "set (owned ?M xs rs) \<subseteq> set (open_fds ?M)" by auto
  with r show ?thesis by (intro exI [of _ M0] exI [of _ ?M]) (auto simp: m c)
qed

text \<open>
  C12: a connection that is answered with the error message alone, because its request cannot be
  read, is never closed: its descriptor stays open in every later state. Each such client
  costs the server a descriptor.
\<close>

theorem refused_stays_open:
  assumes "kv_server_main env opens reads log_file imem flgs value fds = ret (Inr M0)"
    and "length value = 700" and "fresh_from imem 0 kv_init" and "kv_run M0 M"
    and "i < length (busy M)" and "cells M (busy M ! i) = Some fd" and "unused cenv (table (srv (core M)))"
    and "client_worker cenv errno as i M = ret N" and "last (conn_acts N) = [Send fd ack_n]" and "kv_run N P"
  shows "fd \<in> set (open_fds P)"
proof -
  from fd_inv_reached [OF assms(1-4)] obtain xs rs where "fd_inv (open_fds M0) M xs rs" by blast
  from fd_inv_client_worker [OF this assms(5,7,8)] assms(6,9) obtain ys qs where
    "fd_inv (open_fds M0) N ys qs" "fd \<in> orphans N ys qs" by auto
  with fd_inv_run [OF assms(10)] obtain zs ps where "fd \<in> orphans P zs ps" by blast
  then show ?thesis by (simp add: orphans_def)
qed

theorem refused_stays_open_witness:
  "\<exists>M0 M N. kv_run M0 M \<and> client_worker no_node_env False [Eof] 0 M = ret N \<and>
     conn_acts N = [[Send 5 ack_n]] \<and> (\<forall>P. kv_run N P \<longrightarrow> 5 \<in> set (open_fds P))"
proof -
  obtain M0 where m: "kv_server_main sample_os True True None (\<lambda>i. Some (30 + i)) (\<lambda>i. 0) (replicate 700 NUL)
      [0, 1, 2] = ret (Inr M0)" "open_fds M0 = [0, 1, 2, 3]"
    using sample_started by blast
  obtain c: "conns M0 = tq_init" "cells M0 = Map.empty" "busy M0 = []" "conn_acts M0 = []" "trace M0 = []"
    by (rule kv_server_mainD [OF m(1)]) (rule that)
  let ?M = "M0\<lparr>cells := (cells M0)(50 \<mapsto> 5), busy := [50], open_fds := open_fds M0 @ [5], trace := trace M0 @ [Accepted 5]\<rparr>"
  have r: "kv_run M0 ?M" by (rule accept_and_take) (simp_all add: c m at_work_def CLIENTPOOL_def)
  obtain N where n: "client_worker no_node_env False [Eof] 0 ?M = ret N" "conn_acts N = [[Send 5 ack_n]]"
    by (simp add: client_worker_def handle_client_def Let_def c)
  have "5 \<in> set (open_fds P)" if "kv_run N P" for P
    by (rule refused_stays_open [OF m(1) _ sample_start(2) r _ _ _ n(1) _ that]) (simp_all add: n no_node_env)
  with r n show ?thesis by blast
qed



end
