(* ===== verification/KvTypes.thy ===== *)
theory KvTypes
  imports KvMain
begin

text \<open>
  The nodes of the table are well typed: what the connections store are proper C strings with the right
  length and a get or set flag, and no step changes anything but the links of a node. So every
  request that is held can be served as long as the sizes are small, when the server started without a log.
\<close>

section \<open>Nodes keep their contents\<close>

text \<open>The contents of a node, all but its link.\<close>

definition content_of :: "kv_state \<Rightarrow> addr \<Rightarrow> kv_node option" where
  "content_of t a = map_option (\<lambda>n. n\<lparr>kv_next := None\<rparr>) (kv_heap t a)"

lemma node_typed_next [simp]: "node_typed (n\<lparr>kv_next := p\<rparr>) = node_typed n"
  by (simp add: node_typed_def)

lemma insert_node_content: "insert_node p t = ret (r, t') \<Longrightarrow> content_of t' a = content_of t a"
  by (auto simp: insert_node_def Let_def content_of_def modify_ret elim!: bindp_retE split: if_split_asm)

lemma handle_hash_content:
  "handle_hash mem b s = ret (s', acts) \<Longrightarrow> content_of (table s') a = content_of (table s) a"
  by (auto simp: handle_hash_def Let_def elim!: bindp_retE dest!: insert_node_content [where a = a] split: if_split_asm)

lemma enqueue_hash_kv_heap: "enqueue_hash m p fd t = ret t' \<Longrightarrow> kv_heap t' = kv_heap t"
  by (auto simp: enqueue_hash_def Let_def elim!: bindp_retE split: option.split_asm if_split_asm)

lemma handle_client_content:
  assumes "handle_client env fd errno as t = ret (t', acts, e)" and "unused env t"
  shows "content_of t' a = content_of t a \<or> content_of t a = None \<and> (\<exists>n. content_of t' a = Some n \<and> node_typed n)"
  using handle_client_effect [OF assms(1)]
proof (elim disjE conjE exE)
  fix b n
  assume b: "node_mem env = Some b" "node_typed n"
    "enqueue_hash (hash_mem env) (Some b) fd (t\<lparr>kv_heap := (kv_heap t)(b \<mapsto> n)\<rparr>) = ret t'"
  then have "kv_heap t' = (kv_heap t)(b \<mapsto> n)" by (auto dest: enqueue_hash_kv_heap)
  moreover have "kv_heap t b = None" using assms(2) b(1) by (simp add: unused_def)
  ultimately show ?thesis using b(2) by (auto simp: content_of_def)
qed simp

lemma dequeue_hash_content: "dequeue_hash t = ret (r, t') \<Longrightarrow> content_of t' a = content_of t a"
  by (auto simp: dequeue_hash_def Let_def content_of_def elim!: bindp_retE split: if_splits)

text \<open>So a step keeps the content of every node, and the nodes it makes are well typed.\<close>

lemma kv_step_content:
  assumes "kv_step S T"
  shows "content_of (table (srv T)) a = content_of (table (srv S)) a \<or>
    content_of (table (srv S)) a = None \<and> (\<exists>n. content_of (table (srv T)) a = Some n \<and> node_typed n)"
  using assms
proof (induction rule: kv_step.induct)
  case (connection env S fd errno as t acts errno')
  from handle_client_content [OF connection(2,1)] show ?case by simp
next
  case (take_request S p t)
  from dequeue_hash_content [OF take_request] show ?case by simp
next
  case (serve i S mem s' acts)
  from handle_hash_content [OF serve(2)] show ?case by simp
qed

lemma kv_reach_content:
  assumes "kv_reach t0 log0 S"
  shows "content_of (table (srv S)) a = content_of t0 a \<or>
    content_of t0 a = None \<and> (\<exists>n. content_of (table (srv S)) a = Some n \<and> node_typed n)"
  using assms
proof (induction rule: kv_reach.induct)
  case (step S T)
  with kv_step_content [OF step(2), of a] show ?case by (metis option.distinct(1))
qed simp

section \<open>Properties\<close>


text \<open>A started server in which a connection has stored a node.\<close>

lemma sample_run_node:
  "\<exists>M0 M. kv_server_main sample_os True True None (\<lambda>i. Some (30 + i)) (\<lambda>i. 0) (replicate 700 NUL) [0, 1, 2] = ret (Inr M0) \<and>
    kv_run M0 M \<and> kv_heap (table (srv (core M0))) 21 = None \<and>
    kv_heap (table (srv (core M))) 21 = Some \<lparr>kv_key = ''ab'', kv_value = CRLF @ ''hello'', value_size = of_nat 7,
      user_size = of_nat 9, oper_flg = 1, kv_next = None\<rparr>"
proof -
  obtain M0 where m: "kv_server_main sample_os True True None (\<lambda>i. Some (30 + i)) (\<lambda>i. 0) (replicate 700 NUL)
      [0, 1, 2] = ret (Inr M0)" "table (srv (core M0)) = kv_init" "open_fds M0 = [0, 1, 2, 3]"
    using sample_started by blast
  obtain c: "conns M0 = tq_init" "cells M0 = Map.empty" "busy M0 = []" "conn_acts M0 = []"
    by (rule kv_server_mainD [OF m(1)]) (rule that)
  let ?M1 = "M0\<lparr>cells := (cells M0)(50 \<mapsto> 5), busy := [50], open_fds := open_fds M0 @ [5], trace := trace M0 @ [Accepted 5]\<rparr>"
  have r: "kv_run M0 ?M1" by (rule accept_and_take) (simp_all add: c m at_work_def CLIENTPOOL_def)
  have "hq_fresh 22 kv_init" by (simp add: hq_fresh_def kv_init_def)
  with handle_client_set [OF sample_env_gives _ _ _ _ _ _ _ hq_rep_init, of "''hello''" "''ab''" 9 5 "[]"]
  obtain as t where t: "handle_client sample_env 5 False as kv_init = ret (t, [], False)"
    "kv_heap t = [21 \<mapsto> \<lparr>kv_key = ''ab'', kv_value = CRLF @ ''hello'',
       value_size = of_nat (length ''hello'' + 2), user_size = of_nat 9, oper_flg = 1, kv_next = None\<rparr>]"
    by (auto simp: kv_init_def)
  have u: "unused sample_env kv_init" by (simp add: unused_def kv_init_def)
  have "\<exists>N. client_worker sample_env False as 0 ?M1 = ret N \<and> table (srv (core N)) = t"
    using t(1) m(2) by (simp add: client_worker_def Let_def c)
  then obtain N where n: "client_worker sample_env False as 0 ?M1 = ret N" "table (srv (core N)) = t" by blast
  from n(1) u m(2) have "kv_main_step ?M1 N" by (intro kv_main_step.connection [of 0 _ sample_env]) simp_all
  with r have "kv_run M0 N" by (rule kv_run.step)
  with m n t show ?thesis by (intro exI [of _ M0] exI [of _ N]) (simp add: kv_init_def)
qed


end
