(* ===== verification/Outcome.thy ===== *)
theory Outcome
  imports Sockets
begin

text \<open>
  What a program can do from a state, whatever comes in: \<open>post E Q m\<close> says that \<open>m\<close> does not run
  for ever, that it stops only for the reasons \<open>E\<close>, and that its result satisfies \<open>Q\<close>. The rules
  below take a handler apart call by call.
\<close>

named_theorems post_simps "outcomes of composed programs"

definition post :: "(stop \<Rightarrow> bool) \<Rightarrow> ('a \<Rightarrow> bool) \<Rightarrow> 'a prog \<Rightarrow> bool" where
  "post E Q m = (case m of None \<Rightarrow> False | Some (Inl e) \<Rightarrow> E e | Some (Inr x) \<Rightarrow> Q x)"

lemma post_basic [post_simps, simp]:
  "post E Q (ret x) = Q x"
  "post E Q (stop_with e) = E e"
  "\<not> post E Q None"
  by (simp_all add: post_def)

lemma post_bindp [post_simps]: "post E Q (bindp m f) = post E (\<lambda>x. post E Q (f x)) m"
  by (cases m) (auto simp: post_def bindp_def split: sum.splits)

lemma post_if [post_simps]: "post E Q (if b then m else n) = ((b \<longrightarrow> post E Q m) \<and> (\<not> b \<longrightarrow> post E Q n))"
  by simp

lemma post_mono: "post E Q m \<Longrightarrow> (\<And>x. Q x \<Longrightarrow> R x) \<Longrightarrow> post E R m"
  by (auto simp: post_def split: option.splits sum.splits)

lemma post_weaken: "post F Q m \<Longrightarrow> (\<And>e. F e \<Longrightarrow> E e) \<Longrightarrow> (\<And>x. Q x \<Longrightarrow> R x) \<Longrightarrow> post E R m"
  by (auto simp: post_def split: option.splits sum.splits)

lemma postD:
  assumes "post E Q m"
  shows "\<exists>r. m = Some r" and "m = ret x \<Longrightarrow> Q x" and "m = stop_with e \<Longrightarrow> E e"
  using assms by (auto simp: post_def split: option.splits)

lemma post_load: "E Null_deref \<Longrightarrow> (\<And>a. p = Some a \<Longrightarrow> h a = None \<Longrightarrow> E Dangling) \<Longrightarrow>
   (\<And>a n. p = Some a \<Longrightarrow> h a = Some n \<Longrightarrow> Q n) \<Longrightarrow> post E Q (load h p)"
  by (auto simp: load_def split: option.splits)

lemma post_recv:
  assumes "E Blocked" and "\<And>as'. Q (None, as')" and "\<And>bs as'. length bs \<le> n \<Longrightarrow> Q (Some bs, as')"
  shows "post E Q (recv as n)"
proof -
  have "recv as n = stop_with Blocked \<or> (\<exists>r. recv as n = ret r)"
    by (induction as n rule: recv.induct) simp_all
  then show ?thesis
  proof
    assume "\<exists>r. recv as n = ret r"
    then obtain r as' where r: "recv as n = ret (r, as')" by auto
    show ?thesis
    proof (cases r)
      case None
      with r assms(2) show ?thesis by simp
    next
      case (Some bs)
      with r assms(3) [OF recv_length] show ?thesis by simp
    qed
  qed (use assms(1) in simp)
qed

lemma post_write_at:
  "E Out_of_bounds \<Longrightarrow> (\<And>b. length b = length buf \<Longrightarrow> Q b) \<Longrightarrow> post E Q (write_at buf off bs)"
proof (cases "off + length bs \<le> length buf")
  case True
  assume "\<And>b. length b = length buf \<Longrightarrow> Q b"
  then have "Q (take off buf @ bs @ drop (off + length bs) buf)" using True by simp
  with True show ?thesis by (simp add: write_at_def)
qed (simp add: write_at_def)

lemma post_slice:
  "E Out_of_bounds \<Longrightarrow> (\<And>b. length b = n \<Longrightarrow> Q b) \<Longrightarrow> post E Q (slice buf off n)"
proof (cases "off + n \<le> length buf")
  case True
  assume "\<And>b. length b = n \<Longrightarrow> Q b"
  then have "Q (take n (drop off buf))" using True by simp
  with True show ?thesis by (simp add: slice_def)
qed (simp add: slice_def)

end
