(* ===== verification/TobQueue.thy ===== *)
theory TobQueue
  imports Sockets "HOL-Library.Multiset"
begin

text \<open>
  \<open>TOB/queue.c\<close>, the message queue of a broadcast process: a singly linked list with head
  and tail pointers in an explicit heap, kept in the order of the Lamport timestamps. The
  operations are the code's pointer programs; the lemmas relate them to operations on the
  list of addresses from head to tail.
\<close>

section \<open>Nodes and the queue\<close>

record msg_node =
  pid :: int
  port_num :: int
  ack_flg :: int
  ack_count :: int
  buffer :: string        \<comment> \<open>the block of \<open>buf_len + 1\<close> bytes\<close>
  buf_len :: nat
  lc :: "32 word"
  uid :: "32 word"
  nprocs :: int
  mq_next :: ptr

record msg_queue =
  mq_heap :: "msg_node heap"
  mq_head :: ptr
  mq_tail :: ptr

definition mq_init :: msg_queue where
  "mq_init = \<lparr>mq_heap = Map.empty, mq_head = None, mq_tail = None\<rparr>"

text \<open>
  \<open>m\<close> and \<open>mbuf\<close> are the answers of \<open>malloc\<close> for the node and for its buffer (what the block of
  \<open>n\<close> bytes holds). The parameters come in the order of the C function.
\<close>

definition mq_create_node ::
  "ptr \<Rightarrow> (nat \<Rightarrow> string option) \<Rightarrow> int \<Rightarrow> int \<Rightarrow> int \<Rightarrow> int \<Rightarrow> string \<Rightarrow> nat \<Rightarrow> 32 word \<Rightarrow> 32 word \<Rightarrow>
   int \<Rightarrow> msg_queue \<Rightarrow> (ptr \<times> msg_queue) prog" where
  "mq_create_node m mbuf p port flg cnt buf len ts u np q =
     (case m of
        None \<Rightarrow> ret (None, q)
      | Some a \<Rightarrow>
          (case mbuf (len + 1) of
             None \<Rightarrow> ret (None, q)
           | Some junk \<Rightarrow>
               bindp (slice buf 0 len) (\<lambda>bytes.
               bindp (write_at (take (len + 1) junk) 0 bytes) (\<lambda>b.
               ret (m, q\<lparr>mq_heap := (mq_heap q)(a \<mapsto>
                 \<lparr>pid = p, port_num = port, ack_flg = flg, ack_count = cnt, buffer = b, buf_len = len,
                  lc = ts, uid = u, nprocs = np, mq_next = None\<rparr>)\<rparr>)))))"

definition mq_enqueue :: "ptr \<Rightarrow> msg_queue \<Rightarrow> msg_queue prog" where
  "mq_enqueue new_node q =
     (if mq_tail q = None
      then ret (q\<lparr>mq_head := new_node, mq_tail := new_node\<rparr>)
      else bindp (modify (mq_heap q) (mq_tail q) (mq_next_update (\<lambda>_. new_node)))
             (\<lambda>h. ret (q\<lparr>mq_heap := h, mq_tail := new_node\<rparr>)))"

partial_function (option) find_node_loop :: "msg_node heap \<Rightarrow> 32 word \<Rightarrow> ptr \<Rightarrow> ptr prog" where
  "find_node_loop h u current =
     (if current = None then ret None
      else bindp (load h current) (\<lambda>n.
        if uid n = u then ret current else find_node_loop h u (mq_next n)))"

definition find_node :: "32 word \<Rightarrow> msg_queue \<Rightarrow> ptr prog" where
  "find_node u q = find_node_loop (mq_heap q) u (mq_head q)"

section \<open>Sorting\<close>

text \<open>
  The two tests of the insertion sort. \<open>goes_first s c\<close>: the first node \<open>s\<close> of the sorted list
  comes after the current node \<open>c\<close>; \<open>goes_on u c\<close>: the search for the place of \<open>c\<close> passes \<open>u\<close>.
\<close>

definition goes_first :: "msg_node \<Rightarrow> msg_node \<Rightarrow> bool" where
  "goes_first s c \<longleftrightarrow> lc s > lc c \<or> (lc s = lc c \<and> pid s < pid c)"

definition goes_on :: "msg_node \<Rightarrow> msg_node \<Rightarrow> bool" where
  "goes_on u c \<longleftrightarrow> lc u < lc c \<or> (lc u = lc c \<and> pid u \<ge> pid c)"

partial_function (option) order_search :: "msg_node heap \<Rightarrow> msg_node \<Rightarrow> ptr \<Rightarrow> ptr prog" where
  "order_search h c temp =
     bindp (load h temp) (\<lambda>t.
       if mq_next t = None then ret temp
       else bindp (load h (mq_next t)) (\<lambda>u.
         if goes_on u c then order_search h c (mq_next t) else ret temp))"

definition order_insert :: "msg_node heap \<Rightarrow> ptr \<Rightarrow> ptr \<Rightarrow> (msg_node heap \<times> ptr) prog" where
  "order_insert h sorted_ptr current =
     bindp (load h current) (\<lambda>c.
     bindp (if sorted_ptr = None then ret True
            else bindp (load h sorted_ptr) (\<lambda>s. ret (goes_first s c))) (\<lambda>front.
     if front then
       bindp (modify h current (mq_next_update (\<lambda>_. sorted_ptr))) (\<lambda>h. ret (h, current))
     else
       bindp (order_search h c sorted_ptr) (\<lambda>temp.
       bindp (load h temp) (\<lambda>t.
       bindp (modify h current (mq_next_update (\<lambda>_. mq_next t))) (\<lambda>h.
       bindp (modify h temp (mq_next_update (\<lambda>_. current))) (\<lambda>h. ret (h, sorted_ptr)))))))"

partial_function (option) order_loop ::
  "msg_node heap \<Rightarrow> ptr \<Rightarrow> ptr \<Rightarrow> (msg_node heap \<times> ptr) prog" where
  "order_loop h hd_ptr sorted_ptr =
     (if hd_ptr = None then ret (h, sorted_ptr)
      else bindp (load h hd_ptr) (\<lambda>c.
        bindp (order_insert h sorted_ptr hd_ptr) (\<lambda>r.
        order_loop (fst r) (mq_next c) (snd r))))"

partial_function (option) tail_loop :: "msg_node heap \<Rightarrow> ptr \<Rightarrow> ptr prog" where
  "tail_loop h t =
     (if t = None then ret None
      else bindp (load h t) (\<lambda>n. if mq_next n = None then ret t else tail_loop h (mq_next n)))"

definition order_queue :: "msg_queue \<Rightarrow> msg_queue prog" where
  "order_queue q =
     (if mq_head q = None then ret q
      else bindp (load (mq_heap q) (mq_head q)) (\<lambda>n.
        if mq_next n = None then ret q
        else bindp (order_loop (mq_heap q) (mq_head q) None) (\<lambda>(h, srt).
             bindp (tail_loop h srt) (\<lambda>t.
             ret (q\<lparr>mq_heap := h, mq_head := srt, mq_tail := t\<rparr>)))))"

section \<open>Removing\<close>

partial_function (option) dequeue_search ::
  "msg_node heap \<Rightarrow> 32 word \<Rightarrow> ptr \<Rightarrow> ptr \<Rightarrow> (ptr \<times> ptr) prog" where
  "dequeue_search h u temp prev =
     (if temp = None then ret (None, prev)
      else bindp (load h temp) (\<lambda>n.
        if uid n \<noteq> u then dequeue_search h u (mq_next n) temp else ret (temp, prev)))"

text \<open>Removing the head leaves \<open>tail\<close> as it was, also when the head was the only node.\<close>

definition mq_dequeue :: "32 word \<Rightarrow> msg_queue \<Rightarrow> msg_queue prog" where
  "mq_dequeue u q =
     (if mq_head q = None then ret q
      else bindp (load (mq_heap q) (mq_head q)) (\<lambda>n.
        if uid n = u
        then bindp (release (mq_heap q) (mq_head q)) (\<lambda>h.
             ret (q\<lparr>mq_heap := h, mq_head := mq_next n\<rparr>))
        else bindp (dequeue_search (mq_heap q) u (mq_head q) None) (\<lambda>(temp, prev).
             if temp = None then ret q
             else bindp (load (mq_heap q) temp) (\<lambda>t.
                  bindp (modify (mq_heap q) prev (mq_next_update (\<lambda>_. mq_next t))) (\<lambda>h.
                  let tl' = (if temp = mq_tail q then prev else mq_tail q) in
                  bindp (release h temp) (\<lambda>h.
                  ret (q\<lparr>mq_heap := h, mq_tail := tl'\<rparr>)))))))"

section \<open>The order\<close>

text \<open>
  \<open>before a b\<close>: by increasing timestamp, and among equal timestamps by decreasing process
  number. It is a total preorder, and the two tests of the code decide it.
\<close>

definition before :: "msg_node \<Rightarrow> msg_node \<Rightarrow> bool" where
  "before a b \<longleftrightarrow> lc a < lc b \<or> (lc a = lc b \<and> pid b \<le> pid a)"

lemma goes_on_before: "goes_on u c \<longleftrightarrow> before u c"
  by (simp add: goes_on_def before_def)

lemma goes_first_before: "goes_first s c \<longleftrightarrow> \<not> before s c"
  by (auto simp: goes_first_def before_def)

lemma before_refl [simp]: "before a a"
  by (simp add: before_def)

lemma before_trans: "before a b \<Longrightarrow> before b c \<Longrightarrow> before a c"
  by (auto simp: before_def)

lemma before_total: "before a b \<or> before b a"
  by (auto simp: before_def)

lemma before_next [simp]:
  "before (a\<lparr>mq_next := p\<rparr>) b = before a b" "before a (b\<lparr>mq_next := p\<rparr>) = before a b"
  by (simp_all add: before_def)

text \<open>Insertion and insertion sort on lists of addresses, with \<open>k\<close> the node at an address.\<close>

fun oinsert :: "(addr \<Rightarrow> msg_node) \<Rightarrow> addr \<Rightarrow> addr list \<Rightarrow> addr list" where
  "oinsert k a [] = [a]"
| "oinsert k a (b # bs) = (if before (k b) (k a) then b # oinsert k a bs else a # b # bs)"

definition osort :: "(addr \<Rightarrow> msg_node) \<Rightarrow> addr list \<Rightarrow> addr list" where
  "osort k as = foldl (\<lambda>bs a. oinsert k a bs) [] as"

definition ordered :: "(addr \<Rightarrow> msg_node) \<Rightarrow> addr list \<Rightarrow> bool" where
  "ordered k as \<longleftrightarrow> sorted_wrt (\<lambda>a b. before (k a) (k b)) as"

lemma set_oinsert [simp]: "set (oinsert k a bs) = insert a (set bs)"
  by (induction bs) auto

lemma length_oinsert [simp]: "length (oinsert k a bs) = Suc (length bs)"
  by (induction bs) auto

lemma oinsert_nonempty [simp]: "oinsert k a bs \<noteq> []"
  by (cases bs) auto

lemma ordered_oinsert: "ordered k bs \<Longrightarrow> ordered k (oinsert k a bs)"
proof (induction bs)
  case (Cons b bs)
  then show ?case
    using before_total [of "k a" "k b"] before_trans [of "k a" "k b"]
    by (auto simp: ordered_def)
qed (simp add: ordered_def)

lemma ordered_foldl: "ordered k bs \<Longrightarrow> ordered k (foldl (\<lambda>bs a. oinsert k a bs) bs as)"
  by (induction as arbitrary: bs) (auto simp: ordered_oinsert)

lemma ordered_osort: "ordered k (osort k as)"
  using ordered_foldl [of k "[]" as] by (simp add: osort_def ordered_def)

lemma set_foldl: "set (foldl (\<lambda>bs a. oinsert k a bs) bs as) = set bs \<union> set as"
  by (induction as arbitrary: bs) auto

lemma set_osort [simp]: "set (osort k as) = set as"
  by (simp add: osort_def set_foldl)

lemma length_foldl: "length (foldl (\<lambda>bs a. oinsert k a bs) bs as) = length bs + length as"
  by (induction as arbitrary: bs) auto

lemma length_osort [simp]: "length (osort k as) = length as"
  by (simp add: osort_def length_foldl)

lemma oinsert_cong:
  "(\<And>b. b \<in> insert a (set bs) \<Longrightarrow> before (k b) (k a) = before (k' b) (k' a)) \<Longrightarrow>
   oinsert k a bs = oinsert k' a bs"
  by (induction bs) auto

text \<open>Messages that compare equal keep their order: the sort is stable.\<close>

definition tied :: "msg_node \<Rightarrow> msg_node \<Rightarrow> bool" where
  "tied a b \<longleftrightarrow> lc a = lc b \<and> pid a = pid b"

lemma filter_oinsert_tied:
  "ordered k bs \<Longrightarrow> filter (\<lambda>b. tied (k b) c) (oinsert k a bs) =
     filter (\<lambda>b. tied (k b) c) bs @ filter (\<lambda>b. tied (k b) c) [a]"
proof (induction bs)
  case (Cons b bs)
  show ?case
  proof (cases "before (k b) (k a)")
    case True
    with Cons show ?thesis by (simp add: ordered_def)
  next
    case False
    have "\<not> tied (k x) c" if "tied (k a) c" "x \<in> set (b # bs)" for x
    proof -
      have "before (k b) (k x)" using Cons.prems that(2) by (auto simp: ordered_def)
      with False that(1) show ?thesis by (auto simp: before_def tied_def)
    qed
    then have "tied (k a) c \<Longrightarrow> filter (\<lambda>b. tied (k b) c) (b # bs) = []"
      by (simp only: filter_empty_conv) blast
    with False show ?thesis by (cases "tied (k a) c") simp_all
  qed
qed simp

lemma filter_foldl_tied:
  "ordered k bs \<Longrightarrow> filter (\<lambda>b. tied (k b) c) (foldl (\<lambda>bs a. oinsert k a bs) bs as) =
     filter (\<lambda>b. tied (k b) c) (bs @ as)"
  by (induction as arbitrary: bs) (auto simp: ordered_oinsert filter_oinsert_tied)

lemma osort_stable: "filter (\<lambda>b. tied (k b) c) (osort k as) = filter (\<lambda>b. tied (k b) c) as"
  by (simp add: osort_def filter_foldl_tied ordered_def)

text \<open>
  The order as a linear order on stamps, so that the library's stable sort is the reference: what
  the insertion sort on lists computes is \<open>sort_key\<close>.
\<close>

datatype stamp = Stamp (stamp_time: "32 word") (stamp_pid: int)

instantiation stamp :: linorder
begin

definition less_eq_stamp :: "stamp \<Rightarrow> stamp \<Rightarrow> bool" where
  "a \<le> b \<longleftrightarrow> stamp_time a < stamp_time b \<or> (stamp_time a = stamp_time b \<and> stamp_pid b \<le> stamp_pid a)"

definition less_stamp :: "stamp \<Rightarrow> stamp \<Rightarrow> bool" where
  "a < b \<longleftrightarrow> stamp_time a < stamp_time b \<or> (stamp_time a = stamp_time b \<and> stamp_pid b < stamp_pid a)"

instance
  by standard (auto simp: less_eq_stamp_def less_stamp_def stamp.expand)

end

definition stamp_of :: "msg_node \<Rightarrow> stamp" where
  "stamp_of n = Stamp (lc n) (pid n)"

lemma before_stamp: "before a b \<longleftrightarrow> stamp_of a \<le> stamp_of b"
  by (simp add: before_def stamp_of_def less_eq_stamp_def)

lemma tied_stamp: "tied a b \<longleftrightarrow> stamp_of b = stamp_of a"
  by (auto simp: tied_def stamp_of_def)

lemma mset_oinsert: "mset (oinsert k a bs) = add_mset a (mset bs)"
  by (induction bs) auto

lemma mset_osort: "mset (osort k as) = mset as"
proof -
  have "mset (foldl (\<lambda>bs a. oinsert k a bs) bs as) = mset bs + mset as" for bs
    by (induction as arbitrary: bs) (auto simp: mset_oinsert)
  then show ?thesis by (simp add: osort_def)
qed

lemma osort_sort_key: "osort k as = sort_key (\<lambda>a. stamp_of (k a)) as"
proof (rule sym, rule properties_for_sort_key)
  show "mset (osort k as) = mset as" by (rule mset_osort)
  show "filter (\<lambda>x. stamp_of (k c) = stamp_of (k x)) (osort k as) = filter (\<lambda>x. stamp_of (k c) = stamp_of (k x)) as" for c
    using osort_stable [of k "k c" as] by (simp add: tied_stamp)
  show "sorted (map (\<lambda>a. stamp_of (k a)) (osort k as))"
    using ordered_osort [of k as] by (simp add: ordered_def before_stamp sorted_wrt_map)
qed

lemma oinsert_takeWhile:
  "oinsert k a bs = takeWhile (\<lambda>x. before (k x) (k a)) bs @ a # dropWhile (\<lambda>x. before (k x) (k a)) bs"
  by (induction bs) auto

section \<open>The pointer program sorts\<close>

text \<open>A node without its link; two heaps agree when only links differ.\<close>

definition strip :: "msg_node \<Rightarrow> msg_node" where
  "strip n = n\<lparr>mq_next := None\<rparr>"

definition same_nodes :: "msg_node heap \<Rightarrow> msg_node heap \<Rightarrow> bool" where
  "same_nodes h h' \<longleftrightarrow> (\<forall>a. map_option strip (h' a) = map_option strip (h a))"

lemma strip_next [simp]: "strip (n\<lparr>mq_next := p\<rparr>) = strip n"
  by (simp add: strip_def)

lemma before_strip: "before (strip a) (strip b) = before a b"
  by (simp add: strip_def)

lemma same_nodes_refl [simp]: "same_nodes h h"
  by (simp add: same_nodes_def)

lemma same_nodes_trans: "same_nodes h h' \<Longrightarrow> same_nodes h' h'' \<Longrightarrow> same_nodes h h''"
  by (simp add: same_nodes_def)

lemma same_nodes_link: "same_nodes h h' \<Longrightarrow> h' a = Some n \<Longrightarrow> same_nodes h (h'(a \<mapsto> n\<lparr>mq_next := p\<rparr>))"
  by (auto simp: same_nodes_def) (metis option.simps(9))

text \<open>\<open>agrees k h as\<close>: up to the links, \<open>k\<close> gives the nodes of \<open>h\<close> at \<open>as\<close>.\<close>

definition agrees :: "(addr \<Rightarrow> msg_node) \<Rightarrow> msg_node heap \<Rightarrow> addr list \<Rightarrow> bool" where
  "agrees k h as \<longleftrightarrow> (\<forall>a \<in> set as. map_option strip (h a) = Some (strip (k a)))"

lemma agrees_before:
  "agrees k h as \<Longrightarrow> a \<in> set as \<Longrightarrow> b \<in> set as \<Longrightarrow> h a = Some m \<Longrightarrow> h b = Some n \<Longrightarrow>
   before m n = before (k a) (k b)"
  unfolding agrees_def by (metis before_strip option.inject option.simps(9))

lemma agrees_same: "agrees k h as \<Longrightarrow> same_nodes h h' \<Longrightarrow> agrees k h' as"
  by (simp add: agrees_def same_nodes_def)

lemma order_search_last:
  "chain mq_next h (Some b) (b # bs) None \<Longrightarrow>
   order_search h c (Some b) = ret (Some (last (b # takeWhile (\<lambda>x. before (the (h x)) c) bs)))"
proof (induction bs arbitrary: b)
  case Nil
  then show ?case by (subst order_search.simps) (auto split: option.splits)
next
  case (Cons d bs)
  then obtain n m where n: "h b = Some n" "mq_next n = Some d" "h d = Some m"
    "chain mq_next h (Some d) (d # bs) None"
    by (auto split: option.splits)
  with Cons.IH [of d] show ?case
    by (subst order_search.simps) (simp add: goes_on_before)
qed

lemma order_insert_front:
  assumes "h a = Some c" and "sp = None \<or> (\<exists>b s. sp = Some b \<and> h b = Some s \<and> \<not> before s c)"
  shows "order_insert h sp (Some a) = ret (h(a \<mapsto> c\<lparr>mq_next := sp\<rparr>), Some a)"
  using assms by (auto simp: order_insert_def goes_first_before)

lemma order_insert_after:
  assumes "h a = Some c" and "h b = Some s" and "before s c"
    and "order_search h c (Some b) = ret (Some t)" and "h t = Some tn" and "t \<noteq> a"
  shows "order_insert h (Some b) (Some a) =
    ret (h(a \<mapsto> c\<lparr>mq_next := mq_next tn\<rparr>, t \<mapsto> tn\<lparr>mq_next := Some a\<rparr>), Some b)"
  using assms by (auto simp: order_insert_def goes_first_before)

lemma chain_insert_after:
  assumes c: "chain nx h p (us @ t # vs) None" and a: "a \<notin> set (us @ t # vs)"
    and t: "h t = Some tn" and m: "nx m = nx tn" "nx n = Some a"
  shows "chain nx (h(a \<mapsto> m, t \<mapsto> n)) p (us @ t # a # vs) None"
proof -
  have "distinct (us @ t # vs)" using c by (rule chain_distinct)
  moreover from c t have "chain nx h p us (Some t)" "chain nx h (nx tn) vs None"
    by (auto simp: chain_append split: option.splits)
  ultimately show ?thesis using a m by (auto simp: chain_append chain_frame)
qed

lemma order_insert_oinsert:
  assumes c: "chain mq_next h sp bs None" and a: "h a = Some c" "a \<notin> set bs"
    and k: "agrees k h (a # bs)"
  shows "\<exists>h' sp'. order_insert h sp (Some a) = ret (h', sp') \<and>
    chain mq_next h' sp' (oinsert k a bs) None \<and> same_nodes h h' \<and>
    (\<forall>x. x \<noteq> a \<and> x \<notin> set bs \<longrightarrow> h' x = h x)"
proof (cases "sp = None \<or> (\<exists>b s. sp = Some b \<and> h b = Some s \<and> \<not> before s c)")
  case True
  have "oinsert k a bs = a # bs"
  proof (cases bs)
    case (Cons b bs')
    with c obtain s where "sp = Some b" "h b = Some s" by (auto split: option.splits)
    with True Cons k a show ?thesis using agrees_before [OF k, of b a s c] by auto
  qed simp
  with order_insert_front [OF a(1) True] c a show ?thesis
    by (auto simp: chain_frame intro: same_nodes_link)
next
  case False
  then obtain b where b: "sp = Some b" by auto
  with c obtain bs' s where bs: "bs = b # bs'" "h b = Some s" and "before s c"
    using False by (cases bs) (auto split: option.splits)
  define ts where "ts = takeWhile (\<lambda>x. before (the (h x)) c) bs'"
  have kb: "before (the (h x)) c = before (k x) (k a)" if "x \<in> set bs" for x
    using agrees_before [OF k, of x a "the (h x)" c] chain_dom [OF c that] that a(1) by auto
  have ts: "takeWhile (\<lambda>x. before (k x) (k a)) bs = b # ts"
    using \<open>before s c\<close> bs kb [of b] kb by (auto simp: ts_def intro!: takeWhile_cong)
  let ?vs = "dropWhile (\<lambda>x. before (k x) (k a)) bs"
  have split: "bs = (b # ts) @ ?vs" using ts takeWhile_dropWhile_id by metis
  obtain us t where t: "b # ts = us @ [t]" by (metis append_butlast_last_id list.distinct(1))
  then have "t \<in> set bs" using split by (metis Un_iff in_set_conv_decomp set_append)
  then obtain tn where tn: "h t = Some tn" "t \<noteq> a" using chain_dom [OF c] a(2) by blast
  have "order_search h c (Some b) = ret (Some t)"
    using order_search_last [of h b bs' c] c b bs(1) t by (simp flip: ts_def)
  from order_insert_after [OF a(1) bs(2) \<open>before s c\<close> this tn]
  have run: "order_insert h sp (Some a) =
      ret (h(a \<mapsto> c\<lparr>mq_next := mq_next tn\<rparr>, t \<mapsto> tn\<lparr>mq_next := Some a\<rparr>), Some b)" by (simp add: b)
  have bs_split: "bs = us @ t # ?vs" using split t by simp
  have "oinsert k a bs = us @ t # a # ?vs" using ts t by (simp add: oinsert_takeWhile)
  moreover have "chain mq_next (h(a \<mapsto> c\<lparr>mq_next := mq_next tn\<rparr>, t \<mapsto> tn\<lparr>mq_next := Some a\<rparr>))
      sp (us @ t # a # ?vs) None"
    by (rule chain_insert_after) (use c a bs_split tn in \<open>simp_all flip: bs_split\<close>)
  moreover have "same_nodes h (h(a \<mapsto> c\<lparr>mq_next := mq_next tn\<rparr>, t \<mapsto> tn\<lparr>mq_next := Some a\<rparr>))"
    using a tn by (intro same_nodes_link) auto
  ultimately show ?thesis using run b \<open>t \<in> set bs\<close> by auto
qed

lemma order_loop_sorts:
  assumes "chain mq_next h p as None" and "chain mq_next h sp bs None"
    and "set as \<inter> set bs = {}" and "agrees k h (as @ bs)"
  shows "\<exists>h' sp'. order_loop h p sp = ret (h', sp') \<and>
    chain mq_next h' sp' (foldl (\<lambda>bs a. oinsert k a bs) bs as) None \<and> same_nodes h h' \<and>
    (\<forall>x. x \<notin> set as \<and> x \<notin> set bs \<longrightarrow> h' x = h x)"
  using assms
proof (induction as arbitrary: h p sp bs)
  case Nil
  then show ?case by (subst order_loop.simps) simp
next
  case (Cons a as)
  then obtain c where c: "p = Some a" "h a = Some c" "chain mq_next h (mq_next c) as None"
    by (auto split: option.splits)
  have na: "a \<notin> set as" "a \<notin> set bs" using Cons.prems(3) chain_distinct [OF Cons.prems(1)] by auto
  have "agrees k h (a # bs)" using Cons.prems(4) by (auto simp: agrees_def)
  from order_insert_oinsert [OF Cons.prems(2) c(2) na(2) this] obtain h1 sp1 where
    ins: "order_insert h sp (Some a) = ret (h1, sp1)" "chain mq_next h1 sp1 (oinsert k a bs) None"
      "same_nodes h h1" "\<forall>x. x \<noteq> a \<and> x \<notin> set bs \<longrightarrow> h1 x = h x" by blast
  have "chain mq_next h1 (mq_next c) as None"
    using c(3) by (subst chain_cong [of as mq_next h1 h]) (use ins(4) Cons.prems(3) na in auto)
  moreover have "set as \<inter> set (oinsert k a bs) = {}" using Cons.prems(3) na by auto
  moreover have "agrees k h1 (as @ oinsert k a bs)"
    using agrees_same [OF Cons.prems(4) ins(3)] by (auto simp: agrees_def)
  ultimately obtain h' sp' where
    rest: "order_loop h1 (mq_next c) sp1 = ret (h', sp')"
      "chain mq_next h' sp' (foldl (\<lambda>bs a. oinsert k a bs) (oinsert k a bs) as) None"
      "same_nodes h1 h'" "\<forall>x. x \<notin> set as \<and> x \<notin> set (oinsert k a bs) \<longrightarrow> h' x = h1 x"
    using Cons.IH [OF _ ins(2)] by blast
  have "order_loop h p sp = ret (h', sp')"
    using c ins(1) rest(1) by (subst order_loop.simps) simp
  moreover have "\<forall>x. x \<notin> set (a # as) \<and> x \<notin> set bs \<longrightarrow> h' x = h x" using rest(4) ins(4) by auto
  ultimately show ?case using rest(2) same_nodes_trans [OF ins(3) rest(3)] by auto
qed

lemma tail_loop_last:
  "chain mq_next h (Some a) as None \<Longrightarrow> tail_loop h (Some a) = ret (Some (last as))"
proof (induction as arbitrary: a)
  case Nil
  then show ?case by simp
next
  case (Cons b bs)
  then obtain n where n: "h a = Some n" "a = b" "chain mq_next h (mq_next n) bs None"
    by (auto split: option.splits)
  show ?case
  proof (cases "mq_next n")
    case None
    with n show ?thesis by (subst tail_loop.simps) simp
  next
    case (Some c)
    with n have "bs \<noteq> []" by auto
    with n Some Cons.IH [of c] show ?thesis by (subst tail_loop.simps) simp
  qed
qed

text \<open>
  \<open>order_queue\<close> on a chain from \<open>head\<close>: the chain is sorted and the tail pointer is set to its
  last node, whatever it was before, as soon as there are two nodes.
\<close>

lemma order_queue_sorts:
  assumes c: "chain mq_next (mq_heap q) (mq_head q) as None" and k: "agrees k (mq_heap q) as"
    and two: "2 \<le> length as"
  shows "\<exists>q'. order_queue q = ret q' \<and>
    lqueue mq_next (mq_heap q') (mq_head q') (mq_tail q') (osort k as) \<and>
    same_nodes (mq_heap q) (mq_heap q')"
proof -
  from two obtain a b bs where as: "as = a # b # bs" by (cases as; cases "tl as") auto
  with c obtain n where n: "mq_head q = Some a" "mq_heap q a = Some n" "mq_next n = Some b"
    by (auto split: option.splits)
  from order_loop_sorts [of "mq_heap q" "mq_head q" as None "[]" k] c k obtain h sp where
    l: "order_loop (mq_heap q) (mq_head q) None = ret (h, sp)" "chain mq_next h sp (osort k as) None"
      "same_nodes (mq_heap q) h" by (auto simp: osort_def)
  have ne: "osort k as \<noteq> []" using as length_osort [of k as] by (metis length_0_conv list.distinct(1))
  then obtain d where d: "sp = Some d" using chain_not_None [OF l(2)] by auto
  from tail_loop_last [of h d "osort k as"] l(2) d have t: "tail_loop h sp = ret (Some (last (osort k as)))"
    by simp
  have "order_queue q = ret (q\<lparr>mq_heap := h, mq_head := sp, mq_tail := Some (last (osort k as))\<rparr>)"
    using n l(1) t by (simp add: order_queue_def)
  with l ne show ?thesis by (simp add: lqueue_def)
qed

lemma osort_short: "length as \<le> 1 \<Longrightarrow> osort k as = as"
  by (cases as; cases "tl as") (auto simp: osort_def)

lemma order_queue_short:
  assumes "chain mq_next (mq_heap q) (mq_head q) as None" and "length as \<le> 1"
  shows "order_queue q = ret q"
proof (cases as)
  case Nil
  with assms show ?thesis by (simp add: order_queue_def)
next
  case (Cons a bs)
  with assms show ?thesis by (auto simp: order_queue_def split: option.splits)
qed

lemma order_queue_lqueue:
  assumes q: "lqueue mq_next (mq_heap q) (mq_head q) (mq_tail q) as" and k: "agrees k (mq_heap q) as"
  shows "\<exists>q'. order_queue q = ret q' \<and>
    lqueue mq_next (mq_heap q') (mq_head q') (mq_tail q') (osort k as) \<and>
    same_nodes (mq_heap q) (mq_heap q')"
proof (cases "2 \<le> length as")
  case True
  with order_queue_sorts [OF lqueueD [OF q] k] show ?thesis by blast
next
  case False
  with order_queue_short [OF lqueueD [OF q]] q osort_short [of as k] show ?thesis by simp
qed

section \<open>Searching, appending and removing\<close>

lemma find_node_loop_find:
  "chain mq_next h p as None \<Longrightarrow>
   find_node_loop h u p = ret (find (\<lambda>a. uid (the (h a)) = u) as)"
proof (induction as arbitrary: p)
  case Nil
  then show ?case by (subst find_node_loop.simps) simp
next
  case (Cons a as)
  then show ?case by (subst find_node_loop.simps) (auto split: option.splits)
qed

lemma find_node_find:
  "chain mq_next (mq_heap q) (mq_head q) as None \<Longrightarrow>
   find_node u q = ret (find (\<lambda>a. uid (the (mq_heap q a)) = u) as)"
  by (simp add: find_node_def find_node_loop_find)

lemma mq_enqueue_snoc:
  assumes q: "lqueue mq_next (mq_heap q) (mq_head q) (mq_tail q) as"
    and n: "mq_heap q a = Some n" "mq_next n = None" "a \<notin> set as"
  shows "\<exists>q'. mq_enqueue (Some a) q = ret q' \<and>
    lqueue mq_next (mq_heap q') (mq_head q') (mq_tail q') (as @ [a]) \<and>
    same_nodes (mq_heap q) (mq_heap q')"
proof (cases "mq_tail q")
  case None
  with q have "as = []" by (simp add: lqueue_def split: if_splits)
  with None n show ?thesis by (auto simp: mq_enqueue_def intro: lqueue_single)
next
  case (Some t)
  with q have "t \<in> set as" by (auto simp: lqueue_def split: if_splits)
  then obtain m where m: "mq_heap q t = Some m" using chain_dom lqueueD [OF q] by fast
  from lqueue_snoc [OF q [unfolded Some] n(3,1,2), of "m\<lparr>mq_next := Some a\<rparr>"] m Some show ?thesis
    by (auto simp: mq_enqueue_def intro: same_nodes_link)
qed

lemma dequeue_search_found:
  "chain mq_next h p (us @ a # vs) None \<Longrightarrow> \<forall>x \<in> set us. uid (the (h x)) \<noteq> u \<Longrightarrow>
   uid (the (h a)) = u \<Longrightarrow>
   dequeue_search h u p prev = ret (Some a, if us = [] then prev else Some (last us))"
proof (induction us arbitrary: p prev)
  case Nil
  then show ?case by (subst dequeue_search.simps) (auto split: option.splits)
next
  case (Cons x us)
  then show ?case by (subst dequeue_search.simps) (auto split: option.splits)
qed

lemma dequeue_search_missing:
  "chain mq_next h p as None \<Longrightarrow> \<forall>x \<in> set as. uid (the (h x)) \<noteq> u \<Longrightarrow>
   \<exists>q. dequeue_search h u p prev = ret (None, q)"
proof (induction as arbitrary: p prev)
  case Nil
  then show ?case by (subst dequeue_search.simps) simp
next
  case (Cons x us)
  then show ?case by (subst dequeue_search.simps) (auto split: option.splits)
qed

lemma mq_dequeue_head:
  assumes "chain mq_next (mq_heap q) (mq_head q) (a # as) None" and "mq_heap q a = Some n" and "uid n = u"
  shows "mq_dequeue u q = ret (q\<lparr>mq_heap := (mq_heap q)(a := None), mq_head := mq_next n\<rparr>)"
  using assms by (simp add: mq_dequeue_def)

text \<open>Behind the head, the node is unlinked and the tail pointer is corrected.\<close>

lemma mq_dequeue_behind:
  assumes q: "lqueue mq_next (mq_heap q) (mq_head q) (mq_tail q) (us @ b # a # vs)"
    and us: "\<forall>x \<in> set (us @ [b]). uid (the (mq_heap q x)) \<noteq> u" and a: "uid (the (mq_heap q a)) = u"
  shows "\<exists>q'. mq_dequeue u q = ret q' \<and>
    lqueue mq_next (mq_heap q') (mq_head q') (mq_tail q') (us @ b # vs) \<and>
    (\<forall>x. x \<noteq> a \<longrightarrow> map_option strip (mq_heap q' x) = map_option strip (mq_heap q x))"
proof -
  have c: "chain mq_next (mq_heap q) (mq_head q) (us @ b # a # vs) None" using q by (rule lqueueD)
  have d: "distinct (us @ b # a # vs)" using c by (rule chain_distinct)
  obtain m n where m: "mq_heap q b = Some m" and n: "mq_heap q a = Some n"
    using chain_dom [OF c, of a] chain_dom [OF c, of b] by auto
  obtain x xs where x: "us @ [b] = x # xs" by (metis append_Cons neq_Nil_conv snoc_eq_iff_butlast)
  then have "chain mq_next (mq_heap q) (mq_head q) (x # xs @ a # vs) None"
    using c by (metis append.assoc append_Cons append_Nil)
  then obtain f where f: "mq_head q = Some x" "mq_heap q x = Some f" by (auto split: option.splits)
  have "uid f \<noteq> u" using us x f(2) by (metis list.set_intros(1) option.sel)
  moreover have "dequeue_search (mq_heap q) u (mq_head q) None = ret (Some a, Some b)"
    using dequeue_search_found [of "mq_heap q" "mq_head q" "us @ [b]" a vs u None] c us a by simp
  moreover have "b \<noteq> a" using d by auto
  ultimately have run: "mq_dequeue u q =
      ret (q\<lparr>mq_heap := (mq_heap q)(b \<mapsto> m\<lparr>mq_next := mq_next n\<rparr>, a := None),
        mq_tail := if Some a = mq_tail q then Some b else mq_tail q\<rparr>)"
    using f m n by (simp add: mq_dequeue_def Let_def)
  have "chain mq_next ((mq_heap q)(b \<mapsto> m\<lparr>mq_next := mq_next n\<rparr>, a := None)) (mq_head q)
      (us @ b # vs) None"
    by (rule chain_unlink [OF c n]) simp
  moreover have "(if Some a = mq_tail q then Some b else mq_tail q) = Some (last (us @ b # vs))"
    using q d by (cases vs rule: rev_cases) (auto simp: lqueue_def)
  ultimately show ?thesis using run m by (auto simp: lqueue_def)
qed

lemma mq_dequeue_absent:
  assumes c: "chain mq_next (mq_heap q) (mq_head q) as None"
    and u: "\<forall>x \<in> set as. uid (the (mq_heap q x)) \<noteq> u"
  shows "mq_dequeue u q = ret q"
proof (cases as)
  case Nil
  with c show ?thesis by (simp add: mq_dequeue_def)
next
  case (Cons a bs)
  with c obtain n where n: "mq_head q = Some a" "mq_heap q a = Some n" by (auto split: option.splits)
  moreover have "uid n \<noteq> u" using u Cons n(2) by auto
  moreover obtain r where "dequeue_search (mq_heap q) u (mq_head q) None = ret (None, r)"
    using dequeue_search_missing [OF c u] by blast
  ultimately show ?thesis by (simp add: mq_dequeue_def)
qed

text \<open>
  With at least two nodes, removing by identifier keeps the queue well formed.
\<close>

lemma mq_dequeue_remove1:
  assumes q: "lqueue mq_next (mq_heap q) (mq_head q) (mq_tail q) as" and two: "2 \<le> length as"
    and f: "find (\<lambda>x. uid (the (mq_heap q x)) = u) as = Some a"
  shows "\<exists>q'. mq_dequeue u q = ret q' \<and>
    lqueue mq_next (mq_heap q') (mq_head q') (mq_tail q') (remove1 a as)"
proof -
  from f obtain us vs where s: "as = us @ a # vs" "uid (the (mq_heap q a)) = u"
    "\<forall>x \<in> set us. uid (the (mq_heap q x)) \<noteq> u" by (rule find_SomeE)
  have na: "a \<notin> set us" using chain_distinct [OF lqueueD [OF q]] s(1) by auto
  show ?thesis
  proof (cases us rule: rev_cases)
    case Nil
    with s q obtain n where n: "mq_heap q a = Some n" by (auto simp: lqueue_def split: option.splits)
    have "chain mq_next (mq_heap q) (mq_next n) vs None" "vs \<noteq> []"
      using lqueueD [OF q] s(1) Nil two n by auto
    then have "mq_next n \<noteq> None" by (rule chain_not_None)
    with lqueue_tl [of mq_next "mq_heap q" "mq_head q" "mq_tail q" a vs n None] q s(1) Nil n
      mq_dequeue_head [of q a vs n u] lqueueD [OF q] s(2)
    show ?thesis by auto
  next
    case (snoc ws b)
    with mq_dequeue_behind [of q ws b a vs u] q s na show ?thesis
      by (fastforce simp: remove1_append)
  qed
qed

text \<open>
  Removing the only node leaves a tail pointer to the freed node. What is appended next is
  not in the queue: the write through the tail pointer goes to freed memory, and where
  \<open>malloc\<close> has handed out that block again the new node is only linked to itself.
\<close>

lemma mq_dequeue_last:
  assumes "lqueue mq_next (mq_heap q) (mq_head q) (mq_tail q) [a]" and "uid (the (mq_heap q a)) = u"
  shows "mq_dequeue u q = ret (q\<lparr>mq_heap := (mq_heap q)(a := None), mq_head := None\<rparr>) \<and>
    mq_tail q = Some a"
  using assms mq_dequeue_head [of q a "[]" "the (mq_heap q a)" u]
  by (auto simp: lqueue_def split: option.splits)

lemma mq_enqueue_dangling:
  assumes "mq_tail q = Some t" and "mq_heap q t = None"
  shows "mq_enqueue p q = stop_with Dangling"
  using assms by (simp add: mq_enqueue_def)

lemma mq_enqueue_reused:
  assumes "mq_tail q = Some t" and "mq_heap q t = Some n"
  shows "mq_enqueue (Some t) q =
    ret (q\<lparr>mq_heap := (mq_heap q)(t \<mapsto> n\<lparr>mq_next := Some t\<rparr>), mq_tail := Some t\<rparr>)"
  using assms by (simp add: mq_enqueue_def)

section \<open>Printing\<close>

text \<open>\<open>%s\<close> prints a buffer up to its terminator, and reads beyond the block when there is none.\<close>

definition print_node :: "int \<Rightarrow> msg_node \<Rightarrow> string prog" where
  "print_node base_pid n =
     (if NUL \<notin> set (buffer n) then stop_with Out_of_bounds
      else ret (''['' @ dec_int base_pid @ ''] base port: '' @ dec_int (port_num n) @ '', LC: '' @ dec (unat (lc n)) @
        '', Event ID: '' @ dec (unat (uid n)) @ '', ack_flg: '' @ dec_int (ack_flg n) @ '', Msg Length: '' @
        dec (buf_len n) @ '', Msg: '' @ cstr (buffer n) @ [LF]))"

partial_function (option) print_queue_loop :: "int \<Rightarrow> msg_node heap \<Rightarrow> ptr \<Rightarrow> string \<Rightarrow> string prog" where
  "print_queue_loop base_pid h current out =
     (if current = None then ret out
      else bindp (load h current) (\<lambda>n.
        bindp (print_node base_pid n) (\<lambda>line. print_queue_loop base_pid h (mq_next n) (out @ line))))"

definition print_queue :: "int \<Rightarrow> msg_queue \<Rightarrow> string prog" where
  "print_queue base_pid q = print_queue_loop base_pid (mq_heap q) (mq_head q) []"

lemma print_queue_loop_lines:
  "chain mq_next h p as None \<Longrightarrow> \<forall>a \<in> set as. print_node i (the (h a)) = ret (line a) \<Longrightarrow>
   print_queue_loop i h p out = ret (out @ concat (map line as))"
proof (induction as arbitrary: p out)
  case Nil
  then show ?case by (subst print_queue_loop.simps) simp
next
  case (Cons a as)
  then show ?case by (subst print_queue_loop.simps) (auto split: option.splits)
qed

lemma print_queue_loop_stops:
  "chain mq_next h p as None \<Longrightarrow> a \<in> set as \<Longrightarrow> NUL \<notin> set (buffer (the (h a))) \<Longrightarrow>
   print_queue_loop i h p out = stop_with Out_of_bounds"
proof (induction as arbitrary: p out)
  case (Cons b as)
  then obtain n where n: "p = Some b" "h b = Some n" "chain mq_next h (mq_next n) as None"
    by (auto split: option.splits)
  show ?case
  proof (cases "NUL \<in> set (buffer n)")
    case True
    then obtain line where "print_node i n = ret line" by (simp add: print_node_def)
    moreover have "a \<in> set as" using Cons.prems(2,3) True n(2) by auto
    ultimately show ?thesis
      using n Cons.IH [OF n(3) _ Cons.prems(3)] by (subst print_queue_loop.simps) simp
  next
    case False
    with n show ?thesis by (subst print_queue_loop.simps) (simp add: print_node_def)
  qed
qed simp

section \<open>Properties\<close>

definition sample_msg :: "int \<Rightarrow> 32 word \<Rightarrow> 32 word \<Rightarrow> ptr \<Rightarrow> msg_node" where
  "sample_msg p ts u nxt = \<lparr>pid = p, port_num = 10000, ack_flg = 0, ack_count = 0, buffer = ''m'' @ [NUL],
     buf_len = 1, lc = ts, uid = u, nprocs = 3, mq_next = nxt\<rparr>"

text \<open>Three messages: a late one, and two with the same timestamp from processes 5 and 7.\<close>

definition sample_queue :: msg_queue where
  "sample_queue = \<lparr>mq_heap = [11 \<mapsto> sample_msg 5 9 31 (Some 12), 12 \<mapsto> sample_msg 5 2 32 (Some 13),
     13 \<mapsto> sample_msg 7 2 33 None], mq_head = Some 11, mq_tail = Some 13\<rparr>"

lemma sample_queue_rep: "lqueue mq_next (mq_heap sample_queue) (mq_head sample_queue) (mq_tail sample_queue) [11, 12, 13]"
  by (simp add: lqueue_def sample_queue_def sample_msg_def)

text \<open>
  C36: \<open>order_queue\<close> is the library's stable sort of the queue by increasing timestamp and, for equal
  timestamps, decreasing process number: the same nodes, none of their data changed, messages
  that tie in both staying in their order, and head and tail at the two ends.
\<close>

theorem order_queue_orders:
  assumes "lqueue mq_next (mq_heap q) (mq_head q) (mq_tail q) as"
  shows "\<exists>q'. order_queue q = ret q' \<and>
    lqueue mq_next (mq_heap q') (mq_head q') (mq_tail q') (sort_key (\<lambda>a. stamp_of (the (mq_heap q a))) as) \<and>
    same_nodes (mq_heap q) (mq_heap q')"
proof -
  have "agrees (\<lambda>a. the (mq_heap q a)) (mq_heap q) as"
    using chain_dom [OF lqueueD [OF assms]] by (fastforce simp: agrees_def)
  from order_queue_lqueue [OF assms this] show ?thesis by (simp add: osort_sort_key)
qed

theorem order_queue_orders_witness:
  "\<exists>q'. order_queue sample_queue = ret q' \<and>
     lqueue mq_next (mq_heap q') (mq_head q') (mq_tail q') [13, 12, 11]"
proof -
  have "sort_key (\<lambda>a. stamp_of (the (mq_heap sample_queue a))) [11, 12, 13] = [13, 12, 11]"
    by (simp add: sample_queue_def sample_msg_def stamp_of_def less_eq_stamp_def)
  with order_queue_orders [OF sample_queue_rep] show ?thesis by metis
qed

text \<open>
  C35: \<open>print_queue\<close> prints one line for each message, in the order of the queue, when every buffer has
  a terminator; it reads beyond a block when one has none. The code prints the queue before it
  writes a terminator behind a received message.
\<close>

theorem print_queue_lines:
  assumes "lqueue mq_next (mq_heap q) (mq_head q) (mq_tail q) as"
  shows "((\<forall>a \<in> set as. NUL \<in> set (buffer (the (mq_heap q a)))) \<longrightarrow>
      (\<exists>line. (\<forall>a \<in> set as. print_node i (the (mq_heap q a)) = ret (line a)) \<and>
         print_queue i q = ret (concat (map line as)))) \<and>
    ((\<exists>a \<in> set as. NUL \<notin> set (buffer (the (mq_heap q a)))) \<longrightarrow> print_queue i q = stop_with Out_of_bounds)"
proof (intro conjI impI)
  note c = lqueueD [OF assms]
  assume t: "\<forall>a \<in> set as. NUL \<in> set (buffer (the (mq_heap q a)))"
  define line where "line a = projr (the (print_node i (the (mq_heap q a))))" for a
  have "\<forall>a \<in> set as. print_node i (the (mq_heap q a)) = ret (line a)"
    using t by (simp add: print_node_def line_def)
  with print_queue_loop_lines [OF c, of i line "[]"]
  show "\<exists>line. (\<forall>a \<in> set as. print_node i (the (mq_heap q a)) = ret (line a)) \<and>
      print_queue i q = ret (concat (map line as))"
    by (intro exI [of _ line]) (simp add: print_queue_def)
next
  assume "\<exists>a \<in> set as. NUL \<notin> set (buffer (the (mq_heap q a)))"
  with print_queue_loop_stops [OF lqueueD [OF assms]] show "print_queue i q = stop_with Out_of_bounds"
    by (auto simp: print_queue_def)
qed

theorem print_queue_lines_witness:
  "\<exists>text. print_queue 4711 sample_queue = ret text"
proof -
  have "\<forall>a \<in> set [11, 12, 13]. NUL \<in> set (buffer (the (mq_heap sample_queue a)))"
    by (simp add: sample_queue_def sample_msg_def)
  with print_queue_lines [OF sample_queue_rep, of 4711] show ?thesis by blast
qed

text \<open>
  C37: in a queue of two or more messages, \<open>dequeue\<close> removes the first one with the identifier, keeps
  the others in their order and leaves head and tail at the ends; an identifier that no message
  has changes nothing.
\<close>

theorem dequeue_removes_first:
  assumes "lqueue mq_next (mq_heap q) (mq_head q) (mq_tail q) as" and "2 \<le> length as"
  shows "\<exists>q'. mq_dequeue u q = ret q' \<and>
    lqueue mq_next (mq_heap q') (mq_head q') (mq_tail q')
      (case find (\<lambda>a. uid (the (mq_heap q a)) = u) as of None \<Rightarrow> as | Some a \<Rightarrow> remove1 a as)"
proof (cases "find (\<lambda>a. uid (the (mq_heap q a)) = u) as")
  case None
  then have "\<forall>x \<in> set as. uid (the (mq_heap q x)) \<noteq> u" by (simp add: find_None_iff)
  from mq_dequeue_absent [OF lqueueD [OF assms(1)] this] assms(1) show ?thesis by (simp add: None)
next
  case (Some a)
  from mq_dequeue_remove1 [OF assms Some] Some show ?thesis by simp
qed

theorem dequeue_removes_first_witness:
  "\<exists>q'. mq_dequeue 33 sample_queue = ret q' \<and>
     lqueue mq_next (mq_heap q') (mq_head q') (mq_tail q') [11, 12]"
  using dequeue_removes_first [OF sample_queue_rep, of 33] by (simp add: sample_queue_def sample_msg_def)

end
