(* ===== verification/TobCodec.thy ===== *)
theory TobCodec
  imports Sockets TobQueue
begin

text \<open>
  The messages of the broadcast program: the identifier of a message, the request of
  \<open>TOB/client_app.c\<close>, and from \<open>TOB/client_handle.c\<close> the encoding of a broadcast and its
  decoding in \<open>handle_broadcast\<close>, the texts of the acknowledgement and ready messages and
  their parsing, and the loops that send and receive a whole buffer.
\<close>

unbundle bit_operations_syntax

section \<open>Identifiers\<close>

definition generate_uid :: "32 word \<Rightarrow> 32 word \<Rightarrow> 32 word" where
  "generate_uid self_pid ts = push_bit 12 self_pid OR ts"

section \<open>Sending and receiving whole buffers\<close>

text \<open>
  Both loops advance the buffer by the bytes of the last call, \<open>buffer + bsent\<close> and
  \<open>buffer + brecv\<close>, not by the bytes of all calls.
\<close>

partial_function (option) send_buffer_loop ::
  "string \<Rightarrow> nat \<Rightarrow> nat \<Rightarrow> nat \<Rightarrow> nat \<Rightarrow> nat option list \<Rightarrow> string \<Rightarrow> (nat \<times> bool \<times> string) prog" where
  "send_buffer_loop buf len sent bleft bsent cs out =
     (if sent < len then
        bindp (slice buf bsent bleft) (\<lambda>data.
        case send cs data of
          (None, cs) \<Rightarrow> ret (sent, True, out)
        | (Some bs, cs) \<Rightarrow>
            send_buffer_loop buf len (sent + length bs) (bleft - length bs) (length bs) cs (out @ bs))
      else ret (sent, False, out))"

text \<open>The status (1 on failure), the updated \<open>*buf_len\<close> and the bytes that went out.\<close>

definition send_buffer :: "string \<Rightarrow> nat \<Rightarrow> nat option list \<Rightarrow> (int \<times> nat \<times> string) prog" where
  "send_buffer buf len cs =
     bindp (send_buffer_loop buf len 0 len 0 cs []) (\<lambda>(sent, failed, out).
     ret (if failed then 1 else 0, sent, out))"

partial_function (option) recv_buffer_loop ::
  "nat \<Rightarrow> nat \<Rightarrow> nat \<Rightarrow> nat \<Rightarrow> string \<Rightarrow> arrival list \<Rightarrow> (bool \<times> nat \<times> string \<times> arrival list) prog" where
  "recv_buffer_loop len got bleft brecv buf as =
     (if got < len \<and> bleft > 0 then
        bindp (recv as bleft) (\<lambda>(r, as).
        case r of
          None \<Rightarrow> ret (True, got, buf, as)
        | Some bs \<Rightarrow>
            if bs = [] then ret (False, got, buf, as)
            else bindp (write_at buf brecv bs) (\<lambda>buf.
              recv_buffer_loop len (got + length bs) (bleft - length bs) (length bs) buf as))
      else ret (False, got, buf, as))"

text \<open>The status, the updated \<open>*buf_len\<close>, the buffer and what is left to receive.\<close>

definition recv_buffer ::
  "string \<Rightarrow> nat \<Rightarrow> arrival list \<Rightarrow> (int \<times> nat \<times> string \<times> arrival list) prog" where
  "recv_buffer buf len as =
     bindp (recv_buffer_loop len 0 len 0 buf as) (\<lambda>(failed, got, buf, as).
     ret (if failed then 1 else 0, got, buf, as))"

section \<open>The request of a client\<close>

text \<open>
  \<open>main\<close> of \<open>client_app.c\<close> from the message to the bytes it hands to \<open>sendFullBuffer\<close>: \<open>None\<close>
  when the length does not fit six digits. \<open>frame\<close> is the array \<open>msg_buffer\<close>, of
  \<open>7 + msg_len + 9\<close> bytes, and what lies behind it.
\<close>

definition issue_strip :: "string \<Rightarrow> string" where
  "issue_strip message =
     (if message \<noteq> [] \<and> last message = LF then butlast message else message)"

definition issue_message :: "string \<Rightarrow> (nat \<Rightarrow> string) \<Rightarrow> string option prog" where
  "issue_message message frame =
     (let message = issue_strip message; msg_len = length message;
          total_buffer_size = 7 + msg_len + 9; msg_buffer = frame total_buffer_size;
          digits = pad_zero 6 (dec msg_len)
      in bindp (write_at msg_buffer 0 (''ISSUE'' @ CRLF)) (\<lambda>msg_buffer.
         bindp (write_at msg_buffer 7 (snprintf_bytes 7 digits)) (\<lambda>msg_buffer.
         if 7 \<le> length digits then ret None
         else bindp (write_at msg_buffer 13 ''|'') (\<lambda>msg_buffer.
              bindp (write_at msg_buffer 14 message) (\<lambda>msg_buffer.
              bindp (write_at msg_buffer (14 + msg_len) [CR, LF, NUL]) (\<lambda>msg_buffer.
              ret (Some (take (17 + msg_len) msg_buffer))))))))"

section \<open>A broadcast\<close>

text \<open>
  \<open>encode_broadcast_buffer\<close>. Each number is printed into a local array and a fixed number of
  its bytes copied, so a number that is too long loses its last digits.
\<close>

definition encode_broadcast_buffer :: "msg_node \<Rightarrow> string \<Rightarrow> 32 word \<Rightarrow> string prog" where
  "encode_broadcast_buffer n buf ts =
     bindp (write_at buf 0 (''BROAD'' @ CRLF)) (\<lambda>buf.
     bindp (write_at buf 7 (take 12 (pad_left 12 (dec (unat (uid n)))))) (\<lambda>buf.
     bindp (write_at buf 19 (take 8 (dec_int_zero 8 (pid n)))) (\<lambda>buf.
     bindp (write_at buf 27 (take 8 (dec_int_zero 8 (port_num n)))) (\<lambda>buf.
     bindp (write_at buf 35 (take 4 (pad_zero 4 (dec (unat ts))))) (\<lambda>buf.
     bindp (write_at buf 39 (take 6 (pad_zero 6 (dec (buf_len n))))) (\<lambda>buf.
     bindp (slice (buffer n) 0 (buf_len n)) (\<lambda>bytes.
     bindp (write_at buf 45 bytes) (\<lambda>buf.
     bindp (write_at buf (45 + buf_len n) CRLF) (\<lambda>buf.
     write_at buf (47 + buf_len n) [NUL])))))))))"

text \<open>The fields \<open>handle_broadcast\<close> reads out of the 38 bytes before the message.\<close>

record bcast_meta =
  b_uid :: "32 word"
  b_pid :: int
  b_port :: int
  b_lc :: "32 word"
  b_len :: int

definition decode_metadata :: "string \<Rightarrow> bcast_meta" where
  "decode_metadata metadata =
     \<lparr>b_uid = ucast (fst (strtoul (cstr (take 12 metadata)))),
      b_pid = atoi (cstr (take 8 (drop 12 metadata))),
      b_port = atoi (cstr (take 8 (drop 20 metadata))),
      b_lc = ucast (fst (strtoul (cstr (take 4 (drop 28 metadata))))),
      b_len = atoi (cstr (take 6 (drop 32 metadata)))\<rparr>"

section \<open>Acknowledgements and ready messages\<close>

text \<open>What \<open>send_p2p_ack\<close> and \<open>broadcast_ready_message\<close> send.\<close>

definition ack_message :: "int \<Rightarrow> 32 word \<Rightarrow> string" where
  "ack_message base_pid u = ''ACK00'' @ CRLF @ ''PID:'' @ dec_int base_pid @ '' UID:'' @ dec (unat u)"

definition ready_message :: "32 word \<Rightarrow> string" where
  "ready_message u = ''READY'' @ CRLF @ ''UID:'' @ dec (unat u)"

text \<open>\<open>sscanf (ack_msg, "PID:%d UID:%u", \<dots>) == 2\<close> and \<open>sscanf (ready_msg, "UID:%u", \<dots>) == 1\<close>.\<close>

definition scan_ack :: "string \<Rightarrow> (int \<times> 32 word) option" where
  "scan_ack s =
     Option.bind (scan_lit ''PID:'' s) (\<lambda>s.
     Option.bind (scan_d s) (\<lambda>(p, s).
     Option.bind (scan_lit ''UID:'' (dropWhile is_space s)) (\<lambda>s.
     map_option (\<lambda>(u, _). (p, u)) (scan_u s))))"

definition scan_ready :: "string \<Rightarrow> 32 word option" where
  "scan_ready s = Option.bind (scan_lit ''UID:'' s) (\<lambda>s. map_option fst (scan_u s))"

section \<open>Identifiers are unique while the clock has twelve bits\<close>

lemma small_words:
  "(w :: 32 word) < 4096 \<Longrightarrow> take_bit 12 w = w"
  "(w :: 32 word) < 1048576 \<Longrightarrow> take_bit 20 w = w"
  "(w :: 32 word) < 4096 \<Longrightarrow> drop_bit 12 w = 0"
  by (simp_all add: take_bit_eq_mod drop_bit_eq_div word_mod_def word_div_def word_less_def)

lemma uid_parts:
  "take_bit 12 (generate_uid p ts) = take_bit 12 ts"
  "drop_bit 12 (generate_uid p ts) = take_bit 20 p OR drop_bit 12 ts"
  by (rule bit_eqI, auto simp: generate_uid_def bit_simps)+

lemma generate_uid_inj:
  assumes "ts < 4096" "ts' < 4096" "p < 1048576" "p' < 1048576"
    and "generate_uid p ts = generate_uid p' ts'"
  shows "p = p' \<and> ts = ts'"
proof
  from assms(5) have "take_bit 12 (generate_uid p ts) = take_bit 12 (generate_uid p' ts')" by simp
  with assms(1,2) show "ts = ts'" by (simp add: uid_parts small_words)
  from assms(5) have "drop_bit 12 (generate_uid p ts) = drop_bit 12 (generate_uid p' ts')" by simp
  with assms(1-4) show "p = p'" by (simp add: uid_parts small_words)
qed

text \<open>The thirteenth bit of the clock falls on the lowest bit of the process number.\<close>

lemma generate_uid_collision:
  assumes "bit p 0"
  shows "generate_uid p (4096 OR ts) = generate_uid p ts"
proof -
  have "p OR 1 = p" using assms by (intro bit_eqI) (auto simp: bit_simps bit_1_iff)
  then have "push_bit 12 p OR push_bit 12 1 = push_bit 12 p" by (simp only: flip: push_bit_or)
  moreover have "(push_bit 12 1 :: 32 word) = 4096" by simp
  ultimately have "push_bit 12 p OR 4096 = push_bit 12 p" by (simp only:)
  then show ?thesis by (simp add: generate_uid_def flip: or.assoc)
qed

section \<open>One or two pieces are handled right, three are not\<close>

lemma recv_buffer_loop_full: "recv_buffer_loop len len bleft brecv buf as = ret (False, len, buf, as)"
  by (subst recv_buffer_loop.simps) simp

lemma recv_buffer_one:
  assumes "b \<noteq> []" and "length b = len" and "len \<le> length buf"
  shows "recv_buffer buf len (Bytes (b @ rest) # as) = ret (0, len, b @ drop len buf, rest_of rest as)"
proof -
  have "recv (Bytes (b @ rest) # as) len = ret (Some b, rest_of rest as)"
    using assms by (intro recv_prefix) auto
  with assms show ?thesis
    unfolding recv_buffer_def
    by (subst recv_buffer_loop.simps) (auto simp: recv_buffer_loop_full write_at_def simp del: recv.simps)
qed

lemma recv_buffer_loop_step:
  assumes "b \<noteq> []" and "length b \<le> bleft" and "got < len"
    and "brecv + length b \<le> length buf"
  shows "recv_buffer_loop len got bleft brecv buf (Bytes b # as) =
    recv_buffer_loop len (got + length b) (bleft - length b) (length b)
      (take brecv buf @ b @ drop (brecv + length b) buf) as"
proof -
  have "0 < bleft" using assms(1,2) by (metis le_zero_eq length_0_conv not_gr_zero)
  then show ?thesis
    using assms by (subst recv_buffer_loop.simps) (simp add: write_at_def)
qed

lemma recv_buffer_two:
  assumes "b1 \<noteq> []" "b2 \<noteq> []" and "length b1 + length b2 = len" and "len \<le> length buf"
  shows "recv_buffer buf len (Bytes b1 # Bytes b2 # as) = ret (0, len, b1 @ b2 @ drop len buf, as)"
proof -
  have 1: "recv_buffer_loop len 0 len 0 buf (Bytes b1 # Bytes b2 # as) =
      recv_buffer_loop len (length b1) (len - length b1) (length b1) (b1 @ drop (length b1) buf)
        (Bytes b2 # as)"
    using assms by (subst recv_buffer_loop_step) auto
  have 2: "recv_buffer_loop len (length b1) (len - length b1) (length b1) (b1 @ drop (length b1) buf)
      (Bytes b2 # as) = recv_buffer_loop len len 0 (length b2) (b1 @ b2 @ drop len buf) as"
    using assms by (subst recv_buffer_loop_step) (auto simp: add.commute)
  show ?thesis unfolding recv_buffer_def 1 2 by (simp add: recv_buffer_loop_full)
qed

lemma nth_behind:
  "length xs = m \<Longrightarrow> m \<le> i \<Longrightarrow> i < length ys \<Longrightarrow> (xs @ drop m ys) ! i = ys ! i"
  by (simp add: nth_append)

text \<open>
  With three pieces the third one is written behind as many bytes as the second one had:
  the last byte of the buffer keeps what it held.
\<close>

lemma recv_buffer_three:
  assumes ne: "b1 \<noteq> []" "b2 \<noteq> []" "b3 \<noteq> []"
    and len: "length b1 + length b2 + length b3 = len" "len \<le> length buf"
  shows "\<exists>buf'. recv_buffer buf len [Bytes b1, Bytes b2, Bytes b3] = ret (0, len, buf', []) \<and>
    length buf' = length buf \<and> buf' ! (len - 1) = buf ! (len - 1)"
proof -
  have l: "0 < length b1" "0 < length b2" "0 < length b3" using ne by auto
  have i: "length b1 + length b2 \<le> len - 1" "length b2 + length b3 \<le> len - 1"
    "len - 1 < length buf" using l len by linarith+
  let ?buf1 = "b1 @ drop (length b1) buf"
  let ?buf2 = "b1 @ b2 @ drop (length b1 + length b2) buf"
  let ?buf3 = "take (length b2) ?buf2 @ b3 @ drop (length b2 + length b3) ?buf2"
  have 1: "recv_buffer_loop len 0 len 0 buf [Bytes b1, Bytes b2, Bytes b3] =
      recv_buffer_loop len (length b1) (len - length b1) (length b1) ?buf1 [Bytes b2, Bytes b3]"
    using ne len by (subst recv_buffer_loop_step) auto
  have 2: "recv_buffer_loop len (length b1) (len - length b1) (length b1) ?buf1 [Bytes b2, Bytes b3] =
      recv_buffer_loop len (length b1 + length b2) (len - length b1 - length b2) (length b2) ?buf2 [Bytes b3]"
    using ne len by (subst recv_buffer_loop_step) (auto simp: add.commute)
  have 3: "recv_buffer_loop len (length b1 + length b2) (len - length b1 - length b2) (length b2) ?buf2
      [Bytes b3] = recv_buffer_loop len len 0 (length b3) ?buf3 []"
    using ne len l by (subst recv_buffer_loop_step) (auto simp: add.commute)
  have "recv_buffer buf len [Bytes b1, Bytes b2, Bytes b3] = ret (0, len, ?buf3, [])"
    unfolding recv_buffer_def 1 2 3 by (simp add: recv_buffer_loop_full)
  moreover have l2: "length ?buf2 = length buf" using len by simp
  have "length ?buf3 = length buf" using len by simp
  moreover have "?buf2 ! (len - 1) = buf ! (len - 1)"
    using nth_behind [of "b1 @ b2" "length b1 + length b2" "len - 1" buf] i
    by (simp only: append_assoc length_append)
  moreover have "(take (length b2) buf2 @ b3 @ drop (length b2 + length b3) buf2) ! (len - 1) =
      buf2 ! (len - 1)" if "length buf2 = length buf" for buf2 :: string
    using nth_behind [of "take (length b2) buf2 @ b3" "length b2 + length b3" "len - 1" buf2]
      i len that by (simp only: append_assoc length_append length_take)
  from this [OF l2] have "?buf3 ! (len - 1) = ?buf2 ! (len - 1)" .
  ultimately show ?thesis by (intro exI [of _ ?buf3]) (simp only:)
qed


text \<open>The same for sending: the third piece starts where the second one ended in length only.\<close>

lemma send_buffer_loop_full: "send_buffer_loop buf len len bleft bsent cs out = ret (len, False, out)"
  by (subst send_buffer_loop.simps) simp

lemma send_buffer_loop_step:
  assumes "sent < len" and "bsent + bleft \<le> length buf"
  shows "send_buffer_loop buf len sent bleft bsent (Some k # cs) out =
    send_buffer_loop buf len (sent + min k bleft) (bleft - min k bleft) (min k bleft) cs
      (out @ take (min k bleft) (drop bsent buf))"
proof -
  have l: "length (take (min k bleft) (drop bsent buf)) = min k bleft" using assms(2) by auto
  show ?thesis
    using assms by (subst send_buffer_loop.simps) (simp only: slice_ok l case_prod_conv option.case send.simps
      bindp_simps if_True take_take)
qed

lemma send_buffer_loop_rest:
  assumes "sent < len" and "bsent + bleft \<le> length buf" and "sent + bleft = len"
  shows "send_buffer_loop buf len sent bleft bsent [] out =
    ret (len, False, out @ take bleft (drop bsent buf))"
  using assms by (subst send_buffer_loop.simps) (simp add: send_buffer_loop_full)

lemma send_buffer_one:
  "len \<le> length buf \<Longrightarrow> send_buffer buf len [] = ret (0, len, take len buf)"
  by (cases "len = 0") (simp_all add: send_buffer_def send_buffer_loop_rest send_buffer_loop_full)

lemma send_buffer_two:
  assumes "k < len" and "len \<le> length buf"
  shows "send_buffer buf len [Some k] = ret (0, len, take len buf)"
proof -
  have "take len buf = take k buf @ take (len - k) (drop k buf)"
    using assms by (metis le_add_diff_inverse less_imp_le take_add)
  with assms show ?thesis
    by (simp add: send_buffer_def send_buffer_loop_step send_buffer_loop_rest)
qed

lemma send_buffer_three:
  assumes "0 < j" "j + k < len" and "len \<le> length buf"
  shows "send_buffer buf len [Some j, Some k] =
    ret (0, len, take j buf @ take k (drop j buf) @ take (len - j - k) (drop k buf))"
  using assms by (simp add: send_buffer_def send_buffer_loop_step send_buffer_loop_rest)

section \<open>The frame of a request\<close>

definition issue_frame :: "string \<Rightarrow> string" where
  "issue_frame msg = ''ISSUE'' @ CRLF @ pad_zero 6 (dec (length msg)) @ ''|'' @ msg @ CRLF @ [NUL]"

text \<open>Everything but the last write, for which the buffer may be too short.\<close>

lemma issue_message_run:
  assumes len: "length (issue_strip msg) < 10 ^ 6"
    and mem: "frame (7 + length (issue_strip msg) + 9) = mem" "16 + length (issue_strip msg) \<le> length mem"
  shows "issue_message msg frame =
    bindp (write_at
        (wbuf (''ISSUE'' @ CRLF @ pad_zero 6 (dec (length (issue_strip msg))) @ ''|'' @ issue_strip msg)
          (drop (length (issue_strip msg) + 14) mem))
        (14 + length (issue_strip msg)) [CR, LF, NUL])
      (\<lambda>b. ret (Some (take (17 + length (issue_strip msg)) b)))"
proof -
  let ?m = "issue_strip msg" and ?d = "pad_zero 6 (dec (length (issue_strip msg)))"
  have l: "length ?d = 6" using len length_dec_le [of 6 "length ?m"] by simp
  have "write_at mem 0 (''ISSUE'' @ CRLF) = ret (wbuf (''ISSUE'' @ CRLF) (drop 7 mem))"
    using mem(2) by (subst write_fresh) (auto simp: CRLF_def eval_nat_numeral)
  moreover have "write_at (wbuf (''ISSUE'' @ CRLF) (drop 7 mem)) 7 (?d @ [NUL]) =
      ret (wbuf (''ISSUE'' @ CRLF @ ?d) (NUL # drop 14 mem))"
    using l mem(2) by (subst write_wbuf) (auto simp: CRLF_def wbuf_def)
  moreover have "write_at (wbuf (''ISSUE'' @ CRLF @ ?d) (NUL # drop 14 mem)) 13 ''|'' =
      ret (wbuf (''ISSUE'' @ CRLF @ ?d @ ''|'') (drop 14 mem))"
    using l by (subst write_wbuf) (auto simp: CRLF_def wbuf_def)
  moreover have "write_at (wbuf (''ISSUE'' @ CRLF @ ?d @ ''|'') (drop 14 mem)) 14 ?m =
      ret (wbuf (''ISSUE'' @ CRLF @ ?d @ ''|'' @ ?m) (drop (length ?m + 14) mem))"
    using l mem(2) by (subst write_wbuf) (auto simp: CRLF_def wbuf_def)
  ultimately show ?thesis
    using l mem(1) by (simp add: issue_message_def Let_def snprintf_fits)
qed

lemma issue_message_frame:
  assumes "length (issue_strip msg) < 10 ^ 6" and "17 + length (issue_strip msg) \<le> length mem"
    and "frame (7 + length (issue_strip msg) + 9) = mem"
  shows "issue_message msg frame = ret (Some (issue_frame (issue_strip msg)))"
proof -
  let ?m = "issue_strip msg" and ?d = "pad_zero 6 (dec (length (issue_strip msg)))"
  have l: "length ?d = 6" using assms(1) length_dec_le [of 6 "length ?m"] by simp
  have "write_at (wbuf (''ISSUE'' @ CRLF @ ?d @ ''|'' @ ?m) (drop (length ?m + 14) mem))
      (14 + length ?m) [CR, LF, NUL] = ret (wbuf (issue_frame ?m) (drop (length ?m + 17) mem))"
    using l assms(2) by (subst write_wbuf) (auto simp: CRLF_def wbuf_def issue_frame_def add.commute)
  moreover have "take (17 + length ?m) (wbuf (issue_frame ?m) (drop (length ?m + 17) mem)) = issue_frame ?m"
    using l by (intro take_wbuf) (simp add: issue_frame_def CRLF_def)
  ultimately show ?thesis
    using issue_message_run [of msg frame mem] assms(1,3) assms(2) by simp
qed

text \<open>The array the code declares is one byte too short for the terminator.\<close>

lemma issue_message_overflow:
  assumes "length (issue_strip msg) < 10 ^ 6"
    and "length (frame (7 + length (issue_strip msg) + 9)) = 7 + length (issue_strip msg) + 9"
  shows "issue_message msg frame = stop_with Out_of_bounds"
proof -
  let ?m = "issue_strip msg" and ?d = "pad_zero 6 (dec (length (issue_strip msg)))"
  have l: "length ?d = 6" using assms(1) length_dec_le [of 6 "length ?m"] by simp
  have "write_at (wbuf (''ISSUE'' @ CRLF @ ?d @ ''|'' @ ?m) (drop (length ?m + 14)
      (frame (7 + length ?m + 9)))) (14 + length ?m) [CR, LF, NUL] = stop_with Out_of_bounds"
    using l assms(2) by (intro write_at_oob) (simp add: CRLF_def)
  then show ?thesis using issue_message_run [of msg frame, OF _ refl] assms(1) assms(2) by simp
qed

section \<open>A broadcast on the wire\<close>

definition bcast_meta_text :: "msg_node \<Rightarrow> 32 word \<Rightarrow> string" where
  "bcast_meta_text n ts =
     pad_left 12 (dec (unat (uid n))) @ dec_int_zero 8 (pid n) @ dec_int_zero 8 (port_num n) @
     pad_zero 4 (dec (unat ts)) @ pad_zero 6 (dec (buf_len n))"

definition bcast_wire :: "msg_node \<Rightarrow> 32 word \<Rightarrow> string" where
  "bcast_wire n ts =
     ''BROAD'' @ CRLF @ bcast_meta_text n ts @ take (buf_len n) (buffer n) @ CRLF @ [NUL]"

text \<open>The numbers fit their columns.\<close>

definition bcast_fits :: "msg_node \<Rightarrow> 32 word \<Rightarrow> bool" where
  "bcast_fits n ts \<longleftrightarrow> 0 \<le> pid n \<and> pid n < 10 ^ 8 \<and> 0 \<le> port_num n \<and> port_num n < 10 ^ 8 \<and>
     unat ts < 10 ^ 4 \<and> buf_len n < 10 ^ 6 \<and> buf_len n \<le> length (buffer n)"

lemma unat_uid_digits: "length (dec (unat (u :: 32 word))) \<le> 10"
proof -
  have "unat u < 2 ^ 32" using unsigned_less [of u] by simp
  then show ?thesis using length_dec_le [of 10 "unat u"] by simp
qed

lemma bcast_columns:
  assumes "bcast_fits n ts"
  shows "length (pad_left 12 (dec (unat (uid n)))) = 12"
    "dec_int_zero 8 (pid n) = pad_zero 8 (dec (nat (pid n)))"
    "dec_int_zero 8 (port_num n) = pad_zero 8 (dec (nat (port_num n)))"
    "length (pad_zero 8 (dec (nat (pid n)))) = 8"
    "length (pad_zero 8 (dec (nat (port_num n)))) = 8"
    "length (pad_zero 4 (dec (unat ts))) = 4"
    "length (pad_zero 6 (dec (buf_len n))) = 6"
  using assms unat_uid_digits [of "uid n"] length_dec_le [of 8 "nat (pid n)"]
    length_dec_le [of 8 "nat (port_num n)"] length_dec_le [of 4 "unat ts"]
    length_dec_le [of 6 "buf_len n"]
  by (simp_all add: bcast_fits_def dec_int_zero_def nat_less_iff)

lemma length_bcast_meta_text: "bcast_fits n ts \<Longrightarrow> length (bcast_meta_text n ts) = 38"
  by (simp add: bcast_meta_text_def bcast_columns del: length_pads)

lemma encode_broadcast_wire:
  assumes fits: "bcast_fits n ts" and mem: "48 + buf_len n \<le> length mem"
  shows "encode_broadcast_buffer n mem ts = ret (wbuf (bcast_wire n ts) (drop (48 + buf_len n) mem))"
proof -
  note cols = bcast_columns [OF fits]
  have len: "buf_len n \<le> length (buffer n)" using fits by (simp add: bcast_fits_def)
  have "write_at mem 0 (''BROAD'' @ CRLF) = ret (wbuf (''BROAD'' @ CRLF) (drop 7 mem))"
    using mem by (subst write_fresh) (auto simp: CRLF_def eval_nat_numeral)
  then show ?thesis
    unfolding encode_broadcast_buffer_def bcast_wire_def bcast_meta_text_def
    using mem len cols
    by (simp add: write_wbuf CRLF_def add.commute del: length_pads)
qed

text \<open>The buffer \<open>total_broadcast\<close> allocates has \<open>40 + buf_len\<close> bytes, not \<open>48 + buf_len\<close>.\<close>

lemma encode_broadcast_overflow:
  assumes fits: "bcast_fits n ts" and mem: "length mem = 40 + buf_len n"
  shows "encode_broadcast_buffer n mem ts = stop_with Out_of_bounds"
proof -
  note cols = bcast_columns [OF fits]
  have len: "buf_len n \<le> length (buffer n)" using fits by (simp add: bcast_fits_def)
  have oob: "off = length xs \<Longrightarrow> length ys < length bs \<Longrightarrow>
      write_at (wbuf xs ys) off bs = stop_with Out_of_bounds" for xs ys bs :: string and off
    by (intro write_at_oob) simp
  have "write_at mem 0 (''BROAD'' @ CRLF) = ret (wbuf (''BROAD'' @ CRLF) (drop 7 mem))"
    using mem by (subst write_fresh) (auto simp: CRLF_def eval_nat_numeral)
  then show ?thesis
    unfolding encode_broadcast_buffer_def
    using mem len cols
    by (cases "5 \<le> buf_len n"; simp add: write_wbuf oob CRLF_def del: length_pads)
qed

text \<open>What arrives at the other side of a connection that carries all of it.\<close>

lemma no_NUL_in_digits: "\<forall>c \<in> set ds. is_digit c \<Longrightarrow> NUL \<notin> set ds"
  using is_digit_not_NUL by blast

lemma atoi_pad_zero: "m < 2 ^ 31 \<Longrightarrow> atoi (cstr (pad_zero w (dec m))) = int m"
  using scan_int_pad_zero [of "[]" w m]
  by (simp add: atoi_def cstr_idem no_NUL_in_digits pad_zero_digits int_of_scan_nat)

lemma no_NUL_pad_left: "NUL \<notin> set (pad_left w (dec m))"
  using no_NUL_in_digits [OF dec_digits [of m]] by (auto simp: pad_left_def)

lemma strtoul_uid: "(ucast (fst (strtoul (cstr (pad_left w (dec (unat (u :: 32 word))))))) :: 32 word) = u"
  using scan_int_pad_left [of "[]" w "unat u"]
  by (simp add: strtoul_def cstr_idem no_NUL_pad_left ucast_ulong)

lemma strtoul_ts: "(ucast (fst (strtoul (cstr (pad_zero w (dec (unat (u :: 32 word))))))) :: 32 word) = u"
  using scan_int_pad_zero [of "[]" w "unat u"]
  by (simp add: strtoul_def cstr_idem no_NUL_in_digits pad_zero_digits ucast_ulong)

lemma decode_bcast_meta:
  assumes fits: "bcast_fits n ts"
  shows "decode_metadata (bcast_meta_text n ts) =
    \<lparr>b_uid = uid n, b_pid = pid n, b_port = port_num n, b_lc = ts, b_len = int (buf_len n)\<rparr>"
proof -
  note cols = bcast_columns [OF fits]
  have "atoi (cstr (pad_zero 8 (dec (nat (pid n))))) = pid n"
    "atoi (cstr (pad_zero 8 (dec (nat (port_num n))))) = port_num n"
    "atoi (cstr (pad_zero 6 (dec (buf_len n)))) = int (buf_len n)"
    using fits atoi_pad_zero [of "nat (pid n)" 8] atoi_pad_zero [of "nat (port_num n)" 8]
      atoi_pad_zero [of "buf_len n" 6]
    by (simp_all add: bcast_fits_def nat_less_iff)
  then show ?thesis
    using cols
    by (simp add: decode_metadata_def bcast_meta_text_def strtoul_uid strtoul_ts del: length_pads)
qed

section \<open>Acknowledgements and ready messages read back\<close>

lemma scan_ack_message:
  assumes "0 \<le> p" and "p < 2 ^ 31"
  shows "scan_ack (drop 7 (ack_message p u)) = Some (p, u)"
proof -
  have "scan_int (dec (nat p) @ '' UID:'' @ dec (unat u)) = Some (False, nat p, '' UID:'' @ dec (unat u))"
    by (intro scan_int_dec) (simp add: is_digit_def)
  moreover have "int_of_scan False (nat p) = p"
    using int_of_scan_nat [of "nat p"] assms by (simp add: nat_less_iff)
  moreover have "scan_int (dec (unat u)) = Some (False, unat u, [])"
    using scan_int_dec [of "[]" "unat u"] by simp
  ultimately show ?thesis
    using assms
    by (simp add: ack_message_def scan_ack_def CRLF_def scan_lit_def scan_d_def scan_u_def
        dec_int_def ucast_ulong is_space_def)
qed

lemma scan_ready_message: "scan_ready (drop 7 (ready_message u)) = Some u"
  using scan_int_dec [of "[]" "unat u"]
  by (simp add: ready_message_def scan_ready_def CRLF_def scan_lit_def scan_u_def ucast_ulong)

lemma generate_uid_again:
  assumes "bit p 0" and "ts < 4096"
  shows "generate_uid p (4096 + ts) = generate_uid p ts"
proof -
  have "4096 + ts = 4096 OR ts"
  proof (rule disjunctive_add)
    fix n
    have "take_bit 12 ts = ts" using assms(2) by (simp add: small_words)
    then have "bit ts n \<Longrightarrow> n < 12" by (metis bit_take_bit_iff)
    moreover have "bit (push_bit 12 1 :: 32 word) n \<Longrightarrow> n = 12"
      unfolding bit_push_bit_iff bit_1_iff by auto
    moreover have "(4096 :: 32 word) = push_bit 12 1" by simp
    ultimately show "\<not> bit (4096 :: 32 word) n \<or> \<not> bit ts n" by (metis less_irrefl)
  qed
  then show ?thesis using generate_uid_collision [OF assms(1), of ts] by simp
qed

section \<open>Properties\<close>

definition sample_bcast :: msg_node where
  "sample_bcast = \<lparr>pid = 4711, port_num = 10000, ack_flg = 0, ack_count = 0,
     buffer = ''hello world'' @ [NUL], buf_len = 11, lc = 3, uid = 19296259, nprocs = 3, mq_next = None\<rparr>"

lemma sample_bcast_fits: "bcast_fits sample_bcast 4"
  by (simp add: bcast_fits_def sample_bcast_def)

text \<open>
  C38: identifiers of messages are unique while the process number has twenty bits and the clock
  twelve: equal identifiers come from the same process at the same time. From the 4096th tick on
  they repeat: a process with an odd number gives a message at time \<open>4096 + ts\<close> the identifier it
  gave the message at time \<open>ts\<close>.
\<close>

theorem uid_unique:
  assumes "ts < 4096"
  shows "(ts' < 4096 \<and> p < 1048576 \<and> p' < 1048576 \<longrightarrow>
      generate_uid p ts = generate_uid p' ts' \<longleftrightarrow> p = p' \<and> ts = ts') \<and>
    (bit p 0 \<longrightarrow> generate_uid p (4096 + ts) = generate_uid p ts)"
  using generate_uid_inj [OF assms, of ts' p p'] generate_uid_again [OF _ assms, of p] by auto

theorem uid_unique_witness:
  "generate_uid 4711 3 \<noteq> generate_uid 4712 3 \<and> generate_uid 4711 4099 = generate_uid 4711 3"
  using uid_unique [of 3 3 4711 4712] by (simp add: bit_0)

text \<open>
  The loop that receives a buffer puts every byte in its place when the network delivers them in
  one or two pieces. With three pieces it reports success and a full count, but the last byte of
  the buffer keeps what it held: every piece is written at the length of the one before.
\<close>

lemma recv_buffer_pieces:
  assumes "b1 \<noteq> []" "b2 \<noteq> []" and "len \<le> length buf"
  shows "(length b1 + length b2 = len \<longrightarrow>
      recv_buffer buf len [Bytes (b1 @ b2)] = ret (0, len, b1 @ b2 @ drop len buf, []) \<and>
      recv_buffer buf len [Bytes b1, Bytes b2] = ret (0, len, b1 @ b2 @ drop len buf, [])) \<and>
    (b3 \<noteq> [] \<and> length b1 + length b2 + length b3 = len \<longrightarrow>
      (\<exists>buf'. recv_buffer buf len [Bytes b1, Bytes b2, Bytes b3] = ret (0, len, buf', []) \<and>
         length buf' = length buf \<and> buf' ! (len - 1) = buf ! (len - 1)))"
  using recv_buffer_two [OF assms(1,2) _ assms(3), of "[]"] recv_buffer_one [of "b1 @ b2" len buf "[]" "[]"]
    recv_buffer_three [OF assms(1,2), of b3 len buf] assms
  by (simp add: rest_of_def)

text \<open>
  The loop that sends a buffer is right for one or two pieces and repeats bytes with three: the
  third piece is taken from the length of the second one on.
\<close>

lemma send_buffer_pieces:
  assumes "0 < j" "j + k < len" and "len \<le> length buf"
  shows "send_buffer buf len [Some j] = ret (0, len, take len buf) \<and>
    send_buffer buf len [Some j, Some k] =
      ret (0, len, take j buf @ take k (drop j buf) @ take (len - j - k) (drop k buf))"
  using send_buffer_two [of j len buf] send_buffer_three [OF assms] assms by simp

text \<open>
  C40: the loops that receive and send a buffer are right when the network takes it in one or two
  pieces. With three pieces both report success and a full count, but the receiver's last byte keeps what
  it held, since every piece is written at the length of the one before, and the sender takes the
  third piece from the length of the second one on, so bytes are repeated and the end is lost.
\<close>

theorem partial_transfers:
  assumes "b1 \<noteq> []" "b2 \<noteq> []" "length b1 + length b2 < len" and "len \<le> length buf" "len \<le> length msg"
    and "b3 \<noteq> []" "length b1 + length b2 + length b3 = len" and "length b12 = len - length b1"
  shows "recv_buffer buf len [Bytes (b1 @ b12)] = ret (0, len, b1 @ b12 @ drop len buf, []) \<and>
    recv_buffer buf len [Bytes b1, Bytes b12] = ret (0, len, b1 @ b12 @ drop len buf, []) \<and>
    (\<exists>buf'. recv_buffer buf len [Bytes b1, Bytes b2, Bytes b3] = ret (0, len, buf', []) \<and>
       length buf' = length buf \<and> buf' ! (len - 1) = buf ! (len - 1)) \<and>
    send_buffer msg len [Some (length b1)] = ret (0, len, take len msg) \<and>
    send_buffer msg len [Some (length b1), Some (length b2)] =
      ret (0, len, take (length b1) msg @ take (length b2) (drop (length b1) msg) @
        take (len - length b1 - length b2) (drop (length b2) msg))"
proof -
  have "b12 \<noteq> []" "length b1 + length b12 = len" using assms(3,8) by auto
  with recv_buffer_pieces [OF assms(1) _ assms(4), of b12] recv_buffer_pieces [OF assms(1,2,4), of b3] assms(6,7)
    send_buffer_pieces [of "length b1" "length b2" len msg] assms(1,3,5)
  show ?thesis by blast
qed

theorem partial_transfers_witness:
  "recv_buffer (replicate 6 NUL) 5 [Bytes ''h'', Bytes ''ello''] = ret (0, 5, ''hello'' @ [NUL], []) \<and>
   (\<exists>buf'. recv_buffer (replicate 6 NUL) 5 [Bytes ''h'', Bytes ''el'', Bytes ''lo''] = ret (0, 5, buf', []) \<and> buf' ! 4 = NUL) \<and>
   send_buffer ''hello'' 5 [Some 1, Some 2] = ret (0, 5, ''helll'')"
  using partial_transfers [of "''h''" "''el''" 5 "replicate 6 NUL" "''hello''" "''lo''" "''ello''"]
  by (auto simp: eval_nat_numeral)

text \<open>
  C39: the metadata of a broadcast survive the wire: in a buffer that is large enough, the encoder
  writes the header, 38 bytes that decode to the sender's identifier, process number, port,
  timestamp and length, and then the message. The \<open>40 + buf_len\<close> bytes that \<open>total_broadcast\<close> asks for
  are not enough for any message: the encoder writes past their end. The acknowledgement and the
  ready message for it read back too: behind seven bytes of header the receiver scans the process
  number and the identifier.
\<close>

theorem broadcast_roundtrip:
  assumes "bcast_fits n ts"
  shows "(48 + buf_len n \<le> length mem \<longrightarrow>
      (\<exists>out. encode_broadcast_buffer n mem ts = ret out \<and> take 7 out = ''BROAD'' @ CRLF \<and>
        decode_metadata (take 38 (drop 7 out)) =
          \<lparr>b_uid = uid n, b_pid = pid n, b_port = port_num n, b_lc = ts, b_len = int (buf_len n)\<rparr> \<and>
        take (buf_len n) (drop 45 out) = take (buf_len n) (buffer n))) \<and>
    (length mem = 40 + buf_len n \<longrightarrow> encode_broadcast_buffer n mem ts = stop_with Out_of_bounds) \<and>
    take 5 (ack_message (pid n) (uid n)) = ''ACK00'' \<and>
    scan_ack (drop 7 (ack_message (pid n) (uid n))) = Some (pid n, uid n) \<and>
    take 5 (ready_message (uid n)) = ''READY'' \<and> scan_ready (drop 7 (ready_message (uid n))) = Some (uid n)"
proof (intro conjI impI)
  assume m: "48 + buf_len n \<le> length mem"
  let ?out = "wbuf (bcast_wire n ts) (drop (48 + buf_len n) mem)"
  note l = length_bcast_meta_text [OF assms(1)]
  have "take 7 ?out = ''BROAD'' @ CRLF" "take 38 (drop 7 ?out) = bcast_meta_text n ts"
    "take (buf_len n) (drop 45 ?out) = take (buf_len n) (buffer n)"
    using l assms(1) by (simp_all add: wbuf_def bcast_wire_def CRLF_def bcast_fits_def)
  then show "\<exists>out. encode_broadcast_buffer n mem ts = ret out \<and> take 7 out = ''BROAD'' @ CRLF \<and>
        decode_metadata (take 38 (drop 7 out)) =
          \<lparr>b_uid = uid n, b_pid = pid n, b_port = port_num n, b_lc = ts, b_len = int (buf_len n)\<rparr> \<and>
        take (buf_len n) (drop 45 out) = take (buf_len n) (buffer n)"
    using encode_broadcast_wire [OF assms m] decode_bcast_meta [OF assms] by simp
next
  show "scan_ack (drop 7 (ack_message (pid n) (uid n))) = Some (pid n, uid n)"
    using assms by (intro scan_ack_message) (simp_all add: bcast_fits_def)
qed (simp_all add: encode_broadcast_overflow [OF assms] scan_ready_message, simp_all add: ack_message_def ready_message_def)

theorem broadcast_roundtrip_witness:
  "(\<exists>out. encode_broadcast_buffer sample_bcast (replicate 59 NUL) 4 = ret out \<and>
     b_uid (decode_metadata (take 38 (drop 7 out))) = 19296259) \<and>
   encode_broadcast_buffer sample_bcast (replicate 51 NUL) 4 = stop_with Out_of_bounds"
  using broadcast_roundtrip [OF sample_bcast_fits, of "replicate 59 NUL"]
    broadcast_roundtrip [OF sample_bcast_fits, of "replicate 51 NUL"] by (auto simp: sample_bcast_def)

end
