(* ===== verification/TobHandlers.thy ===== *)
theory TobHandlers
  imports TobCodec
begin

text \<open>
  \<open>TOB/client_handle.c\<close>, the handlers of a broadcast process: one connection at a time is accepted,
  its header read, and the message handled. The state of a process is its clock and its
  queue; what a handler does to the world is a list of effects. Printing is left out.
\<close>

section \<open>A process and its surroundings\<close>

record tob_proc =
  self :: int              \<comment> \<open>\<open>getpid ()\<close>\<close>
  port :: int              \<comment> \<open>the port the process listens on\<close>
  nproc :: int             \<comment> \<open>\<open>num_process\<close>\<close>
  clock :: "32 word"       \<comment> \<open>\<open>lc\<close> in \<open>sock_serve\<close>\<close>
  mq :: msg_queue
  shared :: bool           \<comment> \<open>\<open>shared_file\<close> is open\<close>

datatype effect =
    Transmit int string    \<comment> \<open>bytes sent over a new connection to a port\<close>
  | Deliver string         \<comment> \<open>bytes appended to the shared file\<close>
  | Reply string           \<comment> \<open>bytes sent back over the accepted connection\<close>

text \<open>
  What the allocator and the network answer while one connection is handled: the address of the
  new queue node; for a block of \<open>n\<close> bytes, what the memory from its start on holds, up to the end
  of what \<open>malloc\<close> set aside for it (\<open>None\<close> when it fails); the same for the array of \<open>n\<close> bytes on
  the stack; whether the connection number \<open>i\<close> can be opened (\<open>None\<close> when \<open>socket\<close> fails) and
  what its calls of \<open>send\<close> accept; and the byte behind \<open>header\<close>.
\<close>

record tob_env =
  node_addr :: ptr
  node_mem :: "nat \<Rightarrow> string option"
  block_mem :: "nat \<Rightarrow> string option"
  stack_mem :: "nat \<Rightarrow> string"
  opens :: "nat \<Rightarrow> bool option"
  accepts :: "nat \<Rightarrow> nat option list"
  behind :: string

definition BASEPORT :: int where "BASEPORT = 10000"

section \<open>Sending to one process and to all\<close>

text \<open>\<open>send\<close>, its result ignored: the bytes that go out.\<close>

definition send_once :: "tob_env \<Rightarrow> nat \<Rightarrow> int \<Rightarrow> string \<Rightarrow> effect list" where
  "send_once env i p msg =
     (case send (accepts env i) msg of (None, _) \<Rightarrow> [] | (Some bs, _) \<Rightarrow> [Transmit p bs])"

definition send_p2p_ack :: "tob_env \<Rightarrow> int \<Rightarrow> int \<Rightarrow> 32 word \<Rightarrow> effect list prog" where
  "send_p2p_ack env sender_port base_pid u =
     (case opens env 0 of
        None \<Rightarrow> stop_with Exited
      | Some ok \<Rightarrow> ret (if ok then send_once env 0 sender_port (ack_message base_pid u) else []))"

text \<open>The loop that opens a connection to every process: it gives up at the first failure.\<close>

definition open_all :: "tob_env \<Rightarrow> nat \<Rightarrow> bool" where
  "open_all env n \<longleftrightarrow> list_all (\<lambda>i. opens env i = Some True) [0..<n]"

definition broadcast_ready_message :: "tob_env \<Rightarrow> msg_node \<Rightarrow> 32 word \<Rightarrow> effect list \<times> 32 word" where
  "broadcast_ready_message env n ts =
     (if block_mem env (unat (4 * word_of_int (nprocs n) :: size_t)) \<noteq> None \<and> open_all env (nat (nprocs n))
      then (concat (map (\<lambda>i. send_once env i (BASEPORT + int i) (ready_message (uid n))) [0..<nat (nprocs n)]),
            ts + 1)
      else ([], ts + 1))"

text \<open>
  The sending loop of \<open>total_broadcast\<close>, over the processes \<open>is\<close>: it stops at the first process
  to which the buffer cannot be sent. \<open>len\<close> is \<open>total_buffer_size\<close>, which \<open>send_buffer\<close> updates.
\<close>

fun broadcast_loop :: "tob_env \<Rightarrow> string \<Rightarrow> nat \<Rightarrow> nat list \<Rightarrow> effect list \<Rightarrow> (int \<times> effect list) prog" where
  "broadcast_loop env buf len [] out = ret (0, out)"
| "broadcast_loop env buf len (i # is) out =
     bindp (send_buffer buf len (accepts env i)) (\<lambda>(stat, sent, bs).
     let out = out @ [Transmit (BASEPORT + int i) bs] in
     if stat \<noteq> 0 then ret (1, out) else broadcast_loop env buf sent is out)"

text \<open>The status, what was sent, and the clock.\<close>

definition total_broadcast ::
  "tob_env \<Rightarrow> ptr \<Rightarrow> msg_queue \<Rightarrow> 32 word \<Rightarrow> (int \<times> effect list \<times> 32 word) prog" where
  "total_broadcast env p q ts =
     (let ts = ts + 1 in
      bindp (load (mq_heap q) p) (\<lambda>n.
      if block_mem env (unat (4 * word_of_int (nprocs n) :: size_t)) = None then ret (1, [], ts)
      else if \<not> open_all env (nat (nprocs n)) then ret (1, [], ts)
      else (let total_buffer_size = 40 + buf_len n in
        case block_mem env total_buffer_size of
          None \<Rightarrow> ret (1, [], ts)
        | Some mem \<Rightarrow>
            bindp (encode_broadcast_buffer n mem ts) (\<lambda>buf.
            bindp (broadcast_loop env buf total_buffer_size [0..<nat (nprocs n)] []) (\<lambda>(stat, out).
            ret (stat, out, ts))))))"

section \<open>The handlers\<close>

definition check_and_ack_head :: "tob_env \<Rightarrow> msg_queue \<Rightarrow> (effect list \<times> msg_queue) prog" where
  "check_and_ack_head env q =
     bindp (order_queue q) (\<lambda>q.
     if mq_head q = None then ret ([], q)
     else bindp (load (mq_heap q) (mq_head q)) (\<lambda>n.
       if ack_flg n = 0
       then bindp (modify (mq_heap q) (mq_head q) (ack_flg_update (\<lambda>_. 1))) (\<lambda>h.
            bindp (send_p2p_ack env (port_num n) (pid n) (uid n)) (\<lambda>out.
            ret (out, q\<lparr>mq_heap := h\<rparr>)))
       else ret ([], q)))"

definition write_shared :: "bool \<Rightarrow> string \<Rightarrow> nat \<Rightarrow> effect list prog" where
  "write_shared is_open buf len =
     (if \<not> is_open then ret [] else bindp (slice buf 0 len) (\<lambda>bytes. ret [Deliver bytes]))"

text \<open>What \<open>handle_ack\<close> does with the node it found.\<close>

definition count_ack :: "tob_env \<Rightarrow> ptr \<Rightarrow> tob_proc \<Rightarrow> (tob_proc \<times> effect list) prog" where
  "count_ack env node s =
     bindp (modify (mq_heap (mq s)) node (ack_count_update (\<lambda>c. c + 1))) (\<lambda>h.
     bindp (load h node) (\<lambda>n.
     let s = s\<lparr>mq := (mq s)\<lparr>mq_heap := h\<rparr>\<rparr> in
     if ack_count n = nprocs n
     then bindp (write_at (buffer n) (buf_len n) [NUL]) (\<lambda>b.
          bindp (modify h node (buffer_update (\<lambda>_. b))) (\<lambda>h.
          let (out, ts) = broadcast_ready_message env n (clock s) in
          bindp (write_shared (shared s) b (buf_len n)) (\<lambda>del.
          ret (s\<lparr>mq := (mq s)\<lparr>mq_heap := h\<rparr>, clock := ts\<rparr>, out @ del))))
     else ret (s, [])))"

definition handle_ack :: "tob_env \<Rightarrow> arrival list \<Rightarrow> tob_proc \<Rightarrow> (tob_proc \<times> effect list) prog" where
  "handle_ack env as s =
     bindp (recv as 1024) (\<lambda>(r, as). case r of
       None \<Rightarrow> ret (s, [])
     | Some bs \<Rightarrow>
         if 1024 \<le> length bs then stop_with Out_of_bounds
         else (case scan_ack (cstr bs) of
           None \<Rightarrow> ret (s, [])
         | Some (received_pid, received_uid) \<Rightarrow>
             bindp (find_node received_uid (mq s)) (\<lambda>node.
             if node = None then ret (s, []) else count_ack env node s)))"

definition handle_ready :: "arrival list \<Rightarrow> tob_proc \<Rightarrow> (tob_proc \<times> effect list) prog" where
  "handle_ready as s =
     bindp (recv as 1024) (\<lambda>(r, as). case r of
       None \<Rightarrow> ret (s, [])
     | Some bs \<Rightarrow>
         if 1024 \<le> length bs then stop_with Out_of_bounds
         else (case scan_ready (cstr bs) of
           None \<Rightarrow> ret (s, [])
         | Some received_uid \<Rightarrow>
             bindp (mq_dequeue received_uid (mq s)) (\<lambda>q. ret (s\<lparr>mq := q\<rparr>, []))))"

text \<open>
  \<open>handle_issue\<close>. The size is an \<open>int\<close>; a negative one becomes a huge \<open>size_t\<close> for \<open>malloc\<close>, and
  leaves nothing to receive.
\<close>

definition handle_issue :: "tob_env \<Rightarrow> arrival list \<Rightarrow> tob_proc \<Rightarrow> (tob_proc \<times> effect list) prog" where
  "handle_issue env as s =
     (let s = s\<lparr>clock := clock s + 1\<rparr> in
      bindp (recv as 7) (\<lambda>(r, as). case r of
        None \<Rightarrow> ret (s, [])
      | Some prefix_payload \<Rightarrow>
          if prefix_payload = [] then stop_with Out_of_bounds
          else let msg_size = atoi (cstr (butlast prefix_payload)) in
            if msg_size = 2 ^ 31 - 1 then stop_with Overflow
            else case block_mem env (unat (word_of_int (msg_size + 1) :: size_t)) of
              None \<Rightarrow> ret (s, [])
            | Some mem \<Rightarrow>
                bindp (recv_buffer mem (nat msg_size) as) (\<lambda>(stat, len, buf, as).
                if stat \<noteq> 0 then ret (s, [])
                else if len = 0 then stop_with Out_of_bounds
                else bindp (slice buf (len - 1) 1) (\<lambda>last_byte.
                  bindp (if last_byte \<noteq> [NUL]
                         then bindp (write_at buf len [NUL]) (\<lambda>buf. ret (buf, len + 1))
                         else ret (buf, len)) (\<lambda>(buf, len).
                  bindp (mq_create_node (node_addr env) (node_mem env) (self s) (port s) 0 0 buf len (clock s)
                           (generate_uid (word_of_int (self s)) (clock s)) (nproc s) (mq s)) (\<lambda>(node, q).
                  bindp (total_broadcast env node q (clock s)) (\<lambda>(_, out, ts).
                  ret (s\<lparr>clock := ts, mq := q\<rparr>, out))))))))"

definition handle_broadcast :: "tob_env \<Rightarrow> arrival list \<Rightarrow> tob_proc \<Rightarrow> (tob_proc \<times> effect list) prog" where
  "handle_broadcast env as s =
     (let s = s\<lparr>clock := clock s + 1\<rparr> in
      case block_mem env 39 of
        None \<Rightarrow> ret (s, [])
      | Some mem \<Rightarrow>
          bindp (recv_buffer mem 38 as) (\<lambda>(stat, meta_len, metadata, as).
          if stat \<noteq> 0 then ret (s, [])
          else bindp (write_at metadata meta_len [NUL]) (\<lambda>metadata.
            let m = decode_metadata metadata; msg_len = b_len m in
            if msg_len < 0 then stop_with Out_of_bounds
            else bindp (recv as (nat msg_len + 1)) (\<lambda>(r, as). case r of
              None \<Rightarrow> ret (s, [])
            | Some bs \<Rightarrow>
                bindp (write_at (stack_mem env (nat msg_len + 1)) 0 bs) (\<lambda>msg.
                bindp (write_at msg (nat msg_len) [NUL]) (\<lambda>msg.
                let s = (if b_lc m > clock s then s\<lparr>clock := b_lc m\<rparr> else s) in
                bindp (mq_create_node (node_addr env) (node_mem env) (b_pid m) (b_port m) 0 0 msg
                         (nat msg_len) (b_lc m) (b_uid m) (nproc s) (mq s)) (\<lambda>(new_node, q).
                if new_node = None then stop_with Null_deref
                else bindp (mq_enqueue new_node q) (\<lambda>q.
                     bindp (check_and_ack_head env q) (\<lambda>(out, q).
                     ret (s\<lparr>mq := q\<rparr>, out))))))))))"

text \<open>
  \<open>handle_client\<close>: the terminator behind a header of seven bytes is written behind \<open>header\<close>; the
  last step answers the sender, whatever the handler did.
\<close>

definition tob_handle_client :: "tob_env \<Rightarrow> arrival list \<Rightarrow> tob_proc \<Rightarrow> (tob_proc \<times> effect list) prog" where
  "tob_handle_client env as s =
     bindp (recv as 7) (\<lambda>(r, as). case r of
       None \<Rightarrow> ret (s, [])
     | Some bs \<Rightarrow>
         bindp (write_at (bs @ drop (length bs) (stack_mem env 7) @ behind env) (length bs) [NUL]) (\<lambda>header.
         let h = cstr header in
         bindp (if strncmp h ''ISSUE'' 5 = 0 then handle_issue env as s
                else if strncmp h ''BROAD'' 5 = 0 then handle_broadcast env as s
                else if strncmp h ''ACK00'' 5 = 0 then handle_ack env as s
                else if strncmp h ''READY'' 5 = 0 then handle_ready as s
                else ret (s, [])) (\<lambda>(s, out).
         ret (s, out @ [Reply (''ACK'' @ CRLF)]))))"

section \<open>When nothing fails\<close>

text \<open>
  Every connection opens and accepts everything, every allocation succeeds, blocks on the heap
  have at least eight spare bytes, and there is a free byte behind the array \<open>header\<close>.
\<close>

definition calm :: "tob_env \<Rightarrow> bool" where
  "calm env \<longleftrightarrow> (\<forall>i. opens env i = Some True \<and> accepts env i = []) \<and>
     (\<forall>n. \<exists>m. block_mem env n = Some m \<and> n + 8 \<le> length m) \<and>
     (\<forall>n. \<exists>m. node_mem env n = Some m \<and> length m = n) \<and>
     (\<forall>n. length (stack_mem env n) = n) \<and> behind env \<noteq> []"

lemma calmD:
  assumes "calm env"
  shows "opens env i = Some True" "accepts env i = []" "length (stack_mem env n) = n" "behind env \<noteq> []"
    "block_mem env n \<noteq> None" "open_all env k"
  using assms by (auto simp: calm_def open_all_def list_all_iff)

lemma calm_block:
  assumes "calm env"
  obtains m where "block_mem env n = Some m" "n + 8 \<le> length m"
  using assms by (metis calm_def)

lemma calm_node:
  assumes "calm env"
  obtains m where "node_mem env n = Some m" "length m = n"
  using assms by (metis calm_def)

lemma broadcast_loop_all:
  assumes "calm env" and "len \<le> length buf"
  shows "broadcast_loop env buf len is out =
    ret (0, out @ map (\<lambda>i. Transmit (BASEPORT + int i) (take len buf)) is)"
  using calmD(2) [OF assms(1)] send_buffer_one [OF assms(2)]
  by (induction "is" arbitrary: out) (simp_all add: Let_def)

text \<open>
  What goes out is the encoding cut to \<open>40 + buf_len\<close> bytes: all of the header and the metadata,
  and all of the message but its last five bytes.
\<close>

definition bcast_sent :: "msg_node \<Rightarrow> 32 word \<Rightarrow> string" where
  "bcast_sent n ts = take (40 + buf_len n) (bcast_wire n ts)"

lemma total_broadcast_all:
  assumes c: "calm env" and n: "mq_heap q a = Some n" and f: "bcast_fits n (ts + 1)"
  shows "total_broadcast env (Some a) q ts =
    ret (0, map (\<lambda>i. Transmit (BASEPORT + int i) (bcast_sent n (ts + 1))) [0..<nat (nprocs n)], ts + 1)"
proof -
  from calm_block [OF c, of "40 + buf_len n"] obtain m where
    m: "block_mem env (40 + buf_len n) = Some m" "48 + buf_len n \<le> length m" by auto
  let ?buf = "wbuf (bcast_wire n (ts + 1)) (drop (48 + buf_len n) m)"
  have l: "length (bcast_wire n (ts + 1)) = 48 + buf_len n"
    using f length_bcast_meta_text [OF f] by (simp add: bcast_wire_def bcast_fits_def CRLF_def)
  then have t: "take (40 + buf_len n) ?buf = bcast_sent n (ts + 1)" "40 + buf_len n \<le> length ?buf"
    by (simp_all add: wbuf_def bcast_sent_def)
  have "block_mem env (unat (4 * word_of_int (nprocs n) :: size_t)) \<noteq> None" "open_all env (nat (nprocs n))"
    using calmD(5,6) [OF c] by blast+
  then show ?thesis
    using n m encode_broadcast_wire [OF f m(2)] broadcast_loop_all [OF c t(2)] t(1)
    by (simp add: total_broadcast_def Let_def)
qed

section \<open>An issued message goes out to every process\<close>

text \<open>The node \<open>handle_issue\<close> makes for a message; the last byte of its block is not set.\<close>

definition issued :: "tob_proc \<Rightarrow> string \<Rightarrow> char \<Rightarrow> msg_node" where
  "issued s msg c = \<lparr>pid = self s, port_num = port s, ack_flg = 0, ack_count = 0,
     buffer = msg @ [NUL, c], buf_len = length msg + 1, lc = clock s + 1,
     uid = generate_uid (word_of_int (self s)) (clock s + 1), nprocs = nproc s, mq_next = None\<rparr>"

lemma mq_create_node_ret:
  assumes "mbuf (len + 1) = Some junk" and "length junk = len + 1" and "len \<le> length buf"
  shows "mq_create_node (Some a) mbuf p pt flg cnt buf len ts u np q =
    ret (Some a, q\<lparr>mq_heap := (mq_heap q)(a \<mapsto>
      \<lparr>pid = p, port_num = pt, ack_flg = flg, ack_count = cnt, buffer = take len buf @ [last junk], buf_len = len,
       lc = ts, uid = u, nprocs = np, mq_next = None\<rparr>)\<rparr>)"
proof -
  have "drop len junk = [last junk]"
    using assms(2) by (metis Suc_eq_plus1 append_butlast_last_id append_eq_conv_conj diff_Suc_1
        length_0_conv length_butlast nat.distinct(1))
  then show ?thesis using assms by (simp add: mq_create_node_def write_at_def)
qed

lemma handle_issue_frame:
  assumes c: "calm env" "node_addr env = Some a" and msg: "msg \<noteq> []" "last msg \<noteq> NUL" "length msg < 10 ^ 6 - 1"
    and s: "0 \<le> self s" "self s < 10 ^ 8" "0 \<le> port s" "port s < 10 ^ 8" "unat (clock s + 2) < 10 ^ 4"
  shows "\<exists>c. handle_issue env [Bytes (drop 7 (issue_frame msg))] s =
    ret (s\<lparr>clock := clock s + 2, mq := (mq s)\<lparr>mq_heap := (mq_heap (mq s))(a \<mapsto> issued s msg c)\<rparr>\<rparr>,
      map (\<lambda>i. Transmit (BASEPORT + int i) (bcast_sent (issued s msg c) (clock s + 2))) [0..<nat (nproc s)])"
proof -
  let ?L = "length msg"
  let ?d = "pad_zero 6 (dec ?L)"
  let ?s = "s\<lparr>clock := clock s + 1\<rparr>"
  have ld: "length ?d = 6" using msg(3) length_dec_le [of 6 ?L] by simp
  have in7: "drop 7 (issue_frame msg) = (?d @ ''|'') @ msg @ CRLF @ [NUL]"
    by (simp add: issue_frame_def CRLF_def)
  have r: "recv [Bytes ((?d @ ''|'') @ msg @ CRLF @ [NUL])] 7 = ret (Some (?d @ ''|''), [Bytes (msg @ CRLF @ [NUL])])"
    using ld by (intro recv_split) (simp_all del: length_pads add: CRLF_def)
  have sz: "atoi (cstr (butlast (?d @ ''|''))) = int ?L"
    using atoi_pad_zero [of ?L 6] msg(3) by (simp add: butlast_append)
  have u: "unat (word_of_int (int ?L + 1) :: size_t) = ?L + 1"
    using msg(3) by (simp add: unat_word_ariths unat_of_nat)
  obtain m where m: "block_mem env (?L + 1) = Some m" "?L + 1 + 8 \<le> length m"
    using calm_block [OF c(1)] by blast
  have rb: "recv_buffer m ?L [Bytes (msg @ CRLF @ [NUL])] = ret (0, ?L, msg @ drop ?L m, [Bytes (CRLF @ [NUL])])"
    using recv_buffer_one [of msg ?L m "CRLF @ [NUL]" "[]"] msg(1) m(2) by (simp add: rest_of_def CRLF_def)
  have sl: "slice (msg @ drop ?L m) (?L - 1) 1 = ret [last msg]"
    using msg(1) m(2) by (cases msg rule: rev_cases) (auto simp: slice_def)
  have wr: "write_at (msg @ drop ?L m) ?L [NUL] = ret (msg @ NUL # drop (?L + 1) m)"
    using m(2) by (simp add: write_at_def)
  obtain j where j: "node_mem env (?L + 2) = Some j" "length j = ?L + 2"
    using calm_node [OF c(1)] by blast
  let ?n = "issued s msg (last j)"
  let ?q = "(mq s)\<lparr>mq_heap := (mq_heap (mq s))(a \<mapsto> ?n)\<rparr>"
  have cr: "mq_create_node (Some a) (node_mem env) (self s) (port s) 0 0 (msg @ NUL # drop (?L + 1) m) (?L + 1)
      (clock s + 1) (generate_uid (word_of_int (self s)) (clock s + 1)) (nproc s) (mq s) = ret (Some a, ?q)"
    using j by (subst mq_create_node_ret [of _ _ j]) (simp_all add: issued_def)
  have two: "clock s + 1 + 1 = clock s + 2" by simp
  have f: "bcast_fits ?n (clock s + 1 + 1)"
    using s msg(3) by (simp add: bcast_fits_def issued_def two)
  have tb: "total_broadcast env (Some a) ?q (clock s + 1) =
      ret (0, map (\<lambda>i. Transmit (BASEPORT + int i) (bcast_sent ?n (clock s + 2))) [0..<nat (nproc s)], clock s + 2)"
    using total_broadcast_all [OF c(1) _ f, of ?q a] by (simp add: issued_def two)
  show ?thesis
    unfolding handle_issue_def in7
    using r sz u m(1) rb sl wr cr tb msg c(2)
    by (intro exI [of _ "last j"]) (simp add: Let_def)
qed

section \<open>Acknowledging the head\<close>

lemma strip_fields:
  assumes "strip m = strip n"
  shows "ack_flg m = ack_flg n" "port_num m = port_num n" "pid m = pid n" "uid m = uid n" "lc m = lc n"
    "ack_count m = ack_count n" "nprocs m = nprocs n" "buffer m = buffer n" "buf_len m = buf_len n"
  using assms [THEN arg_cong, of ack_flg] assms [THEN arg_cong, of port_num] assms [THEN arg_cong, of pid]
    assms [THEN arg_cong, of uid] assms [THEN arg_cong, of lc] assms [THEN arg_cong, of ack_count]
    assms [THEN arg_cong, of nprocs] assms [THEN arg_cong, of buffer] assms [THEN arg_cong, of buf_len]
  by (simp_all add: strip_def)

text \<open>
  The queue is sorted; then the message at its head is acknowledged to its sender, once, and
  marked. No other message is acknowledged, and nothing else of the nodes changes.
\<close>

lemma check_and_ack_head_sorted:
  assumes c: "calm env" and q: "lqueue mq_next (mq_heap q) (mq_head q) (mq_tail q) as" and ne: "as \<noteq> []"
  defines "k \<equiv> \<lambda>a. the (mq_heap q a)" and "h \<equiv> hd (osort (\<lambda>a. the (mq_heap q a)) as)"
  shows "\<exists>q'. check_and_ack_head env q =
      ret (if ack_flg (k h) = 0 then [Transmit (port_num (k h)) (ack_message (pid (k h)) (uid (k h)))] else [], q') \<and>
    lqueue mq_next (mq_heap q') (mq_head q') (mq_tail q') (osort k as) \<and>
    map_option strip (mq_heap q' h) = Some (strip (k h)\<lparr>ack_flg := if ack_flg (k h) = 0 then 1 else ack_flg (k h)\<rparr>) \<and>
    (\<forall>x. x \<noteq> h \<longrightarrow> map_option strip (mq_heap q' x) = map_option strip (mq_heap q x))"
proof -
  have "agrees k (mq_heap q) as"
    using chain_dom [OF lqueueD [OF q]] by (fastforce simp: agrees_def k_def)
  from order_queue_lqueue [OF q this] obtain q1 where
    q1: "order_queue q = ret q1" "lqueue mq_next (mq_heap q1) (mq_head q1) (mq_tail q1) (osort k as)"
      "same_nodes (mq_heap q) (mq_heap q1)" by blast
  have "osort k as \<noteq> []" using ne length_osort [of k as] by (metis length_0_conv)
  then obtain bs where bs: "osort k as = h # bs" by (cases "osort k as") (auto simp: h_def k_def)
  then have "h \<in> set as" by (metis list.set_intros(1) set_osort)
  then obtain m where m: "mq_heap q h = Some m" "k h = m"
    using chain_dom [OF lqueueD [OF q]] by (fastforce simp: k_def)
  from q1(2) bs have hd1: "mq_head q1 = Some h" by (simp add: lqueue_def)
  have "map_option strip (mq_heap q1 h) = Some (strip m)" using q1(3) m(1) by (simp add: same_nodes_def)
  then obtain n where n: "mq_heap q1 h = Some n" "strip n = strip m" by auto
  have same: "ack_flg n = ack_flg m" "port_num n = port_num m" "pid n = pid m" "uid n = uid m"
    by (rule strip_fields [OF n(2)])+
  show ?thesis
  proof (cases "ack_flg m = 0")
    case False
    have "map_option strip (mq_heap q1 h) = Some (strip m)" using n by simp
    moreover have "strip m\<lparr>ack_flg := ack_flg m\<rparr> = strip m" by (simp add: strip_def)
    ultimately show ?thesis
      using False q1 n same hd1 m by (auto simp: check_and_ack_head_def same_nodes_def)
  next
    case True
    let ?h = "(mq_heap q1)(h \<mapsto> n\<lparr>ack_flg := 1\<rparr>)"
    let ?q = "q1\<lparr>mq_heap := ?h\<rparr>"
    have "check_and_ack_head env q = ret ([Transmit (port_num m) (ack_message (pid m) (uid m))], ?q)"
      using q1(1) hd1 n(1) same True calmD(1,2) [OF c]
      by (simp add: check_and_ack_head_def send_p2p_ack_def send_once_def)
    moreover have "lqueue mq_next (mq_heap ?q) (mq_head ?q) (mq_tail ?q) (osort k as)"
      using q1(2) n(1) by (subst lqueue_cong [of _ mq_next _ "mq_heap q1"]) auto
    moreover have "strip (n\<lparr>ack_flg := 1\<rparr>) = strip m\<lparr>ack_flg := 1\<rparr>"
    proof -
      have "strip (n\<lparr>ack_flg := 1\<rparr>) = strip n\<lparr>ack_flg := 1\<rparr>" by (simp add: strip_def)
      with n(2) show ?thesis by simp
    qed
    ultimately show ?thesis using True m q1(3) by (auto simp: same_nodes_def)
  qed
qed

section \<open>Receiving a broadcast\<close>

lemma bcast_sent_rest:
  assumes f: "bcast_fits n ts" and l: "5 \<le> buf_len n"
  shows "take 7 (bcast_sent n ts) = ''BROAD'' @ CRLF"
    and "drop 7 (bcast_sent n ts) = bcast_meta_text n ts @ take (buf_len n - 5) (buffer n)"
proof -
  have b: "buf_len n \<le> length (buffer n)" using f by (simp add: bcast_fits_def)
  note m = length_bcast_meta_text [OF f]
  have "drop 7 (bcast_sent n ts) =
      take (33 + buf_len n) (bcast_meta_text n ts @ take (buf_len n) (buffer n) @ CRLF @ [NUL])"
    by (simp add: bcast_sent_def bcast_wire_def CRLF_def drop_take eval_nat_numeral)
  also have "\<dots> = bcast_meta_text n ts @ take (33 + buf_len n - 38) (take (buf_len n) (buffer n) @ CRLF @ [NUL])"
    using m l by simp
  also have "take (33 + buf_len n - 38) (take (buf_len n) (buffer n) @ CRLF @ [NUL]) = take (buf_len n - 5) (buffer n)"
    using b l by (simp add: min_def)
  finally show "drop 7 (bcast_sent n ts) = bcast_meta_text n ts @ take (buf_len n - 5) (buffer n)" .
  show "take 7 (bcast_sent n ts) = ''BROAD'' @ CRLF"
    by (simp add: bcast_sent_def bcast_wire_def CRLF_def)
qed

text \<open>What the receiver makes of it: the message without its last five bytes, and six bytes of junk.\<close>

definition received :: "msg_node \<Rightarrow> 32 word \<Rightarrow> int \<Rightarrow> string \<Rightarrow> msg_node" where
  "received n ts np junk = \<lparr>pid = pid n, port_num = port_num n, ack_flg = 0, ack_count = 0,
     buffer = take (buf_len n - 5) (buffer n) @ junk, buf_len = buf_len n, lc = ts, uid = uid n,
     nprocs = np, mq_next = None\<rparr>"

definition adjusted :: "32 word \<Rightarrow> 32 word \<Rightarrow> 32 word" where
  "adjusted ts own = (if ts > own + 1 then ts else own + 1)"

text \<open>The metadata arrive, with a terminator in the 39th byte.\<close>

lemma metadata_received:
  assumes c: "calm env" and f: "bcast_fits n ts"
  obtains mem where "block_mem env 39 = Some mem"
    "\<And>rest. recv_buffer mem 38 [Bytes (bcast_meta_text n ts @ rest)] =
       ret (0, 38, bcast_meta_text n ts @ drop 38 mem, rest_of rest [])"
    "\<exists>meta. write_at (bcast_meta_text n ts @ drop 38 mem) 38 [NUL] = ret meta \<and>
       decode_metadata meta = decode_metadata (bcast_meta_text n ts)"
proof -
  note m = length_bcast_meta_text [OF f]
  obtain mem where mem: "block_mem env 39 = Some mem" "39 + 8 \<le> length mem"
    using calm_block [OF c] by blast
  have ne: "bcast_meta_text n ts \<noteq> []" using m by auto
  have "write_at (bcast_meta_text n ts @ drop 38 mem) 38 [NUL] = ret (bcast_meta_text n ts @ NUL # drop 39 mem)"
    using m mem(2) by (simp add: write_at_def)
  moreover have "decode_metadata (bcast_meta_text n ts @ NUL # drop 39 mem) = decode_metadata (bcast_meta_text n ts)"
    using m by (simp add: decode_metadata_def)
  ultimately show thesis
    using that [OF mem(1)] recv_buffer_one [OF ne m, of mem _ "[]"] mem(2) by auto
qed

lemma handle_broadcast_received:
  assumes c: "calm env" "node_addr env = Some a" and f: "bcast_fits n ts" and l: "6 \<le> buf_len n"
  shows "\<exists>junk. length junk = 6 \<and> handle_broadcast env [Bytes (drop 7 (bcast_sent n ts))] s =
    bindp (mq_enqueue (Some a) ((mq s)\<lparr>mq_heap := (mq_heap (mq s))(a \<mapsto> received n ts (nproc s) junk)\<rparr>)) (\<lambda>q.
    bindp (check_and_ack_head env q) (\<lambda>(out, q).
    ret (s\<lparr>clock := adjusted ts (clock s), mq := q\<rparr>, out)))"
proof -
  let ?L = "buf_len n" and ?cut = "take (buf_len n - 5) (buffer n)"
  have b: "?L \<le> length (buffer n)" using f by (simp add: bcast_fits_def)
  have w: "drop 7 (bcast_sent n ts) = bcast_meta_text n ts @ ?cut" using bcast_sent_rest(2) [OF f] l by simp
  obtain mem meta where mem: "block_mem env 39 = Some mem"
    "recv_buffer mem 38 [Bytes (bcast_meta_text n ts @ ?cut)] =
       ret (0, 38, bcast_meta_text n ts @ drop 38 mem, rest_of ?cut [])"
    "write_at (bcast_meta_text n ts @ drop 38 mem) 38 [NUL] = ret meta"
    "decode_metadata meta = decode_metadata (bcast_meta_text n ts)"
    using metadata_received [OF c(1) f] by metis
  have d: "decode_metadata meta =
      \<lparr>b_uid = uid n, b_pid = pid n, b_port = port_num n, b_lc = ts, b_len = int ?L\<rparr>"
    using mem(4) decode_bcast_meta [OF f] by simp
  have lc: "length ?cut = ?L - 5" using b by simp
  have "?cut \<noteq> []" using lc l by auto
  then have r: "recv (rest_of ?cut []) (?L + 1) = ret (Some ?cut, [])"
    using lc by (simp add: rest_of_def)
  let ?st = "stack_mem env (?L + 1)"
  have ls: "length ?st = ?L + 1" using calmD(3) [OF c(1)] .
  have w1: "write_at ?st 0 ?cut = ret (?cut @ drop (?L - 5) ?st)"
    using ls lc l by (simp add: write_at_def)
  let ?x = "take 5 (drop (?L - 5) ?st)"
  have w2: "write_at (?cut @ drop (?L - 5) ?st) ?L [NUL] = ret ((?cut @ ?x) @ [NUL])"
  proof -
    have "take ?L (?cut @ drop (?L - 5) ?st) = ?cut @ ?x" using lc l by simp
    moreover have "?L + 1 = length (?cut @ drop (?L - 5) ?st)" using lc ls l by simp
    ultimately show ?thesis by (simp add: write_at_def)
  qed
  have lx: "length ?x = 5" using ls l by simp
  have lm: "length (?cut @ ?x) = ?L" unfolding length_append lc lx using l by simp
  obtain j where j: "node_mem env (?L + 1) = Some j" "length j = ?L + 1"
    using calm_node [OF c(1)] by blast
  let ?junk = "?x @ [last j]"
  define y where "y = ?cut @ ?x"
  have ly: "length y = ?L" using lm by (simp only: y_def)
  have "received n ts (nproc s) ?junk = \<lparr>pid = pid n, port_num = port_num n, ack_flg = 0, ack_count = 0,
      buffer = y @ [last j], buf_len = ?L, lc = ts, uid = uid n, nprocs = nproc s, mq_next = None\<rparr>"
    by (simp only: received_def y_def append_assoc)
  then have "mq_create_node (Some a) (node_mem env) (pid n) (port_num n) 0 0 (y @ [NUL]) ?L ts (uid n)
      (nproc s) (mq s) = ret (Some a, (mq s)\<lparr>mq_heap := (mq_heap (mq s))(a \<mapsto> received n ts (nproc s) ?junk)\<rparr>)"
    using ly j by (subst mq_create_node_ret [of _ _ j]) simp_all
  then have cr: "mq_create_node (Some a) (node_mem env) (pid n) (port_num n) 0 0 ((?cut @ ?x) @ [NUL]) ?L ts (uid n)
      (nproc s) (mq s) = ret (Some a, (mq s)\<lparr>mq_heap := (mq_heap (mq s))(a \<mapsto> received n ts (nproc s) ?junk)\<rparr>)"
    by (simp only: y_def)
  show ?thesis
    unfolding handle_broadcast_def w
    using mem(1-3) d r w1 w2 cr lx c(2)
    by (intro exI [of _ ?junk] conjI) (simp_all add: Let_def adjusted_def nat_add_distrib)
qed

text \<open>The whole handler on a well formed queue.\<close>

lemma handle_broadcast_queue:
  assumes c: "calm env" "node_addr env = Some a" and f: "bcast_fits n ts" and l: "6 \<le> buf_len n"
    and q: "lqueue mq_next (mq_heap (mq s)) (mq_head (mq s)) (mq_tail (mq s)) as" and a: "mq_heap (mq s) a = None"
  shows "\<exists>junk s' bs. length junk = 6 \<and>
    (let k = (\<lambda>x. if x = a then received n ts (nproc s) junk else the (mq_heap (mq s) x)); h = hd bs in
     handle_broadcast env [Bytes (drop 7 (bcast_sent n ts))] s =
       ret (s', if ack_flg (k h) = 0 then [Transmit (port_num (k h)) (ack_message (pid (k h)) (uid (k h)))] else []) \<and>
     lqueue mq_next (mq_heap (mq s')) (mq_head (mq s')) (mq_tail (mq s')) bs \<and>
     set bs = insert a (set as) \<and> length bs = length as + 1 \<and> ordered k bs \<and> s' = s\<lparr>clock := adjusted ts (clock s), mq := mq s'\<rparr> \<and>
     map_option strip (mq_heap (mq s') h) = Some (strip (k h)\<lparr>ack_flg := if ack_flg (k h) = 0 then 1 else ack_flg (k h)\<rparr>) \<and>
     (\<forall>x. x \<noteq> h \<longrightarrow> map_option strip (mq_heap (mq s') x) =
        map_option strip (((mq_heap (mq s))(a \<mapsto> received n ts (nproc s) junk)) x)))"
proof -
  from handle_broadcast_received [OF c f l, of s] obtain junk where
    j: "length junk = 6" and run: "handle_broadcast env [Bytes (drop 7 (bcast_sent n ts))] s =
      bindp (mq_enqueue (Some a) ((mq s)\<lparr>mq_heap := (mq_heap (mq s))(a \<mapsto> received n ts (nproc s) junk)\<rparr>)) (\<lambda>q.
      bindp (check_and_ack_head env q) (\<lambda>(out, q). ret (s\<lparr>clock := adjusted ts (clock s), mq := q\<rparr>, out)))" by blast
  let ?r = "received n ts (nproc s) junk"
  let ?q = "(mq s)\<lparr>mq_heap := (mq_heap (mq s))(a \<mapsto> ?r)\<rparr>"
  let ?k = "\<lambda>x. if x = a then ?r else the (mq_heap (mq s) x)"
  have new: "a \<notin> set as" by (rule fresh_not_in_lqueue [OF q a])
  have "lqueue mq_next (mq_heap ?q) (mq_head ?q) (mq_tail ?q) as" using q new by (simp add: lqueue_frame)
  from mq_enqueue_snoc [OF this, of a ?r] new obtain q1 where
    q1: "mq_enqueue (Some a) ?q = ret q1" "lqueue mq_next (mq_heap q1) (mq_head q1) (mq_tail q1) (as @ [a])"
      "same_nodes (mq_heap ?q) (mq_heap q1)" by (auto simp: received_def)
  have k: "strip (the (mq_heap q1 x)) = strip (?k x)" "mq_heap q1 x \<noteq> None" if "x \<in> set (as @ [a])" for x
  proof -
    from chain_dom [OF lqueueD [OF q1(2)] that] obtain m where m: "mq_heap q1 x = Some m" by blast
    then show "mq_heap q1 x \<noteq> None" by simp
    have "map_option strip (mq_heap q1 x) = map_option strip (mq_heap ?q x)"
      using q1(3) unfolding same_nodes_def by blast
    with m have "map_option strip (mq_heap ?q x) = Some (strip m)" by (simp only: option.map)
    with m show "strip (the (mq_heap q1 x)) = strip (?k x)" by (auto split: if_split_asm)
  qed
  let ?k1 = "\<lambda>x. the (mq_heap q1 x)" and ?bs = "osort (\<lambda>x. the (mq_heap q1 x)) (as @ [a])"
  from check_and_ack_head_sorted [OF c(1) q1(2)] obtain q2 where
    q2: "check_and_ack_head env q1 = ret (if ack_flg (?k1 (hd ?bs)) = 0
        then [Transmit (port_num (?k1 (hd ?bs))) (ack_message (pid (?k1 (hd ?bs))) (uid (?k1 (hd ?bs))))] else [], q2)"
      "lqueue mq_next (mq_heap q2) (mq_head q2) (mq_tail q2) ?bs"
      "map_option strip (mq_heap q2 (hd ?bs)) = Some (strip (?k1 (hd ?bs))\<lparr>ack_flg := if ack_flg (?k1 (hd ?bs)) = 0 then 1
        else ack_flg (?k1 (hd ?bs))\<rparr>)"
      "\<forall>x. x \<noteq> hd ?bs \<longrightarrow> map_option strip (mq_heap q2 x) = map_option strip (mq_heap q1 x)" by auto
  have hd_in: "hd ?bs \<in> set (as @ [a])"
    by (metis hd_in_set length_0_conv length_osort set_osort snoc_eq_iff_butlast)
  have fields: "ack_flg (?k1 x) = ack_flg (?k x)" "port_num (?k1 x) = port_num (?k x)" "pid (?k1 x) = pid (?k x)"
    "uid (?k1 x) = uid (?k x)" "lc (?k1 x) = lc (?k x)" if "x \<in> set (as @ [a])" for x
    by (rule strip_fields [OF k(1) [OF that]])+
  have "ordered ?k ?bs"
    unfolding ordered_def
  proof (rule sorted_wrt_mono_rel [OF _ ordered_osort [unfolded ordered_def]])
    fix x y assume "x \<in> set ?bs" "y \<in> set ?bs" "before (?k1 x) (?k1 y)"
    then show "before (?k x) (?k y)" using fields [of x] fields [of y] by (simp only: before_def set_osort)
  qed
  moreover have "\<forall>x. x \<noteq> hd ?bs \<longrightarrow> map_option strip (mq_heap q2 x) = map_option strip (((mq_heap (mq s))(a \<mapsto> ?r)) x)"
    using q2(4) q1(3) unfolding same_nodes_def by simp
  moreover have "handle_broadcast env [Bytes (drop 7 (bcast_sent n ts))] s = ret (s\<lparr>clock := adjusted ts (clock s), mq := q2\<rparr>,
      if ack_flg (?k (hd ?bs)) = 0 then [Transmit (port_num (?k (hd ?bs))) (ack_message (pid (?k (hd ?bs))) (uid (?k (hd ?bs))))] else [])"
    unfolding run q1(1) bindp_simps q2(1) fields [OF hd_in] by simp
  moreover have "map_option strip (mq_heap q2 (hd ?bs)) = Some (strip (?k (hd ?bs))\<lparr>ack_flg := if ack_flg (?k (hd ?bs)) = 0 then 1
        else ack_flg (?k (hd ?bs))\<rparr>)"
    unfolding q2(3) k(1) [OF hd_in] fields(1) [OF hd_in] ..
  ultimately show ?thesis
    using j q2(2) unfolding Let_def
    by (intro exI [of _ junk] exI [of _ "s\<lparr>clock := adjusted ts (clock s), mq := q2\<rparr>"] exI [of _ ?bs])
      simp
qed

section \<open>Messages of at most five bytes\<close>

text \<open>
  Nothing of such a message arrives, and of a shorter one not even all of the metadata. The sender
  keeps the connection open, so the receiver waits in \<open>recv\<close> for ever.
\<close>

lemma handle_broadcast_short:
  assumes c: "calm env" and f: "bcast_fits n ts" and l: "buf_len n \<le> 5"
  shows "handle_broadcast env [Bytes (drop 7 (bcast_sent n ts))] s = stop_with Blocked"
proof (cases "buf_len n = 5")
  case True
  have w: "drop 7 (bcast_sent n ts) = bcast_meta_text n ts @ []" using bcast_sent_rest(2) [OF f] True by simp
  obtain mem meta where mem: "block_mem env 39 = Some mem"
    "recv_buffer mem 38 [Bytes (bcast_meta_text n ts @ [])] =
       ret (0, 38, bcast_meta_text n ts @ drop 38 mem, rest_of [] [])"
    "write_at (bcast_meta_text n ts @ drop 38 mem) 38 [NUL] = ret meta"
    "decode_metadata meta = decode_metadata (bcast_meta_text n ts)"
    using metadata_received [OF c f] by metis
  have "b_len (decode_metadata meta) = int (buf_len n)" using mem(4) decode_bcast_meta [OF f] by simp
  then show ?thesis
    unfolding handle_broadcast_def w
    using mem(1-3) True by (simp add: Let_def rest_of_def)
next
  case False
  with l have l4: "buf_len n < 5" by simp
  let ?x = "drop 7 (bcast_sent n ts)"
  have lw: "length (bcast_wire n ts) = 48 + buf_len n"
    using f length_bcast_meta_text [OF f] by (simp add: bcast_wire_def bcast_fits_def CRLF_def)
  then have lx: "length ?x = 33 + buf_len n" by (simp add: bcast_sent_def)
  obtain mem where mem: "block_mem env 39 = Some mem" "39 + 8 \<le> length mem"
    using calm_block [OF c] by blast
  have "recv_buffer_loop 38 0 38 0 mem [Bytes ?x] =
      recv_buffer_loop 38 (0 + length ?x) (38 - length ?x) (length ?x) (take 0 mem @ ?x @ drop (0 + length ?x) mem) []"
    using lx l4 mem(2) by (intro recv_buffer_loop_step) auto
  also have "\<dots> = stop_with Blocked"
    using lx l4 by (subst recv_buffer_loop.simps) simp
  finally show ?thesis using mem(1) by (simp add: handle_broadcast_def recv_buffer_def Let_def)
qed

section \<open>Acknowledgements and ready messages\<close>

lemma ack_message_facts:
  assumes "0 \<le> p" "p < 2 ^ 31"
  shows "length (drop 7 (ack_message p u)) < 1024" and "drop 7 (ack_message p u) \<noteq> []"
    and "cstr (drop 7 (ack_message p u)) = drop 7 (ack_message p u)"
proof -
  have "nat p < 10 ^ 10" using assms by simp
  then have "length (dec (nat p)) \<le> 10" by (intro length_dec_le) simp_all
  then show "length (drop 7 (ack_message p u)) < 1024"
    using assms(1) unat_uid_digits [of u] by (simp add: ack_message_def CRLF_def dec_int_def)
  show "drop 7 (ack_message p u) \<noteq> []" by (simp add: ack_message_def CRLF_def)
  show "cstr (drop 7 (ack_message p u)) = drop 7 (ack_message p u)"
    by (rule cstr_idem) (use assms(1) dec_digits [of "nat p"] dec_digits [of "unat u"] in
      \<open>auto simp: ack_message_def CRLF_def dec_int_def\<close>)
qed

text \<open>An acknowledgement that does not complete the count changes the count and nothing else.\<close>

lemma handle_ack_below:
  assumes p: "0 \<le> p" "p < 2 ^ 31"
    and q: "lqueue mq_next (mq_heap (mq s)) (mq_head (mq s)) (mq_tail (mq s)) as"
    and f: "find (\<lambda>a. uid (the (mq_heap (mq s) a)) = u) as = Some a" and n: "mq_heap (mq s) a = Some n"
    and c: "ack_count n + 1 \<noteq> nprocs n"
  shows "handle_ack env [Bytes (drop 7 (ack_message p u))] s =
    ret (s\<lparr>mq := (mq s)\<lparr>mq_heap := (mq_heap (mq s))(a \<mapsto> ack_count_update (\<lambda>c. c + 1) n)\<rparr>\<rparr>, [])"
proof -
  note k = ack_message_facts [OF p, of u]
  have "recv [Bytes (drop 7 (ack_message p u))] 1024 = ret (Some (drop 7 (ack_message p u)), [])" using k by simp
  moreover have "find_node u (mq s) = ret (Some a)" using find_node_find [OF lqueueD [OF q]] f by simp
  ultimately show ?thesis
    unfolding handle_ack_def count_ack_def using k scan_ack_message [OF p, of u] n c by (simp add: Let_def)
qed

text \<open>
  The acknowledgement that completes the count broadcasts the ready message and delivers; every
  other one counts and does nothing else.
\<close>

lemma handle_ack_counts:
  assumes c: "calm env" and p: "0 \<le> p" "p < 2 ^ 31"
    and q: "lqueue mq_next (mq_heap (mq s)) (mq_head (mq s)) (mq_tail (mq s)) as"
    and f: "find (\<lambda>a. uid (the (mq_heap (mq s) a)) = u) as = Some a" and n: "mq_heap (mq s) a = Some n"
    and b: "length (buffer n) = buf_len n + 1" and sh: "shared s"
  shows "\<exists>s'. handle_ack env [Bytes (drop 7 (ack_message p u))] s =
      ret (s', if ack_count n + 1 = nprocs n
        then map (\<lambda>i. Transmit (BASEPORT + int i) (ready_message u)) [0..<nat (nprocs n)] @
          [Deliver (take (buf_len n) (buffer n))]
        else []) \<and>
    lqueue mq_next (mq_heap (mq s')) (mq_head (mq s')) (mq_tail (mq s')) as \<and>
    (\<exists>n'. mq_heap (mq s') a = Some n' \<and> ack_count n' = ack_count n + 1 \<and> ack_flg n' = ack_flg n \<and> uid n' = uid n) \<and>
    (\<forall>x. x \<noteq> a \<longrightarrow> mq_heap (mq s') x = mq_heap (mq s) x) \<and>
    clock s' = clock s + (if ack_count n + 1 = nprocs n then 1 else 0)"
proof -
  note k = ack_message_facts [OF p, of u]
  let ?t = "drop 7 (ack_message p u)"
  let ?n = "ack_count_update (\<lambda>c. c + 1) n"
  let ?s = "s\<lparr>mq := (mq s)\<lparr>mq_heap := (mq_heap (mq s))(a \<mapsto> ?n)\<rparr>\<rparr>"
  have r: "recv [Bytes ?t] 1024 = ret (Some ?t, [])" using k by simp
  have fn: "find_node u (mq s) = ret (Some a)" using find_node_find [OF lqueueD [OF q]] f by simp
  have u: "uid n = u" using f n by (auto simp: find_Some_iff)
  have lq: "lqueue mq_next ((mq_heap (mq s))(a \<mapsto> m)) (mq_head (mq s)) (mq_tail (mq s)) as"
    if "mq_next m = mq_next n" for m
    using q n that by (subst lqueue_cong [of _ mq_next _ "mq_heap (mq s)"]) auto
  show ?thesis
  proof (cases "ack_count n + 1 = nprocs n")
    case False
    from handle_ack_below [OF p q f n False] have "handle_ack env [Bytes ?t] s = ret (?s, [])" .
    then show ?thesis using False lq [of ?n] n by (intro exI [of _ ?s]) simp
  next
    case True
    let ?b = "take (buf_len n) (buffer n) @ [NUL]"
    let ?m = "?n\<lparr>buffer := ?b\<rparr>"
    let ?out = "map (\<lambda>i. Transmit (BASEPORT + int i) (ready_message u)) [0..<nat (nprocs n)]"
    let ?s' = "s\<lparr>mq := (mq s)\<lparr>mq_heap := (mq_heap (mq s))(a \<mapsto> ?m)\<rparr>, clock := clock s + 1\<rparr>"
    have w: "write_at (buffer ?n) (buf_len ?n) [NUL] = ret ?b" using b by (simp add: write_at_def)
    have d: "write_shared True ?b (buf_len n) = ret [Deliver (take (buf_len n) (buffer n))]"
      using b by (simp add: write_shared_def)
    have br: "broadcast_ready_message env ?n (clock s) = (?out, clock s + 1)"
      using calmD(2,5,6) [OF c] u by (simp add: broadcast_ready_message_def send_once_def)
    have "handle_ack env [Bytes ?t] s = ret (?s', ?out @ [Deliver (take (buf_len n) (buffer n))])"
      unfolding handle_ack_def count_ack_def using r k scan_ack_message [OF p, of u] fn n True w d br sh
      by (simp add: Let_def)
    then show ?thesis using True lq [of ?m] n by (intro exI [of _ ?s']) simp
  qed
qed

lemma ready_message_facts:
  "length (drop 7 (ready_message u)) < 1024" "drop 7 (ready_message u) \<noteq> []"
  "cstr (drop 7 (ready_message u)) = drop 7 (ready_message u)"
proof -
  show "length (drop 7 (ready_message u)) < 1024"
    using unat_uid_digits [of u] by (simp add: ready_message_def CRLF_def)
  show "drop 7 (ready_message u) \<noteq> []" by (simp add: ready_message_def CRLF_def)
  show "cstr (drop 7 (ready_message u)) = drop 7 (ready_message u)"
    by (rule cstr_idem) (use dec_digits [of "unat u"] in \<open>auto simp: ready_message_def CRLF_def\<close>)
qed

lemma handle_ready_dequeues:
  "handle_ready [Bytes (drop 7 (ready_message u))] s =
     bindp (mq_dequeue u (mq s)) (\<lambda>q. ret (s\<lparr>mq := q\<rparr>, []))"
proof -
  have "recv [Bytes (drop 7 (ready_message u))] 1024 = ret (Some (drop 7 (ready_message u)), [])"
    using ready_message_facts [of u] by simp
  then show ?thesis
    using ready_message_facts(1,3) [of u] scan_ready_message [of u] by (simp add: handle_ready_def)
qed

section \<open>The first message after an empty queue\<close>

lemma order_queue_null [simp]: "mq_head q = None \<Longrightarrow> order_queue q = ret q"
  by (simp add: order_queue_def)

lemma check_and_ack_null: "mq_head q = None \<Longrightarrow> check_and_ack_head env q = ret ([], q)"
  by (simp add: check_and_ack_head_def)

text \<open>
  A process takes its last message off the queue; what happens to the next broadcast depends on
  the address \<open>malloc\<close> gives its node.
\<close>

lemma next_broadcast:
  assumes c: "calm env" "node_addr env = Some b" and f: "bcast_fits n ts" and l: "6 \<le> buf_len n"
    and q: "lqueue mq_next (mq_heap (mq s)) (mq_head (mq s)) (mq_tail (mq s)) [a]"
    and u: "uid (the (mq_heap (mq s) a)) = u"
  shows "\<exists>s1. handle_ready [Bytes (drop 7 (ready_message u))] s = ret (s1, []) \<and>
    (b \<noteq> a \<longrightarrow> handle_broadcast env [Bytes (drop 7 (bcast_sent n ts))] s1 = stop_with Dangling) \<and>
    (b = a \<longrightarrow> (\<exists>s2. handle_broadcast env [Bytes (drop 7 (bcast_sent n ts))] s1 = ret (s2, []) \<and>
       mq_head (mq s2) = None))"
proof -
  let ?q = "(mq s)\<lparr>mq_heap := (mq_heap (mq s))(a := None), mq_head := None\<rparr>"
  let ?s = "s\<lparr>mq := ?q\<rparr>"
  from mq_dequeue_last [OF q u] have d: "mq_dequeue u (mq s) = ret ?q" "mq_tail (mq s) = Some a" by blast+
  have "handle_ready [Bytes (drop 7 (ready_message u))] s = ret (?s, [])"
    by (simp add: handle_ready_dequeues d)
  moreover obtain junk where run: "handle_broadcast env [Bytes (drop 7 (bcast_sent n ts))] ?s =
      bindp (mq_enqueue (Some b) ((mq ?s)\<lparr>mq_heap := (mq_heap (mq ?s))(b \<mapsto> received n ts (nproc ?s) junk)\<rparr>)) (\<lambda>q.
      bindp (check_and_ack_head env q) (\<lambda>(out, q). ret (?s\<lparr>clock := adjusted ts (clock ?s), mq := q\<rparr>, out)))"
    using handle_broadcast_received [OF c f l, of ?s] by blast
  let ?q1 = "(mq ?s)\<lparr>mq_heap := (mq_heap (mq ?s))(b \<mapsto> received n ts (nproc ?s) junk)\<rparr>"
  have "handle_broadcast env [Bytes (drop 7 (bcast_sent n ts))] ?s = stop_with Dangling" if "b \<noteq> a"
  proof -
    have "mq_enqueue (Some b) ?q1 = stop_with Dangling"
      using that d(2) by (intro mq_enqueue_dangling [of _ a]) simp_all
    then show ?thesis unfolding run by (simp only: bindp_simps)
  qed
  moreover have "\<exists>s2. handle_broadcast env [Bytes (drop 7 (bcast_sent n ts))] ?s = ret (s2, []) \<and> mq_head (mq s2) = None"
    if "b = a"
  proof -
    have "\<exists>q2. mq_enqueue (Some b) ?q1 = ret q2 \<and> mq_head q2 = None"
      using mq_enqueue_reused [of ?q1 a "received n ts (nproc ?s) junk"] that d(2) by simp
    then obtain q2 where q2: "mq_enqueue (Some b) ?q1 = ret q2" "mq_head q2 = None" by blast
    show ?thesis
      unfolding run q2(1) bindp_simps check_and_ack_null [OF q2(2)] using q2(2) by simp
  qed
  ultimately show ?thesis by blast
qed

section \<open>Samples\<close>

text \<open>Surroundings in which nothing fails.\<close>

definition sample_tob_env :: "ptr \<Rightarrow> tob_env" where
  "sample_tob_env p = \<lparr>node_addr = p, node_mem = \<lambda>n. Some (replicate n (CHR ''x'')),
     block_mem = \<lambda>n. Some (replicate (n + 8) (CHR ''x'')), stack_mem = \<lambda>n. replicate n (CHR ''x''),
     opens = \<lambda>i. Some True, accepts = \<lambda>i. [], behind = [CHR ''x'']\<rparr>"

lemma sample_tob_env_calm: "calm (sample_tob_env p)" "node_addr (sample_tob_env p) = p"
  by (simp_all add: calm_def sample_tob_env_def)

definition sample_proc :: "msg_queue \<Rightarrow> tob_proc" where
  "sample_proc q = \<lparr>self = 4711, port = 10000, nproc = 3, clock = 2, mq = q, shared = True\<rparr>"

lemma sample_proc_sel [simp]:
  "self (sample_proc q) = 4711" "port (sample_proc q) = 10000" "nproc (sample_proc q) = 3"
  "clock (sample_proc q) = 2" "mq (sample_proc q) = q" "shared (sample_proc q)"
  by (simp_all add: sample_proc_def)

end
