(* ===== verification/TobConn.thy ===== *)
theory TobConn
  imports TobHandlers
begin

text \<open>
  Whole connections of a broadcast process: the header, its handler, and the answer. Each
  property takes the bytes that another part of the program sends, in one piece, and says what
  \<open>handle_client\<close> does with them.
\<close>

section \<open>From the header to the handler\<close>

definition reply :: "tob_proc \<times> effect list \<Rightarrow> (tob_proc \<times> effect list) prog" where
  "reply = (\<lambda>(s, out). ret (s, out @ [Reply (''ACK'' @ CRLF)]))"

lemma reply_simp [simp]: "reply (s, out) = ret (s, out @ [Reply (''ACK'' @ CRLF)])"
  by (simp add: reply_def)

lemma dispatch:
  assumes c: "calm env" and rest: "rest \<noteq> []"
  shows "tob_handle_client env [Bytes (''ISSUE'' @ CRLF @ rest)] s = bindp (handle_issue env [Bytes rest] s) reply"
    "tob_handle_client env [Bytes (''BROAD'' @ CRLF @ rest)] s = bindp (handle_broadcast env [Bytes rest] s) reply"
    "tob_handle_client env [Bytes (''ACK00'' @ CRLF @ rest)] s = bindp (handle_ack env [Bytes rest] s) reply"
    "tob_handle_client env [Bytes (''READY'' @ CRLF @ rest)] s = bindp (handle_ready [Bytes rest] s) reply"
proof -
  obtain b bs where b: "behind env = b # bs" using calmD(4) [OF c] by (cases "behind env") auto
  have l: "length (stack_mem env 7) = 7" by (rule calmD(3) [OF c])
  have h: "write_at (h @ drop (length h) (stack_mem env 7) @ behind env) (length h) [NUL] = ret (h @ NUL # bs)"
    if "length h = 7" for h
    using that l b by (simp add: write_at_def)
  have run: "tob_handle_client env [Bytes (h @ rest)] s =
      bindp (if take 5 h = ''ISSUE'' then handle_issue env [Bytes rest] s
             else if take 5 h = ''BROAD'' then handle_broadcast env [Bytes rest] s
             else if take 5 h = ''ACK00'' then handle_ack env [Bytes rest] s
             else if take 5 h = ''READY'' then handle_ready [Bytes rest] s
             else ret (s, [])) reply"
    if "length h = 7" "NUL \<notin> set h" for h
  proof -
    have "recv [Bytes (h @ rest)] 7 = ret (Some h, [Bytes rest])"
      using that(1) rest by (intro recv_split) simp_all
    moreover have "cstr (h @ NUL # bs) = h" by (rule cstr_append [OF that(2)])
    moreover have "(\<lambda>(s, out). ret (s, out @ [Reply (''ACK'' @ CRLF)])) = reply" by (simp add: reply_def)
    ultimately show ?thesis
      unfolding tob_handle_client_def using h [OF that(1)]
      by (simp del: recv.simps add: strncmp_0_iff Let_def)
  qed
  show "tob_handle_client env [Bytes (''ISSUE'' @ CRLF @ rest)] s = bindp (handle_issue env [Bytes rest] s) reply"
    "tob_handle_client env [Bytes (''BROAD'' @ CRLF @ rest)] s = bindp (handle_broadcast env [Bytes rest] s) reply"
    "tob_handle_client env [Bytes (''ACK00'' @ CRLF @ rest)] s = bindp (handle_ack env [Bytes rest] s) reply"
    "tob_handle_client env [Bytes (''READY'' @ CRLF @ rest)] s = bindp (handle_ready [Bytes rest] s) reply"
    using run [of "''ISSUE'' @ CRLF"] run [of "''BROAD'' @ CRLF"] run [of "''ACK00'' @ CRLF"] run [of "''READY'' @ CRLF"]
    by (simp_all add: CRLF_def)
qed

text \<open>The same for the messages of the program, which all start with a header of seven bytes.\<close>

lemma message_frames:
  "issue_frame msg = ''ISSUE'' @ CRLF @ drop 7 (issue_frame msg)" "drop 7 (issue_frame msg) \<noteq> []"
  "ack_message p u = ''ACK00'' @ CRLF @ drop 7 (ack_message p u)"
  "ready_message u = ''READY'' @ CRLF @ drop 7 (ready_message u)"
  by (simp_all add: issue_frame_def ack_message_def ready_message_def CRLF_def)

lemma bcast_frame:
  assumes "bcast_fits n ts"
  shows "bcast_sent n ts = ''BROAD'' @ CRLF @ drop 7 (bcast_sent n ts)" "drop 7 (bcast_sent n ts) \<noteq> []"
proof -
  have "length (bcast_sent n ts) = 40 + buf_len n"
    using assms length_bcast_meta_text [OF assms] by (simp add: bcast_sent_def bcast_wire_def bcast_fits_def CRLF_def)
  then show "drop 7 (bcast_sent n ts) \<noteq> []" by auto
  have "take 7 (bcast_sent n ts) = ''BROAD'' @ CRLF" by (simp add: bcast_sent_def bcast_wire_def CRLF_def)
  then show "bcast_sent n ts = ''BROAD'' @ CRLF @ drop 7 (bcast_sent n ts)"
    using append_take_drop_id [of 7 "bcast_sent n ts"] by (metis append_assoc)
qed

lemma connection:
  assumes "calm env"
  shows "tob_handle_client env [Bytes (issue_frame msg)] s = bindp (handle_issue env [Bytes (drop 7 (issue_frame msg))] s) reply"
    "bcast_fits n ts \<Longrightarrow> tob_handle_client env [Bytes (bcast_sent n ts)] s =
       bindp (handle_broadcast env [Bytes (drop 7 (bcast_sent n ts))] s) reply"
    "0 \<le> p \<Longrightarrow> p < 2 ^ 31 \<Longrightarrow> tob_handle_client env [Bytes (ack_message p u)] s =
       bindp (handle_ack env [Bytes (drop 7 (ack_message p u))] s) reply"
    "tob_handle_client env [Bytes (ready_message u)] s =
       bindp (handle_ready [Bytes (drop 7 (ready_message u))] s) reply"
proof -
  note d = dispatch [OF assms]
  show "tob_handle_client env [Bytes (issue_frame msg)] s = bindp (handle_issue env [Bytes (drop 7 (issue_frame msg))] s) reply"
    using d(1) [OF message_frames(2)] unfolding message_frames(1) [symmetric] .
  show "tob_handle_client env [Bytes (bcast_sent n ts)] s =
      bindp (handle_broadcast env [Bytes (drop 7 (bcast_sent n ts))] s) reply" if f: "bcast_fits n ts"
    using d(2) [OF bcast_frame(2) [OF f]] unfolding bcast_frame(1) [OF f, symmetric] .
  show "tob_handle_client env [Bytes (ack_message p u)] s =
      bindp (handle_ack env [Bytes (drop 7 (ack_message p u))] s) reply" if p: "0 \<le> p" "p < 2 ^ 31"
    using d(3) [OF ack_message_facts(2) [OF p]] unfolding message_frames(3) [symmetric] .
  show "tob_handle_client env [Bytes (ready_message u)] s =
      bindp (handle_ready [Bytes (drop 7 (ready_message u))] s) reply"
    using d(4) [OF ready_message_facts(2)] unfolding message_frames(4) [symmetric] .
qed

section \<open>Properties\<close>



text \<open>
  C19: a broadcast of at least six bytes is put into the queue, without its last five bytes and with
  six bytes of the receiver's memory in their place; the queue then is in timestamp order, and the
  message at its head is acknowledged to its sender unless that was done before. No other message
  is acknowledged or changed. The clock becomes the larger of the timestamp and its successor.
\<close>

theorem broadcast_queued:
  assumes "calm env" "node_addr env = Some a" and "bcast_fits n ts" "6 \<le> buf_len n"
    and "lqueue mq_next (mq_heap (mq s)) (mq_head (mq s)) (mq_tail (mq s)) as" "mq_heap (mq s) a = None"
  shows "\<exists>junk s' bs. length junk = 6 \<and>
    (let k = (\<lambda>x. if x = a then received n ts (nproc s) junk else the (mq_heap (mq s) x)); h = hd bs in
     tob_handle_client env [Bytes (bcast_sent n ts)] s =
       ret (s', (if ack_flg (k h) = 0 then [Transmit (port_num (k h)) (ack_message (pid (k h)) (uid (k h)))] else []) @
         [Reply (''ACK'' @ CRLF)]) \<and>
     lqueue mq_next (mq_heap (mq s')) (mq_head (mq s')) (mq_tail (mq s')) bs \<and>
     set bs = insert a (set as) \<and> length bs = length as + 1 \<and> ordered k bs \<and> s' = s\<lparr>clock := adjusted ts (clock s), mq := mq s'\<rparr> \<and>
     map_option strip (mq_heap (mq s') h) = Some (strip (k h)\<lparr>ack_flg := if ack_flg (k h) = 0 then 1 else ack_flg (k h)\<rparr>) \<and>
     (\<forall>x. x \<noteq> h \<longrightarrow> map_option strip (mq_heap (mq s') x) =
        map_option strip (((mq_heap (mq s))(a \<mapsto> received n ts (nproc s) junk)) x)))"
  using handle_broadcast_queue [OF assms] unfolding connection(2) [OF assms(1,3)] Let_def
  by (elim exE conjE) (intro exI conjI, assumption, simp only: bindp_simps reply_simp, assumption+)

theorem broadcast_queued_witness:
  "\<exists>s' out bs. tob_handle_client (sample_tob_env (Some 5)) [Bytes (bcast_sent sample_bcast 4)] (sample_proc sample_queue) =
      ret (s', out) \<and>
    lqueue mq_next (mq_heap (mq s')) (mq_head (mq s')) (mq_tail (mq s')) bs \<and> set bs = {5, 11, 12, 13}"
proof -
  have q: "lqueue mq_next (mq_heap (mq (sample_proc sample_queue))) (mq_head (mq (sample_proc sample_queue)))
      (mq_tail (mq (sample_proc sample_queue))) [11, 12, 13]" "mq_heap (mq (sample_proc sample_queue)) 5 = None"
    using sample_queue_rep by (simp_all add: sample_queue_def)
  have "6 \<le> buf_len sample_bcast" by (simp add: sample_bcast_def)
  from broadcast_queued [OF sample_tob_env_calm sample_bcast_fits this q] show ?thesis
    unfolding Let_def by fastforce
qed

text \<open>
  C33: a broadcast of a message of at most five bytes (an issued message of at most four characters and
  its terminator) never gets through: the receiver waits in \<open>recv\<close> for bytes that are not sent, on a
  connection that the sender never closes.
\<close>

theorem short_message_blocks:
  assumes "calm env" and "bcast_fits n ts" and "buf_len n \<le> 5"
  shows "tob_handle_client env [Bytes (bcast_sent n ts)] s = stop_with Blocked"
  using connection(2) [OF assms(1,2)] handle_broadcast_short [OF assms] by simp

theorem short_message_blocks_witness:
  "tob_handle_client (sample_tob_env (Some 5)) [Bytes (bcast_sent (sample_bcast\<lparr>buf_len := 4\<rparr>) 4)] (sample_proc mq_init) =
     stop_with Blocked"
  by (rule short_message_blocks) (simp_all add: sample_tob_env_calm bcast_fits_def sample_bcast_def)

text \<open>
  C20: an acknowledgement increases the count of the first message with its identifier. The one that
  makes the count equal to the number of processes delivers the message and announces it as
  ready to every process, wherever the message stands in the queue; every other one has no
  effect but the answer.
\<close>

theorem ack_delivers_at_count:
  assumes "calm env" and "0 \<le> p" "p < 2 ^ 31"
    and "lqueue mq_next (mq_heap (mq s)) (mq_head (mq s)) (mq_tail (mq s)) as"
    and "find (\<lambda>a. uid (the (mq_heap (mq s) a)) = u) as = Some a" and "mq_heap (mq s) a = Some n"
    and "length (buffer n) = buf_len n + 1" and "shared s"
  shows "\<exists>s'. tob_handle_client env [Bytes (ack_message p u)] s =
      ret (s', (if ack_count n + 1 = nprocs n
        then map (\<lambda>i. Transmit (BASEPORT + int i) (ready_message u)) [0..<nat (nprocs n)] @
          [Deliver (take (buf_len n) (buffer n))]
        else []) @ [Reply (''ACK'' @ CRLF)]) \<and>
    lqueue mq_next (mq_heap (mq s')) (mq_head (mq s')) (mq_tail (mq s')) as \<and>
    (\<exists>n'. mq_heap (mq s') a = Some n' \<and> ack_count n' = ack_count n + 1 \<and> ack_flg n' = ack_flg n \<and> uid n' = uid n) \<and>
    (\<forall>x. x \<noteq> a \<longrightarrow> mq_heap (mq s') x = mq_heap (mq s) x) \<and>
    clock s' = clock s + (if ack_count n + 1 = nprocs n then 1 else 0)"
  using handle_ack_counts [OF assms] unfolding connection(3) [OF assms(1-3)]
  by (elim exE conjE) (intro exI conjI, simp only: bindp_simps reply_simp, assumption+)

definition sample_acked :: "int \<Rightarrow> msg_queue" where
  "sample_acked c = \<lparr>mq_heap = [11 \<mapsto> (sample_msg 5 9 31 (Some 12))\<lparr>ack_count := c\<rparr>, 12 \<mapsto> sample_msg 5 2 32 None],
     mq_head = Some 11, mq_tail = Some 12\<rparr>"

lemma sample_acked_rep:
  "lqueue mq_next (mq_heap (sample_acked c)) (mq_head (sample_acked c)) (mq_tail (sample_acked c)) [11, 12]"
  by (simp add: lqueue_def sample_acked_def sample_msg_def)

theorem ack_delivers_at_count_witness:
  "(\<exists>s'. tob_handle_client (sample_tob_env None) [Bytes (ack_message 4711 31)] (sample_proc (sample_acked 1)) =
     ret (s', [Reply (''ACK'' @ CRLF)])) \<and>
   (\<exists>s'. tob_handle_client (sample_tob_env None) [Bytes (ack_message 4711 31)] (sample_proc (sample_acked 2)) =
     ret (s', map (\<lambda>i. Transmit (BASEPORT + int i) (ready_message 31)) [0..<3] @ [Deliver ''m'', Reply (''ACK'' @ CRLF)]))"
proof -
  let ?n = "\<lambda>c. (sample_msg 5 9 31 (Some 12))\<lparr>ack_count := c\<rparr>"
  have t: "\<exists>s'. tob_handle_client (sample_tob_env None) [Bytes (ack_message 4711 31)] (sample_proc (sample_acked c)) =
      ret (s', (if ack_count (?n c) + 1 = nprocs (?n c)
        then map (\<lambda>i. Transmit (BASEPORT + int i) (ready_message 31)) [0..<nat (nprocs (?n c))] @
          [Deliver (take (buf_len (?n c)) (buffer (?n c)))]
        else []) @ [Reply (''ACK'' @ CRLF)])" for c
    using ack_delivers_at_count [OF sample_tob_env_calm(1) [of None], of 4711 "sample_proc (sample_acked c)" "[11, 12]" 31 11 "?n c"]
      sample_acked_rep [of c]
    by (fastforce simp: sample_acked_def sample_msg_def)
  show ?thesis using t [of 1] t [of 2] by (simp add: sample_msg_def)
qed

text \<open>
  A ready message takes the message it names off a longer queue and does nothing else: the
  message that becomes the head is not acknowledged. As acknowledgements are sent only when a
  broadcast arrives, it waits for the next one.
\<close>

lemma ready_acknowledges_nothing:
  assumes "calm env"
    and "lqueue mq_next (mq_heap (mq s)) (mq_head (mq s)) (mq_tail (mq s)) (a # b # as)"
    and "uid (the (mq_heap (mq s) a)) = u"
  shows "tob_handle_client env [Bytes (ready_message u)] s =
      ret (s\<lparr>mq := (mq s)\<lparr>mq_heap := (mq_heap (mq s))(a := None), mq_head := Some b\<rparr>\<rparr>, [Reply (''ACK'' @ CRLF)]) \<and>
    lqueue mq_next ((mq_heap (mq s))(a := None)) (Some b) (mq_tail (mq s)) (b # as)"
proof -
  from assms(2) obtain n where n: "mq_heap (mq s) a = Some n" "mq_next n = Some b"
    by (auto simp: lqueue_def split: option.splits)
  with mq_dequeue_head [OF lqueueD [OF assms(2)] n(1)] assms(3)
  have "mq_dequeue u (mq s) = ret ((mq s)\<lparr>mq_heap := (mq_heap (mq s))(a := None), mq_head := Some b\<rparr>)" by simp
  then show ?thesis
    using lqueue_tl [OF assms(2) n(1), of None] n(2)
    by (simp add: connection(4) [OF assms(1)] handle_ready_dequeues)
qed

text \<open>
  C21: after a process has taken the last message off its queue, it loses the next broadcast: where
  \<open>malloc\<close> gives the new node another address, the handler writes through the dangling tail
  pointer; where it gives the same, the queue stays empty and nothing is acknowledged, so
  the message is never delivered anywhere.
\<close>

theorem next_broadcast_lost:
  assumes "calm env" "node_addr env = Some b" and "bcast_fits n ts" "6 \<le> buf_len n"
    and "lqueue mq_next (mq_heap (mq s)) (mq_head (mq s)) (mq_tail (mq s)) [a]"
    and "uid (the (mq_heap (mq s) a)) = u"
  shows "\<exists>s1. tob_handle_client env [Bytes (ready_message u)] s = ret (s1, [Reply (''ACK'' @ CRLF)]) \<and>
    (b \<noteq> a \<longrightarrow> tob_handle_client env [Bytes (bcast_sent n ts)] s1 = stop_with Dangling) \<and>
    (b = a \<longrightarrow> (\<exists>s2. tob_handle_client env [Bytes (bcast_sent n ts)] s1 = ret (s2, [Reply (''ACK'' @ CRLF)]) \<and>
       mq_head (mq s2) = None))"
  using next_broadcast [OF assms] unfolding connection(2) [OF assms(1,3)] connection(4) [OF assms(1)]
  by (elim exE conjE) (rule exI, intro conjI impI, auto)

theorem next_broadcast_lost_witness:
  "\<exists>s1. tob_handle_client (sample_tob_env (Some 14)) [Bytes (ready_message 33)]
      (sample_proc \<lparr>mq_heap = [13 \<mapsto> sample_msg 7 2 33 None], mq_head = Some 13, mq_tail = Some 13\<rparr>) =
      ret (s1, [Reply (''ACK'' @ CRLF)]) \<and>
    tob_handle_client (sample_tob_env (Some 14)) [Bytes (bcast_sent sample_bcast 4)] s1 = stop_with Dangling"
proof -
  have "6 \<le> buf_len sample_bcast" by (simp add: sample_bcast_def)
  from next_broadcast_lost [OF sample_tob_env_calm sample_bcast_fits this,
    of "sample_proc \<lparr>mq_heap = [13 \<mapsto> sample_msg 7 2 33 None], mq_head = Some 13, mq_tail = Some 13\<rparr>" 13 33 14]
  show ?thesis by (auto simp: lqueue_def sample_msg_def)
qed

end
