(* ===== verification/TobInv.thy ===== *)
theory TobInv
  imports TobConn Outcome
begin

text \<open>
  What holds in a broadcast process whatever arrives on its connections and whatever fails around
  it: \<open>handle_client\<close> always comes to an end, the queue stays a list in timestamp order whose
  blocks have room for the terminator that \<open>handle_ack\<close> writes, and a dangling pointer is used in one
  situation only, after the last message was taken off the queue.
\<close>

section \<open>The invariant\<close>

definition node_ok :: "msg_node \<Rightarrow> bool" where
  "node_ok n \<longleftrightarrow> length (buffer n) = buf_len n + 1"

definition listed :: "msg_queue \<Rightarrow> addr list \<Rightarrow> bool" where
  "listed q as \<longleftrightarrow> lqueue mq_next (mq_heap q) (mq_head q) (mq_tail q) as \<and>
     ordered (\<lambda>a. the (mq_heap q a)) as \<and> (\<forall>a \<in> set as. node_ok (the (mq_heap q a)))"

text \<open>The queue is an ordered list, or it was emptied and \<open>tail\<close> may be anything.\<close>

definition queue_ok :: "msg_queue \<Rightarrow> bool" where
  "queue_ok q \<longleftrightarrow> mq_head q = None \<or> (\<exists>as. listed q as)"

text \<open>The allocator answers with unused addresses and with blocks that are large enough.\<close>

definition honest :: "tob_env \<Rightarrow> tob_proc \<Rightarrow> bool" where
  "honest env s \<longleftrightarrow> (\<forall>a. node_addr env = Some a \<longrightarrow> mq_heap (mq s) a = None) \<and>
     (\<forall>n m. node_mem env n = Some m \<longrightarrow> n \<le> length m)"

text \<open>The tail pointer may dangle.\<close>

definition cut_off :: "msg_queue \<Rightarrow> bool" where
  "cut_off q \<longleftrightarrow> mq_head q = None \<and> mq_tail q \<noteq> None"

abbreviation allowed :: "tob_proc \<Rightarrow> stop \<Rightarrow> bool" where
  "allowed s e \<equiv> e = Dangling \<longrightarrow> cut_off (mq s)"

lemma listed_dom: "listed q as \<Longrightarrow> a \<in> set as \<Longrightarrow> \<exists>n. mq_heap q a = Some n"
  using chain_dom lqueueD unfolding listed_def by fast

lemma listed_not_cut: "listed q as \<Longrightarrow> \<not> cut_off q"
  using chain_not_None [of mq_next "mq_heap q" "mq_head q" as]
  by (auto simp: listed_def cut_off_def lqueue_def)

text \<open>Order and blocks do not depend on the links.\<close>

lemma strip_ok: "strip m = strip n \<Longrightarrow> node_ok m = node_ok n"
  using strip_fields(8,9) [of m n] by (simp add: node_ok_def)

lemma listed_transfer:
  assumes "listed q bs" and "lqueue mq_next (mq_heap q') (mq_head q') (mq_tail q') as" and "as = filter P bs"
    and same: "\<And>x. x \<in> set as \<Longrightarrow> map_option strip (mq_heap q' x) = map_option strip (mq_heap q x)"
  shows "listed q' as"
proof -
  have sub: "x \<in> set bs" if "x \<in> set as" for x using assms(3) that by simp
  have s: "strip (the (mq_heap q' x)) = strip (the (mq_heap q x))" if "x \<in> set as" for x
    using same [OF that] listed_dom [OF assms(1) sub [OF that]] by auto
  have "sorted_wrt (\<lambda>a b. before (the (mq_heap q a)) (the (mq_heap q b))) as"
    using assms(1,3) unfolding listed_def ordered_def by (simp add: sorted_wrt_filter)
  then have "ordered (\<lambda>a. the (mq_heap q' a)) as"
    unfolding ordered_def by (rule sorted_wrt_mono_rel [rotated]) (metis s before_strip)
  moreover have "\<forall>a \<in> set as. node_ok (the (mq_heap q' a))"
    using assms(1) sub s strip_ok unfolding listed_def by blast
  ultimately show ?thesis using assms(2) by (simp add: listed_def)
qed

lemma listed_update:
  assumes "listed q as" and "mq_heap q a = Some n" and "mq_next m = mq_next n" "lc m = lc n" "pid m = pid n" "node_ok m"
  shows "listed (q\<lparr>mq_heap := (mq_heap q)(a \<mapsto> m)\<rparr>) as"
proof -
  have "before (the (((mq_heap q)(a \<mapsto> m)) x)) (the (((mq_heap q)(a \<mapsto> m)) y)) =
      before (the (mq_heap q x)) (the (mq_heap q y))" for x y
    using assms(2,4,5) by (simp add: before_def)
  moreover have "lqueue mq_next ((mq_heap q)(a \<mapsto> m)) (mq_head q) (mq_tail q) as"
    using assms(1,2,3) by (subst lqueue_cong [of _ mq_next _ "mq_heap q"]) (auto simp: listed_def)
  ultimately show ?thesis using assms(1,6) by (simp add: listed_def ordered_def)
qed

lemma queue_ok_update:
  assumes "queue_ok q" and "mq_heap q a = Some n" and "mq_next m = mq_next n" "lc m = lc n" "pid m = pid n" "node_ok m"
  shows "queue_ok (q\<lparr>mq_heap := (mq_heap q)(a \<mapsto> m)\<rparr>)"
  using assms(1) listed_update [OF _ assms(2-)] by (auto simp: queue_ok_def)

text \<open>A node that is not linked does not matter.\<close>

lemma listed_fresh:
  assumes "listed q as" and "mq_heap q a = None"
  shows "a \<notin> set as" "listed (q\<lparr>mq_heap := (mq_heap q)(a \<mapsto> m)\<rparr>) as"
proof -
  show new: "a \<notin> set as" using listed_dom [OF assms(1), of a] assms(2) by auto
  have "map_option strip (mq_heap (q\<lparr>mq_heap := (mq_heap q)(a \<mapsto> m)\<rparr>) x) = map_option strip (mq_heap q x)"
    if "x \<in> set as" for x using new that by auto
  moreover have "lqueue mq_next ((mq_heap q)(a \<mapsto> m)) (mq_head q) (mq_tail q) as"
    using assms(1) new by (simp add: listed_def lqueue_frame)
  ultimately show "listed (q\<lparr>mq_heap := (mq_heap q)(a \<mapsto> m)\<rparr>) as"
    by (intro listed_transfer [OF assms(1), where P = "\<lambda>_. True"]) simp_all
qed

lemma queue_ok_fresh:
  "queue_ok q \<Longrightarrow> mq_heap q a = None \<Longrightarrow> queue_ok (q\<lparr>mq_heap := (mq_heap q)(a \<mapsto> m)\<rparr>)"
  unfolding queue_ok_def using listed_fresh(2) [of q _ a m] by (elim disjE exE) auto

section \<open>The queue operations keep it\<close>

lemma find_node_ok:
  assumes "queue_ok q"
  shows "post E (\<lambda>p. \<forall>a. p = Some a \<longrightarrow> (\<exists>n. mq_heap q a = Some n \<and> node_ok n)) (find_node u q)"
proof (cases "mq_head q")
  case None
  then show ?thesis using find_node_find [of q "[]" u] by simp
next
  case (Some h)
  with assms obtain as where as: "listed q as" by (auto simp: queue_ok_def)
  then have "find_node u q = ret (find (\<lambda>a. uid (the (mq_heap q a)) = u) as)"
    by (intro find_node_find) (auto simp: listed_def dest: lqueueD)
  moreover have "\<exists>n. mq_heap q a = Some n \<and> node_ok n" if "find P as = Some a" for P a
  proof -
    from that have "a \<in> set as" by (auto simp: find_Some_iff)
    with as listed_dom [OF as] show ?thesis by (fastforce simp: listed_def)
  qed
  ultimately show ?thesis by simp
qed

lemma mq_dequeue_ok:
  assumes "queue_ok q"
  shows "post (\<lambda>_. False) queue_ok (mq_dequeue u q)"
proof (cases "mq_head q")
  case None
  then show ?thesis by (simp add: mq_dequeue_def queue_ok_def)
next
  case (Some h)
  with assms obtain as where as: "listed q as" by (auto simp: queue_ok_def)
  then have q: "lqueue mq_next (mq_heap q) (mq_head q) (mq_tail q) as" by (simp add: listed_def)
  note d = chain_distinct [OF lqueueD [OF q]]
  show ?thesis
  proof (cases "find (\<lambda>x. uid (the (mq_heap q x)) = u) as")
    case None
    with mq_dequeue_absent [OF lqueueD [OF q], of u] assms show ?thesis by (auto simp: find_None_iff)
  next
    case (Some a)
    then obtain us vs where s: "as = us @ a # vs" "uid (the (mq_heap q a)) = u"
      "\<forall>x \<in> set us. uid (the (mq_heap q x)) \<noteq> u" by (rule find_SomeE)
    show ?thesis
    proof (cases us rule: rev_cases)
      case Nil
      then have q0: "lqueue mq_next (mq_heap q) (mq_head q) (mq_tail q) (a # vs)" using q s(1) by simp
      then obtain n where n: "mq_heap q a = Some n" by (auto simp: lqueue_def split: option.splits)
      let ?q = "q\<lparr>mq_heap := (mq_heap q)(a := None), mq_head := mq_next n\<rparr>"
      have "mq_dequeue u q = ret ?q" using mq_dequeue_head [OF lqueueD [OF q0] n] s(2) n by simp
      moreover have "queue_ok ?q"
      proof (cases "mq_next n")
        case (Some b)
        have "lqueue mq_next (mq_heap ?q) (mq_head ?q) (mq_tail ?q) vs"
          using lqueue_tl [OF q0 n, of None] Some by simp
        then have "listed ?q vs"
          using Nil s(1) d by (intro listed_transfer [OF as, where P = "\<lambda>x. x \<in> set vs"]) auto
        then show ?thesis by (auto simp: queue_ok_def)
      qed (simp add: queue_ok_def)
      ultimately show ?thesis by simp
    next
      case (snoc ws b)
      with mq_dequeue_behind [of q ws b a vs u] q s obtain q' where q': "mq_dequeue u q = ret q'"
        "lqueue mq_next (mq_heap q') (mq_head q') (mq_tail q') (ws @ b # vs)"
        "\<forall>x. x \<noteq> a \<longrightarrow> map_option strip (mq_heap q' x) = map_option strip (mq_heap q x)" by auto
      have f: "ws @ b # vs = filter (\<lambda>x. x \<noteq> a) as"
        proof -
        have "filter (\<lambda>x. x \<noteq> a) ws = ws" "filter (\<lambda>x. x \<noteq> a) vs = vs"
          using d unfolding s(1) snoc by (auto intro: filter_True)
        then show ?thesis using d unfolding s(1) snoc by auto
      qed
      then have "a \<notin> set (ws @ b # vs)" by simp
      then have "listed q' (ws @ b # vs)"
        using q'(3) by (intro listed_transfer [OF as q'(2) f]) (metis (no_types))
      with q'(1) show ?thesis by (auto simp: queue_ok_def)
    qed
  qed
qed

text \<open>Appending needs the tail; then the head is acknowledged, and the queue is in order again.\<close>

lemma send_p2p_ack_post: "E Exited \<Longrightarrow> (\<And>out. Q out) \<Longrightarrow> post E Q (send_p2p_ack env p b u)"
  by (auto simp: send_p2p_ack_def split: option.splits)

lemma check_and_ack_head_ok:
  assumes q: "lqueue mq_next (mq_heap q) (mq_head q) (mq_tail q) as" and n: "\<forall>a \<in> set as. node_ok (the (mq_heap q a))"
    and E: "E Exited"
  shows "post E (\<lambda>(out, q'). queue_ok q') (check_and_ack_head env q)"
proof -
  let ?k = "\<lambda>a. the (mq_heap q a)"
  have dom: "\<exists>n. mq_heap q a = Some n" if "a \<in> set as" for a using chain_dom [OF lqueueD [OF q] that] .
  then have "agrees ?k (mq_heap q) as" by (fastforce simp: agrees_def)
  from order_queue_lqueue [OF q this] obtain q1 where
    q1: "order_queue q = ret q1" "lqueue mq_next (mq_heap q1) (mq_head q1) (mq_tail q1) (osort ?k as)"
      "same_nodes (mq_heap q) (mq_heap q1)" by blast
  have s: "strip (the (mq_heap q1 x)) = strip (?k x)" if x: "x \<in> set (osort ?k as)" for x
  proof -
    obtain m m' where "mq_heap q x = Some m" "mq_heap q1 x = Some m'"
      using dom [of x] chain_dom [OF lqueueD [OF q1(2)] x] x by auto
    then show ?thesis using q1(3) unfolding same_nodes_def by (metis option.map(2) option.sel)
  qed
  have "ordered (\<lambda>a. the (mq_heap q1 a)) (osort ?k as)"
    using ordered_osort [of ?k as] unfolding ordered_def
    by (rule sorted_wrt_mono_rel [rotated]) (metis s before_strip)
  then have l: "listed q1 (osort ?k as)"
    using q1(2) n s strip_ok unfolding listed_def by (metis set_osort)
  show ?thesis
  proof (cases "mq_head q1")
    case None
    then show ?thesis using q1(1) by (simp add: check_and_ack_head_def queue_ok_def)
  next
    case (Some h)
    then have h: "h \<in> set (osort ?k as)" using q1(2) by (cases "osort ?k as") (auto simp: lqueue_def)
    then obtain m where m: "mq_heap q1 h = Some m" using listed_dom [OF l] by blast
    have "node_ok m" using l h m by (auto simp: listed_def)
    then have "queue_ok (q1\<lparr>mq_heap := (mq_heap q1)(h \<mapsto> m\<lparr>ack_flg := 1\<rparr>)\<rparr>)"
      using l m by (intro queue_ok_update [of q1 h m]) (auto simp: queue_ok_def node_ok_def)
    moreover have "queue_ok q1" using l by (auto simp: queue_ok_def)
    ultimately show ?thesis
      using q1(1) Some m E by (simp add: check_and_ack_head_def post_simps send_p2p_ack_post)
  qed
qed

text \<open>A new node goes to the end, unless \<open>tail\<close> is left from an emptied queue.\<close>

lemma enqueue_and_ack_ok:
  assumes q: "queue_ok q" and a: "mq_heap q a = None" and m: "node_ok m" "mq_next m = None"
    and E: "E Exited" "cut_off q \<Longrightarrow> E Dangling"
  defines "q0 \<equiv> q\<lparr>mq_heap := (mq_heap q)(a \<mapsto> m)\<rparr>"
  shows "post E (\<lambda>(out, q'). queue_ok q') (bindp (mq_enqueue (Some a) q0) (check_and_ack_head env))"
proof (cases "cut_off q")
  case True
  then obtain t where t: "mq_head q = None" "mq_tail q = Some t" by (auto simp: cut_off_def)
  show ?thesis
  proof (cases "mq_heap q0 t")
    case None
    with t E(2) True have "post E (\<lambda>_. False) (mq_enqueue (Some a) q0)" by (simp add: mq_enqueue_def q0_def)
    then show ?thesis by (simp add: post_bindp post_mono)
  next
    case (Some n)
    with t have "mq_enqueue (Some a) q0 =
        ret (q0\<lparr>mq_heap := (mq_heap q0)(t \<mapsto> n\<lparr>mq_next := Some a\<rparr>), mq_tail := Some a\<rparr>)"
      by (simp add: mq_enqueue_def q0_def)
    then show ?thesis using t(1) by (simp add: check_and_ack_null q0_def queue_ok_def)
  qed
next
  case False
  obtain as where l: "listed q as"
    using q False by (auto simp: queue_ok_def cut_off_def listed_def ordered_def lqueue_def intro: that [of "[]"])
  note f = listed_fresh(1) [OF l a] listed_fresh(2) [OF l a, of m, folded q0_def]
  have h: "mq_heap q0 a = Some m" by (simp add: q0_def)
  from mq_enqueue_snoc [of q0 as a m] f m(2) h obtain q1 where
    q1: "mq_enqueue (Some a) q0 = ret q1" "lqueue mq_next (mq_heap q1) (mq_head q1) (mq_tail q1) (as @ [a])"
      "same_nodes (mq_heap q0) (mq_heap q1)" by (auto simp: listed_def)
  have "node_ok (the (mq_heap q1 x))" if x: "x \<in> set (as @ [a])" for x
  proof -
    obtain k where k: "mq_heap q0 x = Some k" using x h listed_dom [OF f(2), of x] by auto
    moreover have "node_ok (the (mq_heap q0 x))" using x h m(1) f(2) by (auto simp: listed_def)
    ultimately have ok: "node_ok k" by simp
    obtain k' where k': "mq_heap q1 x = Some k'" using chain_dom [OF lqueueD [OF q1(2)] x] by blast
    have "map_option strip (mq_heap q1 x) = map_option strip (mq_heap q0 x)"
      using q1(3) unfolding same_nodes_def by blast
    then have "strip k' = strip k" unfolding k k' by (simp only: option.map option.inject)
    from strip_ok [OF this] show ?thesis using ok k' by simp
  qed
  then have "\<forall>x \<in> set (as @ [a]). node_ok (the (mq_heap q1 x))" by blast
  with q1(1) show ?thesis using check_and_ack_head_ok [where E = E, OF q1(2) _ E(1)] by simp
qed

section \<open>The handlers keep it\<close>

lemma recv_buffer_loop_post:
  assumes "E Blocked" "E Out_of_bounds" and "\<And>r. Q r"
  shows "post E Q (recv_buffer_loop len got bleft brecv buf as)"
proof (induction bleft arbitrary: got brecv buf as rule: less_induct)
  case (less bleft)
  show ?case
  proof (cases "got < len \<and> bleft > 0")
    case True
    have "post E Q (bindp (write_at buf brecv bs) (\<lambda>buf.
        recv_buffer_loop len (got + length bs) (bleft - length bs) (length bs) buf as'))" if "bs \<noteq> []" for bs as'
      unfolding post_bindp
      by (rule post_write_at) (use assms(2) less.IH [of "bleft - length bs"] True that in auto)
    then show ?thesis
      using True assms
      by (subst recv_buffer_loop.simps) (auto simp: post_bindp intro!: post_recv)
  next
    case False
    then show ?thesis using assms(3) by (subst recv_buffer_loop.simps) auto
  qed
qed

lemma recv_buffer_post:
  "E Blocked \<Longrightarrow> E Out_of_bounds \<Longrightarrow> (\<And>r. Q r) \<Longrightarrow> post E Q (recv_buffer buf len as)"
  by (simp add: recv_buffer_def post_bindp split_def recv_buffer_loop_post)

lemma send_buffer_loop_done: "send_buffer_loop buf len len b c cs out = ret (len, False, out)"
  by (subst send_buffer_loop.simps) simp

lemma send_buffer_loop_post:
  assumes "E Out_of_bounds"
  shows "sent + bleft = len \<Longrightarrow> post E (\<lambda>_. True) (send_buffer_loop buf len sent bleft bsent cs out)"
proof (induction cs arbitrary: sent bleft bsent out)
  case Nil
  then show ?case
    by (subst send_buffer_loop.simps)
      (auto simp: post_bindp send_buffer_loop_done intro!: post_slice assms)
next
  case (Cons c cs)
  have "post E (\<lambda>_. True) (case send (c # cs) data of (None, cs') \<Rightarrow> ret (sent, True, out)
      | (Some bs, cs') \<Rightarrow> send_buffer_loop buf len (sent + length bs) (bleft - length bs) (length bs) cs' (out @ bs))"
    if "length data = bleft" for data
  proof (cases c)
    case (Some k)
    have "post E (\<lambda>_. True) (send_buffer_loop buf len (sent + length (take k data)) (bleft - length (take k data))
        (length (take k data)) cs (out @ take k data))"
      by (rule Cons.IH) (use Cons.prems that in simp)
    with Some show ?thesis by simp
  qed simp
  then show ?case
    by (subst send_buffer_loop.simps) (auto simp: post_bindp intro!: post_slice assms)
qed

lemma send_buffer_post: "E Out_of_bounds \<Longrightarrow> (\<And>r. Q r) \<Longrightarrow> post E Q (send_buffer buf len cs)"
  unfolding send_buffer_def post_bindp
  by (rule post_mono [OF send_buffer_loop_post]) (simp_all add: split_def)

lemma broadcast_loop_post:
  "E Out_of_bounds \<Longrightarrow> (\<And>r. Q r) \<Longrightarrow> post E Q (broadcast_loop env buf len is out)"
  by (induction "is" arbitrary: len out) (auto simp: post_simps Let_def split_def intro!: send_buffer_post)

lemma encode_broadcast_buffer_post:
  "E Out_of_bounds \<Longrightarrow> (\<And>r. Q r) \<Longrightarrow> post E Q (encode_broadcast_buffer n mem ts)"
  by (auto simp: encode_broadcast_buffer_def post_bindp intro!: post_write_at post_slice)

lemma total_broadcast_post:
  "E Null_deref \<Longrightarrow> E Out_of_bounds \<Longrightarrow> (\<And>a. p = Some a \<Longrightarrow> mq_heap q a = None \<Longrightarrow> E Dangling) \<Longrightarrow> (\<And>r. Q r) \<Longrightarrow>
   post E Q (total_broadcast env p q ts)"
  by (auto simp: total_broadcast_def Let_def post_bindp split: option.split
      intro!: post_load encode_broadcast_buffer_post broadcast_loop_post)

lemma mq_create_node_post:
  assumes "E Out_of_bounds" and "\<And>m. mbuf (len + 1) = Some m \<Longrightarrow> len + 1 \<le> length m"
    and "Q (None, q)"
    and "\<And>a b. p = Some a \<Longrightarrow> length b = len + 1 \<Longrightarrow> Q (p, q\<lparr>mq_heap := (mq_heap q)(a \<mapsto>
      \<lparr>pid = i, port_num = pt, ack_flg = flg, ack_count = cnt, buffer = b, buf_len = len,
       lc = ts, uid = u, nprocs = np, mq_next = None\<rparr>)\<rparr>)"
  shows "post E Q (mq_create_node p mbuf i pt flg cnt buf len ts u np q)"
proof (cases p)
  case (Some a)
  show ?thesis
  proof (cases "mbuf (len + 1)")
    case (Some m)
    then have "length (take (len + 1) m) = len + 1" using assms(2) by simp
    then show ?thesis
      using Some \<open>p = Some a\<close> assms
      by (auto simp: mq_create_node_def post_bindp simp del: length_take intro!: post_slice post_write_at)
  qed (use Some assms(3) in \<open>simp add: mq_create_node_def\<close>)
qed (use assms(3) in \<open>simp add: mq_create_node_def\<close>)

text \<open>The process stays who it is, and its queue is kept.\<close>

definition same_id :: "tob_proc \<Rightarrow> tob_proc \<Rightarrow> bool" where
  "same_id s s' \<longleftrightarrow> self s' = self s \<and> port s' = port s \<and> nproc s' = nproc s \<and> shared s' = shared s"

lemma same_id_simps [simp]:
  "same_id s s" "same_id s (s'\<lparr>clock := c\<rparr>) = same_id s s'" "same_id s (s'\<lparr>mq := q\<rparr>) = same_id s s'"
  by (simp_all add: same_id_def)

abbreviation kept :: "tob_proc \<Rightarrow> tob_proc \<times> effect list \<Rightarrow> bool" where
  "kept s \<equiv> \<lambda>(s', out). queue_ok (mq s') \<and> same_id s s'"

lemma handle_ready_ok: "queue_ok (mq s) \<Longrightarrow> post (allowed s) (kept s) (handle_ready as s)"
  by (auto simp: handle_ready_def post_bindp split: option.split
      intro!: post_recv post_weaken [OF mq_dequeue_ok])

lemma write_shared_post: "E Out_of_bounds \<Longrightarrow> post E (\<lambda>_. True) (write_shared f b l)"
  by (auto simp: write_shared_def post_bindp intro: post_slice)

lemma count_ack_ok:
  assumes q: "queue_ok (mq s)" and a: "mq_heap (mq s) a = Some n" "node_ok n"
  shows "post (allowed s) (kept s) (count_ack env (Some a) s)"
proof -
  have k: "queue_ok ((mq s)\<lparr>mq_heap := (mq_heap (mq s))(a \<mapsto> ack_count_update g n)\<rparr>)"
    "length b = length (buffer n) \<Longrightarrow>
      queue_ok ((mq s)\<lparr>mq_heap := (mq_heap (mq s))(a \<mapsto> ack_count_update g n\<lparr>buffer := b\<rparr>)\<rparr>)" for b g
    using a by (auto simp: node_ok_def intro!: queue_ok_update [OF q a(1)])
  have "post (allowed s) (kept s) (bindp (write_shared f b l) (\<lambda>del. ret (s\<lparr>mq := q', clock := ts\<rparr>, out @ del)))"
    if "queue_ok q'" for f b l q' ts out
    using that unfolding post_bindp by (intro post_mono [OF write_shared_post]) simp_all
  then show ?thesis
    unfolding count_ack_def using a k
    by (auto simp: Let_def split_def post_bindp [of _ _ "write_at _ _ _"] intro!: post_write_at)
qed

lemma handle_ack_ok:
  assumes q: "queue_ok (mq s)"
  shows "post (allowed s) (kept s) (handle_ack env as s)"
  using q count_ack_ok [OF q]
  by (auto simp: handle_ack_def post_bindp split: option.split intro!: post_recv post_mono [OF find_node_ok])

text \<open>The buffers and the clock of \<open>handle_issue\<close> and \<open>handle_broadcast\<close> do not matter, their nodes do.\<close>

lemma handle_issue_ok:
  assumes q: "queue_ok (mq s)" and h: "honest env s"
  shows "post (allowed s) (kept s) (handle_issue env as s)"
proof -
  have node: "post (allowed s) (kept s)
      (bindp (mq_create_node (node_addr env) (node_mem env) i pt 0 0 buf len ts u np (mq s)) (\<lambda>(node, q).
       bindp (total_broadcast env node q c) (\<lambda>(_, out, c'). ret (s\<lparr>clock := c', mq := q\<rparr>, out))))"
    for i pt buf len ts u np c
    unfolding post_bindp
    by (rule mq_create_node_post)
      (use h q in \<open>auto simp: honest_def post_bindp intro!: total_broadcast_post queue_ok_fresh\<close>)
  show ?thesis
    unfolding handle_issue_def Let_def post_bindp
    using q node
    by (auto simp: post_bindp [of _ _ "recv_buffer _ _ _"] post_bindp [of _ _ "slice _ _ _"]
        post_bindp [of _ _ "write_at _ _ _"] post_bindp [of _ _ "if _ then _ else _"] split_def
        split: option.split intro!: post_recv recv_buffer_post post_slice post_write_at)
qed

lemma handle_broadcast_ok:
  assumes q: "queue_ok (mq s)" and h: "honest env s"
  shows "post (allowed s) (kept s) (handle_broadcast env as s)"
proof -
  have ack: "post (allowed s) (kept s) (bindp (mq_enqueue (Some a) ((mq s)\<lparr>mq_heap := (mq_heap (mq s))(a \<mapsto> m)\<rparr>)) (\<lambda>q.
      bindp (check_and_ack_head env q) (\<lambda>(out, q). ret (s'\<lparr>mq := q\<rparr>, out))))"
    if "node_addr env = Some a" "node_ok m" "mq_next m = None" "same_id s s'" for a m s'
  proof -
    have "mq_heap (mq s) a = None" using h that(1) by (simp add: honest_def)
    from enqueue_and_ack_ok [OF q this that(2,3), of "allowed s"] that(4) show ?thesis
      by (simp add: post_bindp split_def)
  qed
  have node: "post (allowed s) (kept s)
      (bindp (mq_create_node (node_addr env) (node_mem env) i pt 0 0 buf len ts u np (mq s)) (\<lambda>(new_node, q).
       if new_node = None then stop_with Null_deref
       else bindp (mq_enqueue new_node q) (\<lambda>q.
         bindp (check_and_ack_head env q) (\<lambda>(out, q). ret (s'\<lparr>mq := q\<rparr>, out)))))"
    if "same_id s s'" for i pt buf len ts u np s'
    unfolding post_bindp [of _ _ "mq_create_node _ _ _ _ _ _ _ _ _ _ _ _"]
    by (rule mq_create_node_post)
      (use h that in \<open>auto simp: honest_def node_ok_def intro!: ack\<close>)
  show ?thesis
    unfolding handle_broadcast_def Let_def
    using q node
    by (auto simp: post_bindp [of _ _ "recv_buffer _ _ _"] post_bindp [of _ _ "recv _ _"]
        post_bindp [of _ _ "write_at _ _ _"] split_def
        split: option.split intro!: post_recv recv_buffer_post post_slice post_write_at)
qed

lemma handler_keeps_queue:
  assumes "queue_ok (mq s)" and "honest env s"
  shows "post (allowed s) (kept s) (tob_handle_client env as s)"
proof -
  have r: "post (allowed s) (kept s) (bindp m reply)"
    if "post (allowed s) (kept s) m" for m
    using that unfolding post_bindp by (rule post_mono) (auto simp: reply_def)
  show ?thesis
    unfolding tob_handle_client_def Let_def reply_def [symmetric]
    using assms handle_issue_ok [OF assms] handle_broadcast_ok [OF assms] handle_ack_ok [OF assms(1)]
      handle_ready_ok [OF assms(1)]
    by (auto simp: post_bindp [of _ _ "recv _ _"] post_bindp [of _ _ "write_at _ _ _"]
        split: option.split intro!: post_recv post_write_at r)
qed

section \<open>Properties\<close>



end
