(* ===== verification/TobSystem.thy ===== *)
theory TobSystem
  imports TobInv NetSetup
begin

text \<open>
  The processes of the broadcast program together: \<open>main\<close> of \<open>server.c\<close> forks them, each sets up its
  socket and enters the accept loop of \<open>sock_serve\<close>, and they exchange messages over connections that can be accepted
  in any order. A step of the system is a client sending a request, or a process accepting and
  handling one connection.
\<close>

section \<open>Starting the processes\<close>

definition NUMPROC :: int where "NUMPROC = 2"

text \<open>The number of processes \<open>main\<close> starts (\<open>None\<close>: it prints an error and returns 1).\<close>

definition num_process :: "string list \<Rightarrow> int option" where
  "num_process argv =
     (if length argv > 2 then None
      else if length argv = 2 then (let n = atoi (argv ! 1) in if n < 0 then None else Some n)
      else Some NUMPROC)"

text \<open>What \<open>main\<close> writes to \<open>listening_ports.txt\<close>.\<close>

definition port_line :: "nat \<Rightarrow> string" where
  "port_line i = dec_int (BASEPORT + int i) @ [LF]"

definition ports_file :: "int \<Rightarrow> string" where
  "ports_file n = concat (map port_line [0..<nat n])"

text \<open>
  \<open>init_shared_file\<close> (\<open>None\<close>: it exits) and \<open>cleanup_shared_file\<close>; the variable \<open>shared_file\<close> is whether it
  points to an open file.
\<close>

definition init_shared_file :: "bool \<Rightarrow> bool option" where
  "init_shared_file ok = (if ok then Some True else None)"

definition cleanup_shared_file :: "bool \<Rightarrow> bool" where
  "cleanup_shared_file shared_file = (if shared_file then False else shared_file)"

text \<open>The state in which a child enters the accept loop.\<close>

definition fresh_proc :: "int \<Rightarrow> int \<Rightarrow> int \<Rightarrow> tob_proc" where
  "fresh_proc process_id p n =
     \<lparr>self = process_id, port = p, nproc = n, clock = 0, mq = mq_init, shared = True\<rparr>"

section \<open>The system\<close>

text \<open>
  A process that has stopped or waits for ever is \<open>None\<close>. \<open>net\<close> holds the connections that were
  opened and are not yet accepted, each with its port and the bytes sent over it; \<open>app_file\<close> is what the
  processes appended to the shared file.
\<close>

record tob_sys =
  procs :: "tob_proc option list"
  net :: "(int \<times> string) list"
  app_file :: "string list"

text \<open>All processes are there and have their sockets.\<close>

definition tob_start :: "int list \<Rightarrow> tob_sys" where
  "tob_start pids = \<lparr>procs = map (\<lambda>(i, p). Some (fresh_proc p (BASEPORT + int i) (int (length pids)))) (enumerate 0 pids),
     net = [], app_file = []\<rparr>"

text \<open>
  \<open>sock_serve\<close> up to the accept loop: the process, or \<open>None\<close> when it exits or never gets its socket.
  The array for the port has room for five digits.
\<close>

definition sock_serve :: "os \<Rightarrow> int \<Rightarrow> int \<Rightarrow> int \<Rightarrow> tob_proc option" where
  "sock_serve env process_id p n =
     (case tob_server_socket env (take 5 (dec_int p)) of
        Some (Inr (sock_fd, acts)) \<Rightarrow> Some (fresh_proc process_id p n)
      | _ \<Rightarrow> None)"

text \<open>
  The loop that forks the children \<open>i\<close>, \<open>i + 1\<close>, \<dots>, of which \<open>k\<close> are left: whether it comes to its end, and
  the children. \<open>forks i\<close> is the answer of \<open>fork\<close>, the process number of the child or -1;
  \<open>envs i\<close> what the system answers to the child.
\<close>

fun fork_loop :: "(nat \<Rightarrow> os) \<Rightarrow> (nat \<Rightarrow> int) \<Rightarrow> int \<Rightarrow> nat \<Rightarrow> nat \<Rightarrow> bool \<times> tob_proc option list" where
  "fork_loop envs forks n i 0 = (True, [])"
| "fork_loop envs forks n i (Suc k) =
     (if forks i = - 1 then (False, [])
      else let (ok, ps) = fork_loop envs forks n (Suc i) k
        in (ok, sock_serve (envs i) (forks i) (BASEPORT + int i) n # ps))"

text \<open>
  \<open>main\<close>: its exit status when it starts nothing, or the file of ports, whether it forked all its
  children, and the processes. When \<open>fork\<close> fails it exits, and the children it has go on.
\<close>

definition server_main ::
  "string list \<Rightarrow> bool \<Rightarrow> bool \<Rightarrow> (nat \<Rightarrow> os) \<Rightarrow> (nat \<Rightarrow> int) \<Rightarrow> int + string \<times> bool \<times> tob_sys" where
  "server_main argv ports_file_opens shared_file_opens envs forks =
     (case num_process argv of
        None \<Rightarrow> Inl 1
      | Some n \<Rightarrow>
          if \<not> ports_file_opens then Inl 1
          else if init_shared_file shared_file_opens = None then Inl 1
          else (let (ok, ps) = fork_loop envs forks n 0 (nat n)
            in Inr (ports_file n, ok, \<lparr>procs = ps, net = [], app_file = []\<rparr>)))"

text \<open>
  The end of \<open>main\<close>, with its exit status and \<open>shared_file\<close>: after a failed \<open>fork\<close> it has exited with 1;
  otherwise it waits for all children to exit, cleans up and returns 0 (\<open>None\<close>: it is waiting).
\<close>

definition main_status :: "bool \<Rightarrow> tob_sys \<Rightarrow> (int \<times> bool) option" where
  "main_status ok t =
     (if \<not> ok then Some (1, True)
      else if list_all (\<lambda>s. s = None) (procs t) then Some (0, cleanup_shared_file True) else None)"

fun sent_out :: "effect list \<Rightarrow> (int \<times> string) list" where
  "sent_out [] = []"
| "sent_out (Transmit p bs # es) = (p, bs) # sent_out es"
| "sent_out (_ # es) = sent_out es"

fun delivered :: "effect list \<Rightarrow> string list" where
  "delivered [] = []"
| "delivered (Deliver bs # es) = bs # delivered es"
| "delivered (_ # es) = delivered es"

text \<open>
  The bytes of a connection arrive in pieces of any size. A stop in the middle of a handler takes
  the process with it, and what it had sent until then is not recorded.
\<close>

inductive tob_step :: "tob_sys \<Rightarrow> tob_sys \<Rightarrow> bool" where
  request:
    "issue_message message frame = ret (Some bytes) \<Longrightarrow> i < length (procs t) \<Longrightarrow>
     tob_step t (t\<lparr>net := net t @ [(BASEPORT + int i, bytes)]\<rparr>)"
| serve:
    "net t = us @ (BASEPORT + int i, bytes) # vs \<Longrightarrow> i < length (procs t) \<Longrightarrow> procs t ! i = Some s \<Longrightarrow>
     stream as = bytes \<Longrightarrow> honest env s \<Longrightarrow> tob_handle_client env as s = ret (s', out) \<Longrightarrow>
     tob_step t (t\<lparr>procs := (procs t)[i := Some s'], net := us @ vs @ sent_out out, app_file := app_file t @ delivered out\<rparr>)"
| stop_proc:
    "net t = us @ (BASEPORT + int i, bytes) # vs \<Longrightarrow> i < length (procs t) \<Longrightarrow> procs t ! i = Some s \<Longrightarrow>
     stream as = bytes \<Longrightarrow> honest env s \<Longrightarrow> tob_handle_client env as s = stop_with e \<Longrightarrow>
     tob_step t (t\<lparr>procs := (procs t)[i := None], net := us @ vs\<rparr>)"

inductive tob_reach :: "tob_sys \<Rightarrow> tob_sys \<Rightarrow> bool" for t0 where
  start: "tob_reach t0 t0"
| step: "tob_reach t0 t \<Longrightarrow> tob_step t t' \<Longrightarrow> tob_reach t0 t'"

inductive_cases tob_stepE: "tob_step t t'"

section \<open>A network of processes with an invariant\<close>

text \<open>
  What the network asks of its processes: a handler that keeps an invariant of the process in place
  \<open>i\<close>, when the allocator keeps its promises. Replacing the state of one process by what its
  handler returns, or by nothing when it stopped, then keeps the invariant of all of them.
\<close>

definition all_procs :: "(nat \<Rightarrow> 's \<Rightarrow> bool) \<Rightarrow> 's option list \<Rightarrow> bool" where
  "all_procs safe ss \<longleftrightarrow> (\<forall>i s. i < length ss \<longrightarrow> ss ! i = Some s \<longrightarrow> safe i s)"

locale safe_process =
  fixes handle :: "'e \<Rightarrow> 'i \<Rightarrow> 's \<Rightarrow> ('s \<times> 'o) prog"
    and sound :: "'e \<Rightarrow> 's \<Rightarrow> bool"
    and safe :: "nat \<Rightarrow> 's \<Rightarrow> bool"
  assumes handle_inv: "safe i s \<Longrightarrow> sound e s \<Longrightarrow> handle e x s = ret (s', out) \<Longrightarrow> safe i s'"
begin

lemma network_serve:
  assumes "all_procs safe ss" and "i < length ss" "ss ! i = Some s" "sound e s" and "handle e x s = ret (s', out)"
  shows "all_procs safe (ss[i := Some s'])"
  using assms handle_inv by (auto simp: all_procs_def nth_list_update)

lemma network_stop: "all_procs safe ss \<Longrightarrow> all_procs safe (ss[i := None])"
  by (cases "i < length ss") (auto simp: all_procs_def nth_list_update split: if_splits)

end

definition proc_ok :: "int \<Rightarrow> (nat \<Rightarrow> int) \<Rightarrow> nat \<Rightarrow> tob_proc \<Rightarrow> bool" where
  "proc_ok n forks i s \<longleftrightarrow> queue_ok (mq s) \<and> self s = forks i \<and> port s = BASEPORT + int i \<and>
     nproc s = n \<and> shared s"

interpretation broadcast: safe_process tob_handle_client honest "proc_ok n forks" for n forks
proof
  fix i :: nat and s s' :: tob_proc and e x out
  assume p: "proc_ok n forks i s" and h: "honest e s" and r: "tob_handle_client e x s = ret (s', out)"
  have "queue_ok (mq s)" using p by (simp add: proc_ok_def)
  from postD(2) [OF handler_keeps_queue [OF this h] r] p show "proc_ok n forks i s'"
    by (auto simp: proc_ok_def same_id_def)
qed

lemma tob_step_length: "tob_step t t' \<Longrightarrow> length (procs t') = length (procs t)"
  by (erule tob_stepE) simp_all

lemma tob_reach_length: "tob_reach t0 t \<Longrightarrow> length (procs t) = length (procs t0)"
  by (induction rule: tob_reach.induct) (auto simp: tob_step_length)

lemma tob_step_ok: "tob_step t t' \<Longrightarrow> all_procs (proc_ok n forks) (procs t) \<Longrightarrow> all_procs (proc_ok n forks) (procs t')"
  by (erule tob_stepE) (auto intro: broadcast.network_serve broadcast.network_stop)

lemma tob_reach_ok:
  "tob_reach t0 t \<Longrightarrow> all_procs (proc_ok n forks) (procs t0) \<Longrightarrow> all_procs (proc_ok n forks) (procs t)"
  by (induction rule: tob_reach.induct) (auto intro: tob_step_ok)

section \<open>What \<open>main\<close> starts\<close>

lemma fresh_proc_ok: "proc_ok n forks i (fresh_proc (forks i) (BASEPORT + int i) n)"
  by (simp add: proc_ok_def fresh_proc_def queue_ok_def mq_init_def)

lemma sock_serve_cases: "sock_serve env process_id p n \<in> {None, Some (fresh_proc process_id p n)}"
  by (simp add: sock_serve_def split: option.splits sum.splits)

lemma fork_loop_facts:
  assumes "fork_loop envs forks n i k = (ok, ps)"
  shows "length ps \<le> k" "ok \<longleftrightarrow> length ps = k" "ok \<longleftrightarrow> (\<forall>j < k. forks (i + j) \<noteq> - 1)"
    "\<forall>j < length ps. ps ! j = sock_serve (envs (i + j)) (forks (i + j)) (BASEPORT + int (i + j)) n"
  using assms
proof -
  have "length ps \<le> k \<and> (ok \<longleftrightarrow> length ps = k) \<and> (ok \<longleftrightarrow> (\<forall>j < k. forks (i + j) \<noteq> - 1)) \<and>
    (\<forall>j < length ps. ps ! j = sock_serve (envs (i + j)) (forks (i + j)) (BASEPORT + int (i + j)) n)"
    using assms
  proof (induction k arbitrary: i ok ps)
    case (Suc k)
    obtain ok' ps' where r: "fork_loop envs forks n (Suc i) k = (ok', ps')" by fastforce
    have all: "(\<forall>j < Suc k. forks (i + j) \<noteq> - 1) \<longleftrightarrow> forks i \<noteq> - 1 \<and> (\<forall>j < k. forks (Suc i + j) \<noteq> - 1)"
      by (auto simp: less_Suc_eq_0_disj)
    show ?case
    proof (cases "forks i = - 1")
      case True
      with Suc.prems all show ?thesis by simp
    next
      case False
      with Suc.prems r have "ok = ok'" "ps = sock_serve (envs i) (forks i) (BASEPORT + int i) n # ps'" by simp_all
      with Suc.IH [OF r] False all show ?thesis by (auto simp: nth_Cons add.left_commute split: nat.split)
    qed
  qed simp
  then show "length ps \<le> k" "ok \<longleftrightarrow> length ps = k" "ok \<longleftrightarrow> (\<forall>j < k. forks (i + j) \<noteq> - 1)"
    "\<forall>j < length ps. ps ! j = sock_serve (envs (i + j)) (forks (i + j)) (BASEPORT + int (i + j)) n" by blast+
qed

lemma server_mainD:
  assumes "server_main argv o1 o2 envs forks = Inr (content, ok, t)"
  obtains n ps where "num_process argv = Some n" "content = ports_file n" "fork_loop envs forks n 0 (nat n) = (ok, ps)"
    "t = \<lparr>procs = ps, net = [], app_file = []\<rparr>"
  using assms by (auto simp: server_main_def init_shared_file_def Let_def split: option.splits if_splits prod.splits)

text \<open>When every \<open>fork\<close> succeeds and every child gets its socket, all processes are there.\<close>

lemma server_main_start:
  assumes "server_main argv o1 o2 envs forks = Inr (content, ok, t)" and "num_process argv = Some n"
    and "\<And>i. i < nat n \<Longrightarrow> forks i \<noteq> - 1"
    and "\<And>i. i < nat n \<Longrightarrow> \<exists>fd acts. tob_server_socket (envs i) (take 5 (dec_int (BASEPORT + int i))) = ret (fd, acts)"
  shows "ok \<and> t = tob_start (map forks [0..<nat n])"
proof -
  obtain ps where f: "fork_loop envs forks n 0 (nat n) = (ok, ps)" and t: "t = \<lparr>procs = ps, net = [], app_file = []\<rparr>"
    using assms(2) by (auto intro: server_mainD [OF assms(1)])
  note ff = fork_loop_facts [OF f, unfolded add_0]
  have "0 \<le> n"
    using assms(2) by (auto simp: num_process_def NUMPROC_def Let_def split: if_splits)
  have ok: "ok" using ff(3) assms(3) by simp
  then have l: "length ps = nat n" using ff(2) by simp
  have "ps = procs (tob_start (map forks [0..<nat n]))"
  proof (rule nth_equalityI)
    fix i assume "i < length ps"
    then have i: "i < nat n" using l by simp
    from assms(4) [OF i] obtain fd acts where
      "tob_server_socket (envs i) (take 5 (dec_int (BASEPORT + int i))) = ret (fd, acts)" by blast
    then show "ps ! i = procs (tob_start (map forks [0..<nat n])) ! i"
      using ff(4) i l \<open>0 \<le> n\<close> by (simp add: tob_start_def sock_serve_def nth_enumerate_eq)
  qed (simp add: tob_start_def l)
  with ok t show ?thesis by (simp add: tob_start_def)
qed

section \<open>Properties\<close>

text \<open>
  C6: in every state that the processes reach after \<open>main\<close> has started them, whichever of them could be
  forked and got their sockets, whatever requests come, in whatever order connections are
  accepted and however their bytes are cut, every process that runs has its own number, its own port
  and the number of all processes, and its queue is a list in timestamp order, or empty. \<open>main\<close> goes
  on exactly when no \<open>fork\<close> failed, and then it has as many children as were asked for.
\<close>

theorem system_in_order:
  assumes "server_main argv o1 o2 envs forks = Inr (content, ok, t0)" and "tob_reach t0 t"
  shows "\<exists>n. num_process argv = Some n \<and> all_procs (proc_ok n forks) (procs t) \<and>
    length (procs t) \<le> nat n \<and> (ok \<longleftrightarrow> length (procs t) = nat n) \<and> (ok \<longleftrightarrow> (\<forall>i < nat n. forks i \<noteq> - 1))"
proof -
  obtain n ps where n: "num_process argv = Some n" "fork_loop envs forks n 0 (nat n) = (ok, ps)"
    "t0 = \<lparr>procs = ps, net = [], app_file = []\<rparr>"
    by (rule server_mainD [OF assms(1)]) (rule that)
  note ff = fork_loop_facts [OF n(2), unfolded add_0]
  have "all_procs (proc_ok n forks) (procs t0)"
    unfolding all_procs_def
  proof (intro allI impI)
    fix i s assume i: "i < length (procs t0)" "procs t0 ! i = Some s"
    then have "sock_serve (envs i) (forks i) (BASEPORT + int i) n = Some s" using ff(4) by (simp add: n(3))
    with sock_serve_cases [of "envs i" "forks i" "BASEPORT + int i" n] have "s = fresh_proc (forks i) (BASEPORT + int i) n"
      by auto
    then show "proc_ok n forks i s" by (simp add: fresh_proc_ok)
  qed
  from tob_reach_ok [OF assms(2) this] tob_reach_length [OF assms(2)] n(1,3) ff(1-3) show ?thesis by simp
qed

theorem system_in_order_witness:
  "\<exists>t0. server_main [''server''] True True (\<lambda>i. sample_os) (\<lambda>i. if i = 0 then 17 else - 1) = Inr (ports_file 2, False, t0) \<and>
    length (procs t0) = 1 \<and> all_procs (proc_ok 2 (\<lambda>i. if i = 0 then 17 else - 1)) (procs t0)"
proof -
  let ?f = "\<lambda>i::nat. if i = 0 then 17 else - 1 :: int"
  let ?t = "\<lparr>procs = [sock_serve sample_os 17 10000 2], net = [], app_file = []\<rparr>"
  have s: "server_main [''server''] True True (\<lambda>i. sample_os) ?f = Inr (ports_file 2, False, ?t)"
    by (simp add: server_main_def init_shared_file_def num_process_def NUMPROC_def eval_nat_numeral BASEPORT_def)
  from system_in_order [OF s tob_reach.start] show ?thesis
    by (intro exI [of _ ?t]) (simp add: s num_process_def NUMPROC_def)
qed

end
