(* ===== verification/TobRun.thy ===== *)
theory TobRun
  imports TobSystem
begin

text \<open>
  Two messages through a system of one process, from the requests of the clients to the shared
  file: the first is delivered, the second stays in the queue for ever.
\<close>

section \<open>One process serves the connection that came first\<close>

abbreviation single :: "tob_proc \<Rightarrow> (int \<times> string) list \<Rightarrow> string list \<Rightarrow> tob_sys" where
  "single s cs f \<equiv> \<lparr>procs = [Some s], net = cs, app_file = f\<rparr>"

lemma single_start: "tob_reach (tob_start [p]) (single (fresh_proc p BASEPORT 1) [] [])"
  using tob_reach.start [of "tob_start [p]"] by (simp add: tob_start_def)

lemma single_request:
  assumes "tob_reach (tob_start [p]) (single s cs f)" and "issue_message message frame = ret (Some bytes)"
  shows "tob_reach (tob_start [p]) (single s (cs @ [(BASEPORT, bytes)]) f)"
  using tob_reach.step [OF assms(1) tob_step.request [OF assms(2), of 0]] by simp

lemma single_serve:
  assumes "tob_reach (tob_start [p]) (single s ((BASEPORT, bytes) # cs) f)" and "honest env s"
    and "tob_handle_client env [Bytes bytes] s = ret (s', out)"
  shows "tob_reach (tob_start [p]) (single s' (cs @ sent_out out) (f @ delivered out))"
  using tob_reach.step [OF assms(1) tob_step.serve [of _ "[]" 0 bytes cs s "[Bytes bytes]" env s' out]] assms(2,3)
  by simp

lemma sample_honest:
  assumes "mq_heap (mq s) x = None"
  shows "honest (sample_tob_env (Some x)) s"
  using assms by (simp add: honest_def sample_tob_env_def)

lemma sample_honest_none: "honest (sample_tob_env None) s"
  by (simp add: honest_def sample_tob_env_def)

lemma sent_out_append [simp]: "sent_out (xs @ ys) = sent_out xs @ sent_out ys"
  by (induction xs rule: sent_out.induct) simp_all

lemma delivered_append [simp]: "delivered (xs @ ys) = delivered xs @ delivered ys"
  by (induction xs rule: delivered.induct) simp_all

text \<open>A message that gets through: long enough, without a terminator or a line end at its end.\<close>

definition proper :: "string \<Rightarrow> bool" where
  "proper msg \<longleftrightarrow> 5 \<le> length msg \<and> length msg < 10 ^ 6 - 1 \<and> last msg \<noteq> NUL \<and> last msg \<noteq> LF"

lemma single_issue:
  assumes r: "tob_reach (tob_start [p]) (single s ((BASEPORT, issue_frame msg) # cs) f)"
    and m: "proper msg" and s: "0 \<le> self s" "self s < 10 ^ 8" "port s = BASEPORT" "nproc s = 1"
    "unat (clock s + 2) < 10 ^ 4" and x: "mq_heap (mq s) x = None"
  shows "\<exists>c. tob_reach (tob_start [p]) (single
      (s\<lparr>clock := clock s + 2, mq := (mq s)\<lparr>mq_heap := (mq_heap (mq s))(x \<mapsto> issued s msg c)\<rparr>\<rparr>)
      (cs @ [(BASEPORT, bcast_sent (issued s msg c) (clock s + 2))]) f)"
proof -
  have "msg \<noteq> []" "last msg \<noteq> NUL" "length msg < 10 ^ 6 - 1" "0 \<le> port s" "port s < 10 ^ 8"
    using m s(3) by (auto simp: proper_def BASEPORT_def)
  from handle_issue_frame [OF sample_tob_env_calm this(1-3) s(1,2) this(4,5) s(5), of x] obtain c where
    "handle_issue (sample_tob_env (Some x)) [Bytes (drop 7 (issue_frame msg))] s =
      ret (s\<lparr>clock := clock s + 2, mq := (mq s)\<lparr>mq_heap := (mq_heap (mq s))(x \<mapsto> issued s msg c)\<rparr>\<rparr>,
        map (\<lambda>i. Transmit (BASEPORT + int i) (bcast_sent (issued s msg c) (clock s + 2))) [0..<nat (nproc s)])" by blast
  then have "tob_handle_client (sample_tob_env (Some x)) [Bytes (issue_frame msg)] s =
      ret (s\<lparr>clock := clock s + 2, mq := (mq s)\<lparr>mq_heap := (mq_heap (mq s))(x \<mapsto> issued s msg c)\<rparr>\<rparr>,
        [Transmit BASEPORT (bcast_sent (issued s msg c) (clock s + 2)), Reply (''ACK'' @ CRLF)])"
    by (simp add: connection(1) [OF sample_tob_env_calm(1)] s(4))
  from single_serve [OF r sample_honest [OF x] this] show ?thesis by auto
qed

text \<open>Receiving a broadcast, with the nodes seen up to their links.\<close>

definition node_at :: "tob_proc \<Rightarrow> addr \<Rightarrow> msg_node option" where
  "node_at s a = map_option strip (mq_heap (mq s) a)"

abbreviation queue_is :: "tob_proc \<Rightarrow> addr list \<Rightarrow> bool" where
  "queue_is s as \<equiv> lqueue mq_next (mq_heap (mq s)) (mq_head (mq s)) (mq_tail (mq s)) as"

lemma strip_sel:
  "ack_flg (strip n) = ack_flg n" "ack_count (strip n) = ack_count n" "buffer (strip n) = buffer n"
  "buf_len (strip n) = buf_len n" "lc (strip n) = lc n" "uid (strip n) = uid n" "nprocs (strip n) = nprocs n"
  by (simp_all add: strip_def)

lemma node_at_None [simp]: "node_at s a = None \<longleftrightarrow> mq_heap (mq s) a = None"
  by (simp add: node_at_def)

lemma node_atD: "node_at s a = Some m \<Longrightarrow> \<exists>n. mq_heap (mq s) a = Some n \<and> strip n = m"
  by (auto simp: node_at_def)

lemma single_broadcast:
  assumes r: "tob_reach (tob_start [p]) (single s ((BASEPORT, bcast_sent n ts) # cs) f)"
    and n: "bcast_fits n ts" "6 \<le> buf_len n" and q: "queue_is s as" and a: "mq_heap (mq s) a = None"
  obtains junk q' bs where "length junk = 6"
    "let s' = s\<lparr>clock := adjusted ts (clock s), mq := q'\<rparr>;
       k = (\<lambda>x. if x = a then received n ts (nproc s) junk else the (mq_heap (mq s) x)); m = k (hd bs) in
     tob_reach (tob_start [p]) (single s' (cs @ (if ack_flg m = 0 then [(port_num m, ack_message (pid m) (uid m))] else [])) f) \<and>
     queue_is s' bs \<and> set bs = insert a (set as) \<and> length bs = length as + 1 \<and> ordered k bs \<and>
     node_at s' (hd bs) = Some (strip m\<lparr>ack_flg := if ack_flg m = 0 then 1 else ack_flg m\<rparr>) \<and>
     (\<forall>x. x \<noteq> hd bs \<longrightarrow> node_at s' x = (if x = a then Some (strip (k a)) else node_at s x))"
proof -
  from handle_broadcast_queue [OF sample_tob_env_calm n q a] obtain junk s' bs where j: "length junk = 6" and
    b: "let k = (\<lambda>x. if x = a then received n ts (nproc s) junk else the (mq_heap (mq s) x)); h = hd bs in
     handle_broadcast (sample_tob_env (Some a)) [Bytes (drop 7 (bcast_sent n ts))] s =
       ret (s', if ack_flg (k h) = 0 then [Transmit (port_num (k h)) (ack_message (pid (k h)) (uid (k h)))] else []) \<and>
     queue_is s' bs \<and> set bs = insert a (set as) \<and> length bs = length as + 1 \<and> ordered k bs \<and>
     s' = s\<lparr>clock := adjusted ts (clock s), mq := mq s'\<rparr> \<and>
     map_option strip (mq_heap (mq s') h) = Some (strip (k h)\<lparr>ack_flg := if ack_flg (k h) = 0 then 1 else ack_flg (k h)\<rparr>) \<and>
     (\<forall>x. x \<noteq> h \<longrightarrow> map_option strip (mq_heap (mq s') x) =
        map_option strip (((mq_heap (mq s))(a \<mapsto> received n ts (nproc s) junk)) x))" by (elim exE conjE)
  define k where "k = (\<lambda>x. if x = a then received n ts (nproc s) junk else the (mq_heap (mq s) x))"
  define m where "m = k (hd bs)"
  note b = b [folded k_def, unfolded Let_def, folded m_def]
  have s': "s' = s\<lparr>clock := adjusted ts (clock s), mq := mq s'\<rparr>" using b by blast
  have "tob_handle_client (sample_tob_env (Some a)) [Bytes (bcast_sent n ts)] s =
      ret (s', (if ack_flg m = 0 then [Transmit (port_num m) (ack_message (pid m) (uid m))] else []) @
        [Reply (''ACK'' @ CRLF)])"
    unfolding connection(2) [OF sample_tob_env_calm(1) n(1)] b [THEN conjunct1] by simp
  from single_serve [OF r sample_honest [OF a] this] have
    "tob_reach (tob_start [p]) (single s' (cs @ (if ack_flg m = 0 then [(port_num m, ack_message (pid m) (uid m))] else [])) f)"
    by (simp split: if_splits)
  moreover have "\<forall>x. x \<noteq> hd bs \<longrightarrow> node_at s' x = (if x = a then Some (strip (k a)) else node_at s x)"
    using b unfolding node_at_def by (simp add: k_def)
  moreover have "node_at s' (hd bs) = Some (strip m\<lparr>ack_flg := if ack_flg m = 0 then 1 else ack_flg m\<rparr>)"
    using b unfolding node_at_def by blast
  ultimately show thesis
    using that [OF j, of "mq s'" bs] b
    unfolding Let_def k_def [symmetric] m_def [symmetric] s' [symmetric] by blast
qed

lemma single_last_ack:
  assumes r: "tob_reach (tob_start [p]) (single s ((BASEPORT, ack_message i u) # cs) f)" and i: "0 \<le> i" "i < 2 ^ 31"
    and q: "queue_is s as" and u: "find (\<lambda>a. uid (the (mq_heap (mq s) a)) = u) as = Some a"
    and n: "mq_heap (mq s) a = Some n" "length (buffer n) = buf_len n + 1" "ack_count n = 0" "nprocs n = 1" and sh: "shared s"
  obtains s' n' where
    "tob_reach (tob_start [p]) (single s' (cs @ [(BASEPORT, ready_message u)]) (f @ [take (buf_len n) (buffer n)]))"
    "queue_is s' as" "mq_heap (mq s') a = Some n'" "uid n' = uid n" "\<And>x. x \<noteq> a \<Longrightarrow> mq_heap (mq s') x = mq_heap (mq s) x"
proof -
  have out: "(if ack_count n + 1 = nprocs n then map (\<lambda>i. Transmit (BASEPORT + int i) (ready_message u)) [0..<nat (nprocs n)] @
      [Deliver (take (buf_len n) (buffer n))] else []) =
    [Transmit BASEPORT (ready_message u), Deliver (take (buf_len n) (buffer n))]"
    by (simp add: n(3,4))
  from handle_ack_counts [OF sample_tob_env_calm(1) i q u n(1,2) sh, of None] obtain s' where
    h: "handle_ack (sample_tob_env None) [Bytes (drop 7 (ack_message i u))] s =
      ret (s', [Transmit BASEPORT (ready_message u), Deliver (take (buf_len n) (buffer n))])" "queue_is s' as"
    "\<exists>n'. mq_heap (mq s') a = Some n' \<and> ack_count n' = ack_count n + 1 \<and> ack_flg n' = ack_flg n \<and> uid n' = uid n"
    "\<forall>x. x \<noteq> a \<longrightarrow> mq_heap (mq s') x = mq_heap (mq s) x" unfolding out by blast
  from h(1) have "tob_handle_client (sample_tob_env None) [Bytes (ack_message i u)] s =
      ret (s', [Transmit BASEPORT (ready_message u), Deliver (take (buf_len n) (buffer n)), Reply (''ACK'' @ CRLF)])"
    by (simp add: connection(3) [OF sample_tob_env_calm(1) i])
  from single_serve [OF r sample_honest_none this] h(2-4) that show thesis by auto
qed

lemma single_ready:
  assumes r: "tob_reach (tob_start [p]) (single s ((BASEPORT, ready_message u) # cs) f)"
    and q: "queue_is s (a # b # as)" and n: "mq_heap (mq s) a = Some n" "uid n = u"
  obtains s' where "tob_reach (tob_start [p]) (single s' cs f)" "queue_is s' (b # as)" "mq_heap (mq s') b = mq_heap (mq s) b"
proof -
  let ?s = "s\<lparr>mq := (mq s)\<lparr>mq_heap := (mq_heap (mq s))(a := None), mq_head := mq_next n\<rparr>\<rparr>"
  have "tob_handle_client (sample_tob_env None) [Bytes (ready_message u)] s = ret (?s, [Reply (''ACK'' @ CRLF)])"
    using mq_dequeue_head [OF lqueueD [OF q] n]
    by (simp add: connection(4) [OF sample_tob_env_calm(1)] handle_ready_dequeues)
  from single_serve [OF r sample_honest_none this] have t: "tob_reach (tob_start [p]) (single ?s cs f)" by simp
  have nx: "mq_next n = Some b" "a \<noteq> b"
    using q n(1) chain_distinct [OF lqueueD [OF q]] by (auto simp: lqueue_def split: option.splits)
  then have "queue_is ?s (b # as)" "mq_heap (mq ?s) b = mq_heap (mq s) b"
    using lqueue_tl [OF q n(1), of None] by simp_all
  with t show thesis by (rule that)
qed

section \<open>Two messages\<close>

text \<open>What is left of a message when it arrives, but for the junk behind it.\<close>

definition cut_short :: "string \<Rightarrow> string" where
  "cut_short msg = take (length msg - 4) msg"

lemma issued_facts:
  assumes "proper msg" and "0 \<le> self s" "self s < 10 ^ 8" "port s = BASEPORT" "unat ts < 10 ^ 4"
  shows "bcast_fits (issued s msg c) ts" "6 \<le> buf_len (issued s msg c)"
    "received (issued s msg c) ts np junk =
      \<lparr>pid = self s, port_num = BASEPORT, ack_flg = 0, ack_count = 0, buffer = cut_short msg @ junk,
       buf_len = length msg + 1, lc = ts, uid = generate_uid (word_of_int (self s)) (clock s + 1), nprocs = np, mq_next = None\<rparr>"
  using assms by (auto simp: proper_def bcast_fits_def issued_def received_def cut_short_def BASEPORT_def)

lemma two_elements: "length xs = 2 \<Longrightarrow> set xs = {a, b} \<Longrightarrow> xs = [a, b] \<or> xs = [b, a]"
proof -
  assume "length xs = 2" "set xs = {a, b}"
  then obtain x y where "xs = [x, y]" by (cases xs; cases "tl xs") auto
  with \<open>set xs = {a, b}\<close> show ?thesis by (auto simp: doubleton_eq_iff)
qed

text \<open>The two broadcasts are in the queue, the first one acknowledged.\<close>

lemma two_in_queue:
  assumes p: "0 \<le> p" "p < 10 ^ 8" and m: "proper m1" "proper m2"
    and r: "issue_message d1 f1 = ret (Some (issue_frame m1))" "issue_message d2 f2 = ret (Some (issue_frame m2))"
  obtains s n1 n2 junk1 junk2 where "length junk1 = 6" "length junk2 = 6" "shared s"
    "tob_reach (tob_start [p]) (single s [(BASEPORT, ack_message p (generate_uid (word_of_int p) 1))] [])" "queue_is s [11, 12]"
    "mq_heap (mq s) 11 = Some n1" "mq_heap (mq s) 12 = Some n2"
    "strip n1 = \<lparr>pid = p, port_num = BASEPORT, ack_flg = 1, ack_count = 0, buffer = cut_short m1 @ junk1,
       buf_len = length m1 + 1, lc = 2, uid = generate_uid (word_of_int p) 1, nprocs = 1, mq_next = None\<rparr>"
    "strip n2 = \<lparr>pid = p, port_num = BASEPORT, ack_flg = 0, ack_count = 0, buffer = cut_short m2 @ junk2,
       buf_len = length m2 + 1, lc = 4, uid = generate_uid (word_of_int p) 3, nprocs = 1, mq_next = None\<rparr>"
proof -
  define s0 where "s0 = fresh_proc p BASEPORT 1"
  have s0: "self s0 = p" "port s0 = BASEPORT" "nproc s0 = 1" "clock s0 = 0" "mq s0 = mq_init" "shared s0"
    by (simp_all add: s0_def fresh_proc_def)
  have "tob_reach (tob_start [p]) (single s0 ((BASEPORT, issue_frame m1) # [(BASEPORT, issue_frame m2)]) [])"
    using single_request [OF single_request [OF single_start r(1)] r(2)] by (simp add: s0_def)
  from single_issue [OF this m(1), of 21] p s0 obtain c1 where
    t1: "tob_reach (tob_start [p]) (single (s0\<lparr>clock := 2, mq := mq_init\<lparr>mq_heap := [21 \<mapsto> issued s0 m1 c1]\<rparr>\<rparr>)
       ((BASEPORT, issue_frame m2) # [(BASEPORT, bcast_sent (issued s0 m1 c1) 2)]) [])"
    by (auto simp: mq_init_def)
  define s1 where "s1 = s0\<lparr>clock := 2, mq := mq_init\<lparr>mq_heap := [21 \<mapsto> issued s0 m1 c1]\<rparr>\<rparr>"
  have s1: "self s1 = p" "port s1 = BASEPORT" "nproc s1 = 1" "clock s1 = 2" "shared s1"
    "mq_heap (mq s1) = [21 \<mapsto> issued s0 m1 c1]" "mq_head (mq s1) = None" "mq_tail (mq s1) = None"
    by (simp_all add: s1_def s0 mq_init_def)
  from single_issue [OF t1 [folded s1_def] m(2), of 22] p s1 obtain c2 where
    t2: "tob_reach (tob_start [p]) (single (s1\<lparr>clock := 4, mq := (mq s1)\<lparr>mq_heap := (mq_heap (mq s1))(22 \<mapsto> issued s1 m2 c2)\<rparr>\<rparr>)
       ((BASEPORT, bcast_sent (issued s0 m1 c1) 2) # [(BASEPORT, bcast_sent (issued s1 m2 c2) 4)]) [])"
    by auto
  define s2 where "s2 = s1\<lparr>clock := 4, mq := (mq s1)\<lparr>mq_heap := (mq_heap (mq s1))(22 \<mapsto> issued s1 m2 c2)\<rparr>\<rparr>"
  have s2: "nproc s2 = 1" "clock s2 = 4" "shared s2" "queue_is s2 []" "mq_heap (mq s2) 11 = None" "mq_heap (mq s2) 12 = None"
    by (simp_all add: s2_def s1)
  have fits: "bcast_fits (issued s0 m1 c1) 2" "6 \<le> buf_len (issued s0 m1 c1)"
    "bcast_fits (issued s1 m2 c2) 4" "6 \<le> buf_len (issued s1 m2 c2)"
    using issued_facts(1,2) [OF m(1), of s0 2 c1] issued_facts(1,2) [OF m(2), of s1 4 c2] p s0 s1 by simp_all
  have rec: "received (issued s0 m1 c1) 2 np j = \<lparr>pid = p, port_num = BASEPORT, ack_flg = 0, ack_count = 0, buffer = cut_short m1 @ j,
       buf_len = length m1 + 1, lc = 2, uid = generate_uid (word_of_int p) 1, nprocs = np, mq_next = None\<rparr>"
    "received (issued s1 m2 c2) 4 np j = \<lparr>pid = p, port_num = BASEPORT, ack_flg = 0, ack_count = 0, buffer = cut_short m2 @ j,
       buf_len = length m2 + 1, lc = 4, uid = generate_uid (word_of_int p) 3, nprocs = np, mq_next = None\<rparr>" for np j
    using issued_facts(3) [OF m(1), of s0 2 c1] issued_facts(3) [OF m(2), of s1 4 c2] p s0 s1 by simp_all
  obtain j1 q3 bs3 where j1: "length j1 = 6" and t3:
    "let s' = s2\<lparr>clock := adjusted 2 (clock s2), mq := q3\<rparr>;
       k = (\<lambda>x. if x = 11 then received (issued s0 m1 c1) 2 (nproc s2) j1 else the (mq_heap (mq s2) x)); m = k (hd bs3) in
     tob_reach (tob_start [p]) (single s' ([(BASEPORT, bcast_sent (issued s1 m2 c2) 4)] @
       (if ack_flg m = 0 then [(port_num m, ack_message (pid m) (uid m))] else [])) []) \<and>
     queue_is s' bs3 \<and> set bs3 = insert 11 (set []) \<and> length bs3 = length ([] :: addr list) + 1 \<and> ordered k bs3 \<and>
     node_at s' (hd bs3) = Some (strip m\<lparr>ack_flg := if ack_flg m = 0 then 1 else ack_flg m\<rparr>) \<and>
     (\<forall>x. x \<noteq> hd bs3 \<longrightarrow> node_at s' x = (if x = 11 then Some (strip (k 11)) else node_at s2 x))"
    by (rule single_broadcast [OF t2 [folded s2_def] fits(1,2) s2(4,5)]) (rule that)
  have bs3: "bs3 = [11]" using t3 unfolding Let_def by (cases bs3) auto
  define s3 where "s3 = s2\<lparr>clock := 5, mq := q3\<rparr>"
  have s3: "nproc s3 = 1" "shared s3" "queue_is s3 [11]" "node_at s3 12 = None"
      "tob_reach (tob_start [p]) (single s3 [(BASEPORT, bcast_sent (issued s1 m2 c2) 4), (BASEPORT, ack_message p (generate_uid (word_of_int p) 1))] [])"
      "node_at s3 11 = Some \<lparr>pid = p, port_num = BASEPORT, ack_flg = 1, ack_count = 0, buffer = cut_short m1 @ j1,
       buf_len = length m1 + 1, lc = 2, uid = generate_uid (word_of_int p) 1, nprocs = 1, mq_next = None\<rparr>"
    using t3 unfolding bs3 Let_def s3_def by (simp_all add: adjusted_def s2 rec strip_def node_at_def)
  obtain k1 where k1: "mq_heap (mq s3) 11 = Some k1"
    "strip k1 = \<lparr>pid = p, port_num = BASEPORT, ack_flg = 1, ack_count = 0, buffer = cut_short m1 @ j1,
       buf_len = length m1 + 1, lc = 2, uid = generate_uid (word_of_int p) 1, nprocs = 1, mq_next = None\<rparr>"
    using node_atD [OF s3(6)] by blast
  have f1: "ack_flg k1 = 1" "lc k1 = 2" using k1(2) [THEN arg_cong, of ack_flg] k1(2) [THEN arg_cong, of lc] by (simp_all add: strip_sel)
  have "mq_heap (mq s3) 12 = None" using s3(4) by simp
  obtain j2 q4 bs4 where j2: "length j2 = 6" and t4:
    "let s' = s3\<lparr>clock := adjusted 4 (clock s3), mq := q4\<rparr>;
       k = (\<lambda>x. if x = 12 then received (issued s1 m2 c2) 4 (nproc s3) j2 else the (mq_heap (mq s3) x)); m = k (hd bs4) in
     tob_reach (tob_start [p]) (single s' ([(BASEPORT, ack_message p (generate_uid (word_of_int p) 1))] @
       (if ack_flg m = 0 then [(port_num m, ack_message (pid m) (uid m))] else [])) []) \<and>
     queue_is s' bs4 \<and> set bs4 = insert 12 (set [11]) \<and> length bs4 = length [11 :: addr] + 1 \<and> ordered k bs4 \<and>
     node_at s' (hd bs4) = Some (strip m\<lparr>ack_flg := if ack_flg m = 0 then 1 else ack_flg m\<rparr>) \<and>
     (\<forall>x. x \<noteq> hd bs4 \<longrightarrow> node_at s' x = (if x = 12 then Some (strip (k 12)) else node_at s3 x))"
    by (rule single_broadcast [OF s3(5) fits(3,4) s3(3) \<open>mq_heap (mq s3) 12 = None\<close>]) (rule that)
  have bs4: "bs4 = [11, 12]"
  proof -
    have "length bs4 = length [11 :: addr] + 1" "set bs4 = insert 12 (set [11])" using t4 unfolding Let_def by blast+
    then have "bs4 = [12, 11] \<or> bs4 = [11, 12]" by (intro two_elements) simp_all
    moreover have "ordered (\<lambda>x. if x = 12 then received (issued s1 m2 c2) 4 (nproc s3) j2 else the (mq_heap (mq s3) x)) bs4"
      using t4 unfolding Let_def by blast
    ultimately show ?thesis by (auto simp: ordered_def before_def rec k1(1) f1)
  qed
  define s4 where "s4 = s3\<lparr>clock := adjusted 4 (clock s3), mq := q4\<rparr>"
  have s4: "tob_reach (tob_start [p]) (single s4 [(BASEPORT, ack_message p (generate_uid (word_of_int p) 1))] [])"
    "queue_is s4 [11, 12]" "shared s4" "node_at s4 11 = Some (strip k1)"
    "node_at s4 12 = Some \<lparr>pid = p, port_num = BASEPORT, ack_flg = 0, ack_count = 0, buffer = cut_short m2 @ j2,
       buf_len = length m2 + 1, lc = 4, uid = generate_uid (word_of_int p) 3, nprocs = 1, mq_next = None\<rparr>"
    using t4 k1 unfolding bs4 Let_def s4_def by (simp_all add: f1 rec s3(1,2) strip_def node_at_def)
  from node_atD [OF s4(4)] node_atD [OF s4(5)] obtain n1 n2 where "mq_heap (mq s4) 11 = Some n1" "strip n1 = strip k1"
    "mq_heap (mq s4) 12 = Some n2" "strip n2 = \<lparr>pid = p, port_num = BASEPORT, ack_flg = 0, ack_count = 0,
       buffer = cut_short m2 @ j2, buf_len = length m2 + 1, lc = 4, uid = generate_uid (word_of_int p) 3, nprocs = 1,
       mq_next = None\<rparr>" by blast
  with that [OF j1 j2 s4(3,1,2)] k1(2) show thesis by simp
qed

section \<open>Properties\<close>



end
