(* ===== verification/TobDelivery.thy ===== *)
theory TobDelivery
  imports TobRun
begin

text \<open>
  One message through a system of any number of processes, from the request of a client to the shared
  file: while no other message is on its way, it is broadcast, queued everywhere, acknowledged by all,
  delivered once and taken off every queue.
\<close>

section \<open>Serving the connection that came first\<close>

lemma serve_first:
  assumes "tob_reach t0 \<lparr>procs = ss, net = (BASEPORT + int i, bytes) # cs, app_file = f\<rparr>"
    and "i < length ss" "ss ! i = Some s" "honest env s" and "tob_handle_client env [Bytes bytes] s = ret (s', out)"
  shows "tob_reach t0 \<lparr>procs = ss[i := Some s'], net = cs @ sent_out out, app_file = f @ delivered out\<rparr>"
  using tob_reach.step [OF assms(1) tob_step.serve [of _ "[]" i bytes cs s "[Bytes bytes]" env s' out]] assms(2-5)
  by simp

section \<open>What a single process does\<close>

text \<open>A process with an empty queue, and one in whose queue the message waits with \<open>c\<close> acknowledgements.\<close>

definition idle :: "int \<Rightarrow> tob_proc \<Rightarrow> bool" where
  "idle n s \<longleftrightarrow> queue_is s [] \<and> mq_heap (mq s) 11 = None \<and> nproc s = n \<and> shared s"

definition waiting :: "int \<Rightarrow> string \<Rightarrow> 32 word \<Rightarrow> int \<Rightarrow> tob_proc \<Rightarrow> bool" where
  "waiting n msg u c s \<longleftrightarrow> shared s \<and> queue_is s [11] \<and> (\<exists>nd junk. mq_heap (mq s) 11 = Some nd \<and> length junk = 6 \<and>
     buffer nd = cut_short msg @ junk \<and> buf_len nd = length msg + 1 \<and> uid nd = u \<and> nprocs nd = n \<and> ack_count nd = c)"

lemma idle_broadcast:
  assumes s: "idle n s" and f: "bcast_fits m ts" "6 \<le> buf_len m"
    and m: "take (buf_len m - 5) (buffer m) = cut_short msg" "buf_len m = length msg + 1"
  shows "\<exists>s'. tob_handle_client (sample_tob_env (Some 11)) [Bytes (bcast_sent m ts)] s =
      ret (s', [Transmit (port_num m) (ack_message (pid m) (uid m)), Reply (''ACK'' @ CRLF)]) \<and>
    waiting n msg (uid m) 0 s'"
proof -
  have q: "queue_is s []" "mq_heap (mq s) 11 = None" "nproc s = n" "shared s" using s by (simp_all add: idle_def)
  from handle_broadcast_queue [OF sample_tob_env_calm f q(1,2)] obtain junk s' bs where j: "length junk = 6" and
    b: "let k = (\<lambda>x. if x = 11 then received m ts (nproc s) junk else the (mq_heap (mq s) x)); h = hd bs in
     handle_broadcast (sample_tob_env (Some 11)) [Bytes (drop 7 (bcast_sent m ts))] s =
       ret (s', if ack_flg (k h) = 0 then [Transmit (port_num (k h)) (ack_message (pid (k h)) (uid (k h)))] else []) \<and>
     queue_is s' bs \<and> set bs = insert 11 (set []) \<and> length bs = length ([] :: addr list) + 1 \<and> ordered k bs \<and>
     s' = s\<lparr>clock := adjusted ts (clock s), mq := mq s'\<rparr> \<and>
     map_option strip (mq_heap (mq s') h) = Some (strip (k h)\<lparr>ack_flg := if ack_flg (k h) = 0 then 1 else ack_flg (k h)\<rparr>) \<and>
     (\<forall>x. x \<noteq> h \<longrightarrow> map_option strip (mq_heap (mq s') x) =
        map_option strip (((mq_heap (mq s))(11 \<mapsto> received m ts (nproc s) junk)) x))" by (elim exE conjE)
  have bs: "bs = [11]" using b unfolding Let_def by (cases bs) auto
  let ?r = "received m ts n junk"
  have r: "port_num ?r = port_num m" "pid ?r = pid m" "uid ?r = uid m" "ack_flg ?r = 0" "ack_count ?r = 0"
    "nprocs ?r = n" "buffer ?r = cut_short msg @ junk" "buf_len ?r = length msg + 1"
    using m by (simp_all add: received_def)
  have h: "handle_broadcast (sample_tob_env (Some 11)) [Bytes (drop 7 (bcast_sent m ts))] s =
      ret (s', [Transmit (port_num m) (ack_message (pid m) (uid m))])"
    and q': "queue_is s' [11]" and s': "s' = s\<lparr>clock := adjusted ts (clock s), mq := mq s'\<rparr>"
    and nd: "map_option strip (mq_heap (mq s') 11) = Some (strip ?r\<lparr>ack_flg := 1\<rparr>)"
    using b unfolding bs Let_def q(3) by (simp_all add: r)
  from nd obtain nd where nd: "mq_heap (mq s') 11 = Some nd" "strip nd = strip ?r\<lparr>ack_flg := 1\<rparr>" by auto
  have f: "buffer nd = buffer ?r" "buf_len nd = buf_len ?r" "uid nd = uid ?r" "nprocs nd = nprocs ?r"
    "ack_count nd = ack_count ?r"
    using nd(2) [THEN arg_cong, of buffer] nd(2) [THEN arg_cong, of buf_len] nd(2) [THEN arg_cong, of uid]
      nd(2) [THEN arg_cong, of nprocs] nd(2) [THEN arg_cong, of ack_count] by (simp_all add: strip_def)
  have "shared s'" using s' q(4) by (metis tob_proc.select_convs(6) tob_proc.surjective tob_proc.update_convs(4,5))
  with q' nd(1) f r j have "waiting n msg (uid m) 0 s'" unfolding waiting_def by metis
  moreover have "tob_handle_client (sample_tob_env (Some 11)) [Bytes (bcast_sent m ts)] s =
      ret (s', [Transmit (port_num m) (ack_message (pid m) (uid m)), Reply (''ACK'' @ CRLF)])"
    using assms(2) by (simp add: connection(2) [OF sample_tob_env_calm(1)] h)
  ultimately show ?thesis by blast
qed

lemma waiting_find:
  "waiting n msg u c s \<Longrightarrow> find (\<lambda>a. uid (the (mq_heap (mq s) a)) = u) [11] = Some 11"
  by (auto simp: waiting_def)

lemma waiting_ack:
  assumes s: "waiting n msg u c s" and p: "0 \<le> p" "p < 2 ^ 31" and c: "c + 1 \<noteq> n"
  shows "\<exists>s'. tob_handle_client (sample_tob_env None) [Bytes (ack_message p u)] s = ret (s', [Reply (''ACK'' @ CRLF)]) \<and>
    waiting n msg u (c + 1) s'"
proof -
  obtain nd junk where w: "shared s" "queue_is s [11]" "mq_heap (mq s) 11 = Some nd" "length junk = 6"
    "buffer nd = cut_short msg @ junk" "buf_len nd = length msg + 1" "uid nd = u" "nprocs nd = n" "ack_count nd = c"
    using s by (auto simp: waiting_def)
  let ?nd = "ack_count_update (\<lambda>c. c + 1) nd"
  let ?s = "s\<lparr>mq := (mq s)\<lparr>mq_heap := (mq_heap (mq s))(11 \<mapsto> ?nd)\<rparr>\<rparr>"
  have "handle_ack (sample_tob_env None) [Bytes (drop 7 (ack_message p u))] s = ret (?s, [])"
    by (rule handle_ack_below [OF p w(2) waiting_find [OF s] w(3)]) (use c w in simp)
  then have "tob_handle_client (sample_tob_env None) [Bytes (ack_message p u)] s = ret (?s, [Reply (''ACK'' @ CRLF)])"
    by (simp add: connection(3) [OF sample_tob_env_calm(1) p])
  moreover have "queue_is ?s [11]"
    using w(2,3) by (auto simp: lqueue_def)
  then have "waiting n msg u (c + 1) ?s" unfolding waiting_def using w by auto
  ultimately show ?thesis by blast
qed

definition announced :: "32 word \<Rightarrow> tob_proc \<Rightarrow> bool" where
  "announced u s \<longleftrightarrow> queue_is s [11] \<and> (\<exists>nd. mq_heap (mq s) 11 = Some nd \<and> uid nd = u)"

lemma waiting_announced: "waiting n msg u c s \<Longrightarrow> announced u s"
  by (auto simp: waiting_def announced_def)

lemma waiting_last_ack:
  assumes s: "waiting n msg u c s" and p: "0 \<le> p" "p < 2 ^ 31" and c: "c + 1 = n" and m: "5 \<le> length msg"
  shows "\<exists>s' junk. length junk = 5 \<and> tob_handle_client (sample_tob_env None) [Bytes (ack_message p u)] s =
      ret (s', map (\<lambda>i. Transmit (BASEPORT + int i) (ready_message u)) [0..<nat n] @
        [Deliver (cut_short msg @ junk), Reply (''ACK'' @ CRLF)]) \<and> announced u s'"
proof -
  obtain nd junk where w: "shared s" "queue_is s [11]" "mq_heap (mq s) 11 = Some nd" "length junk = 6"
    "buffer nd = cut_short msg @ junk" "buf_len nd = length msg + 1" "uid nd = u" "nprocs nd = n" "ack_count nd = c"
    using s by (auto simp: waiting_def)
  have l: "length (buffer nd) = buf_len nd + 1" using w(4-6) m by (simp add: cut_short_def)
  have out: "(if ack_count nd + 1 = nprocs nd then map (\<lambda>i. Transmit (BASEPORT + int i) (ready_message u)) [0..<nat (nprocs nd)] @
      [Deliver (take (buf_len nd) (buffer nd))] else []) =
    map (\<lambda>i. Transmit (BASEPORT + int i) (ready_message u)) [0..<nat n] @ [Deliver (cut_short msg @ take 5 junk)]"
    using w(4-9) c m by (simp add: cut_short_def)
  from handle_ack_counts [OF sample_tob_env_calm(1) p w(2) waiting_find [OF s] w(3) l w(1), of None] obtain s' where
    h: "handle_ack (sample_tob_env None) [Bytes (drop 7 (ack_message p u))] s =
      ret (s', map (\<lambda>i. Transmit (BASEPORT + int i) (ready_message u)) [0..<nat n] @ [Deliver (cut_short msg @ take 5 junk)])"
    "queue_is s' [11]" "\<exists>n'. mq_heap (mq s') 11 = Some n' \<and> uid n' = uid nd" unfolding out by blast
  have "tob_handle_client (sample_tob_env None) [Bytes (ack_message p u)] s =
      ret (s', map (\<lambda>i. Transmit (BASEPORT + int i) (ready_message u)) [0..<nat n] @
        [Deliver (cut_short msg @ take 5 junk), Reply (''ACK'' @ CRLF)])"
    by (simp add: connection(3) [OF sample_tob_env_calm(1) p] h(1))
  moreover have "announced u s'" using h(2,3) w(7) by (auto simp: announced_def)
  moreover have "length (take 5 junk) = 5" using w(4) by simp
  ultimately show ?thesis by blast
qed

lemma announced_ready:
  assumes "announced u s"
  shows "\<exists>s'. tob_handle_client (sample_tob_env None) [Bytes (ready_message u)] s = ret (s', [Reply (''ACK'' @ CRLF)]) \<and>
    mq_head (mq s') = None"
proof -
  from assms obtain nd where n: "queue_is s [11]" "mq_heap (mq s) 11 = Some nd" "uid nd = u"
    by (auto simp: announced_def)
  then have "mq_next nd = None" by (auto simp: lqueue_def)
  with mq_dequeue_head [OF lqueueD [OF n(1)] n(2,3)] show ?thesis
    by (simp add: connection(4) [OF sample_tob_env_calm(1)] handle_ready_dequeues)
qed

section \<open>What all of them do\<close>

text \<open>\<open>all_are P ss\<close>: every process is there and satisfies \<open>P\<close>, which may depend on its place.\<close>

definition all_are :: "(nat \<Rightarrow> tob_proc \<Rightarrow> bool) \<Rightarrow> tob_proc option list \<Rightarrow> bool" where
  "all_are P ss \<longleftrightarrow> (\<forall>j < length ss. \<exists>s. ss ! j = Some s \<and> P j s)"

lemma all_areD: "all_are P ss \<Longrightarrow> j < length ss \<Longrightarrow> \<exists>s. ss ! j = Some s \<and> P j s"
  by (simp add: all_are_def)

lemma all_are_update:
  "all_are P ss \<Longrightarrow> k < length ss \<Longrightarrow> Q k s \<Longrightarrow> (\<And>j s. j \<noteq> k \<Longrightarrow> P j s \<Longrightarrow> Q j s) \<Longrightarrow> all_are Q (ss[k := Some s])"
  by (auto simp: all_are_def nth_list_update)

lemma sent_out_map [simp]: "sent_out (map (\<lambda>i. Transmit (f i) (g i)) is) = map (\<lambda>i. (f i, g i)) is"
  by (induction "is") simp_all

lemma delivered_map [simp]: "delivered (map (\<lambda>i. Transmit (f i) (g i)) is) = []"
  by (induction "is") simp_all

lemma replicate_snoc: "replicate (Suc k) x = replicate k x @ [x]"
  by (simp add: replicate_append_same)

lemma upt_first: "k < n \<Longrightarrow> [k..<n] = k # [Suc k..<n]"
  by (rule upt_conv_Cons)

text \<open>The broadcasts are received, by the first \<open>k\<close> processes.\<close>

lemma run_broadcasts:
  assumes r: "tob_reach t0 \<lparr>procs = ss, net = map (\<lambda>j. (BASEPORT + int j, bcast_sent m ts)) [0..<length ss], app_file = f\<rparr>"
    and a: "all_are (\<lambda>j. idle n) ss"
    and m: "bcast_fits m ts" "6 \<le> buf_len m" "take (buf_len m - 5) (buffer m) = cut_short msg" "buf_len m = length msg + 1"
    and k: "k \<le> length ss"
  shows "\<exists>ss'. tob_reach t0 \<lparr>procs = ss', net = map (\<lambda>j. (BASEPORT + int j, bcast_sent m ts)) [k..<length ss] @
      replicate k (port_num m, ack_message (pid m) (uid m)), app_file = f\<rparr> \<and> length ss' = length ss \<and>
    all_are (\<lambda>j s. if j < k then waiting n msg (uid m) 0 s else idle n s) ss'"
  using k
proof (induction k)
  case 0
  with r a show ?case by auto
next
  case (Suc k)
  then obtain ss' where ss: "tob_reach t0 \<lparr>procs = ss', net = map (\<lambda>j. (BASEPORT + int j, bcast_sent m ts)) [k..<length ss] @
      replicate k (port_num m, ack_message (pid m) (uid m)), app_file = f\<rparr>" "length ss' = length ss"
    "all_are (\<lambda>j s. if j < k then waiting n msg (uid m) 0 s else idle n s) ss'" by auto
  from all_areD [OF ss(3), of k] Suc.prems ss(2) obtain s where s: "ss' ! k = Some s" "idle n s" by auto
  from idle_broadcast [OF s(2) m] obtain s' where
    h: "tob_handle_client (sample_tob_env (Some 11)) [Bytes (bcast_sent m ts)] s =
      ret (s', [Transmit (port_num m) (ack_message (pid m) (uid m)), Reply (''ACK'' @ CRLF)])"
    "waiting n msg (uid m) 0 s'" by blast
  have hon: "honest (sample_tob_env (Some 11)) s" using s(2) by (intro sample_honest) (simp add: idle_def)
  have "tob_reach t0 \<lparr>procs = ss', net = (BASEPORT + int k, bcast_sent m ts) #
      (map (\<lambda>j. (BASEPORT + int j, bcast_sent m ts)) [Suc k..<length ss] @
       replicate k (port_num m, ack_message (pid m) (uid m))), app_file = f\<rparr>"
    using ss(1) Suc.prems by (simp add: upt_first)
  from serve_first [OF this _ s(1) hon h(1)] ss(2) Suc.prems
  have "tob_reach t0 \<lparr>procs = ss'[k := Some s'], net = map (\<lambda>j. (BASEPORT + int j, bcast_sent m ts)) [Suc k..<length ss] @
      replicate (Suc k) (port_num m, ack_message (pid m) (uid m)), app_file = f\<rparr>"
    by (simp add: replicate_snoc del: replicate_Suc)
  moreover have "all_are (\<lambda>j s. if j < Suc k then waiting n msg (uid m) 0 s else idle n s) (ss'[k := Some s'])"
    by (rule all_are_update [OF ss(3)]) (use Suc.prems ss(2) h(2) in \<open>simp_all add: less_Suc_eq\<close>)
  ultimately show ?case using ss(2) by (intro exI [of _ "ss'[k := Some s']"] conjI) (assumption | simp)+
qed

text \<open>The issuer counts the first \<open>k\<close> acknowledgements, not yet all of them.\<close>

lemma run_acks:
  assumes r: "tob_reach t0 \<lparr>procs = ss, net = replicate (length ss) (BASEPORT + int i, ack_message p u), app_file = f\<rparr>"
    and a: "all_are (\<lambda>j. waiting (int (length ss)) msg u 0) ss" and i: "i < length ss" and p: "0 \<le> p" "p < 2 ^ 31"
    and k: "k < length ss"
  shows "\<exists>s. tob_reach t0 \<lparr>procs = ss[i := Some s], net = replicate (length ss - k) (BASEPORT + int i, ack_message p u),
      app_file = f\<rparr> \<and> waiting (int (length ss)) msg u (int k) s"
  using k
proof (induction k)
  case 0
  from all_areD [OF a i] obtain s where "ss ! i = Some s" "waiting (int (length ss)) msg u 0 s" by blast
  moreover from this(1) have "ss[i := Some s] = ss" using list_update_id by metis
  ultimately show ?case using r by (intro exI [of _ s]) simp
next
  case (Suc k)
  then obtain s where s: "tob_reach t0 \<lparr>procs = ss[i := Some s], net = replicate (length ss - k) (BASEPORT + int i, ack_message p u),
      app_file = f\<rparr>" "waiting (int (length ss)) msg u (int k) s" by auto
  from waiting_ack [OF s(2) p] Suc.prems obtain s' where
    h: "tob_handle_client (sample_tob_env None) [Bytes (ack_message p u)] s = ret (s', [Reply (''ACK'' @ CRLF)])"
    "waiting (int (length ss)) msg u (int k + 1) s'" by fastforce
  have "length ss - k = Suc (length ss - Suc k)" using Suc.prems by simp
  with serve_first [OF _ _ _ sample_honest_none h(1), of t0 "ss[i := Some s]" i "replicate (length ss - Suc k) (BASEPORT + int i, ack_message p u)" f]
    s(1) i show ?case
    using h(2) by (intro exI [of _ s']) (simp add: add.commute)
qed

text \<open>The message is taken off the queues of the first \<open>k\<close> processes.\<close>

lemma run_ready:
  assumes r: "tob_reach t0 \<lparr>procs = ss, net = map (\<lambda>j. (BASEPORT + int j, ready_message u)) [0..<length ss], app_file = f\<rparr>"
    and a: "all_are (\<lambda>j. announced u) ss" and k: "k \<le> length ss"
  shows "\<exists>ss'. tob_reach t0 \<lparr>procs = ss', net = map (\<lambda>j. (BASEPORT + int j, ready_message u)) [k..<length ss], app_file = f\<rparr> \<and>
    length ss' = length ss \<and> all_are (\<lambda>j s. if j < k then mq_head (mq s) = None else announced u s) ss'"
  using k
proof (induction k)
  case 0
  with r a show ?case by auto
next
  case (Suc k)
  then obtain ss' where ss: "tob_reach t0 \<lparr>procs = ss', net = map (\<lambda>j. (BASEPORT + int j, ready_message u)) [k..<length ss], app_file = f\<rparr>"
    "length ss' = length ss" "all_are (\<lambda>j s. if j < k then mq_head (mq s) = None else announced u s) ss'" by auto
  from all_areD [OF ss(3), of k] Suc.prems ss(2) obtain s where s: "ss' ! k = Some s" "announced u s" by auto
  from announced_ready [OF s(2)] obtain s' where
    h: "tob_handle_client (sample_tob_env None) [Bytes (ready_message u)] s = ret (s', [Reply (''ACK'' @ CRLF)])"
    "mq_head (mq s') = None" by blast
  from serve_first [OF _ _ s(1) sample_honest_none h(1)] ss(1,2) Suc.prems
  have "tob_reach t0 \<lparr>procs = ss'[k := Some s'], net = map (\<lambda>j. (BASEPORT + int j, ready_message u)) [Suc k..<length ss], app_file = f\<rparr>"
    by (simp add: upt_first)
  moreover have "all_are (\<lambda>j s. if j < Suc k then mq_head (mq s) = None else announced u s) (ss'[k := Some s'])"
    by (rule all_are_update [OF ss(3)]) (use Suc.prems ss(2) h(2) in \<open>simp_all add: less_Suc_eq\<close>)
  ultimately show ?case using ss(2) by (intro exI [of _ "ss'[k := Some s']"] conjI) (assumption | simp)+
qed

section \<open>Properties\<close>



end
