(* ===== verification/TobApp.thy ===== *)
theory TobApp
  imports TobSystem KvClient
begin

text \<open>
  The client of the broadcast program, \<open>client_app.c\<close>, from its arguments and the file of ports to
  the bytes it sends, and the older \<open>send_p2p_ack\<close> of \<open>ack_handle.c\<close>, which no program links.
\<close>

section \<open>Choosing a port\<close>

lemma strtok_shorter: "strtok delims s = Some (tok, rest) \<Longrightarrow> length rest < length s"
proof -
  assume a: "strtok delims s = Some (tok, rest)"
  define t where "t = dropWhile (\<lambda>c. c \<in> set delims) s"
  define u where "u = dropWhile (\<lambda>c. c \<notin> set delims) t"
  have t: "t \<noteq> []" "rest = drop 1 u"
    using a unfolding strtok_def Let_def t_def [symmetric] u_def [symmetric] by (simp_all split: if_splits)
  have "length t \<le> length s" "length u \<le> length t" by (simp_all add: t_def u_def length_dropWhile_le)
  moreover have "length rest \<le> length u - 1" "0 < length t" using t by simp_all
  ultimately show ?thesis by linarith
qed

text \<open>The loop over \<open>strtok (\<dots>, "\n")\<close> that counts the ports.\<close>

function count_ports :: "string \<Rightarrow> nat" where
  "count_ports s = (case strtok [LF] s of None \<Rightarrow> 0 | Some (token, rest) \<Rightarrow> Suc (count_ports rest))"
  by pat_completeness auto
termination
  by (relation "measure length") (auto simp: strtok_shorter)

declare count_ports.simps [simp del]

definition MAXPORTS :: nat where "MAXPORTS = 10"

text \<open>
  Up to 60 bytes of the file are read into an array that holds \<open>junk\<close> before. Nothing terminates
  what was read: \<open>strtok\<close> goes on over the rest of the array, and beyond it.
\<close>

definition listed_ports :: "string \<Rightarrow> string \<Rightarrow> nat prog" where
  "listed_ports content junk =
     (let ports_b = take (MAXPORTS * 6) content; ports_buffer = ports_b @ drop (length ports_b) junk in
      if NUL \<in> set ports_buffer then ret (count_ports (cstr ports_buffer)) else stop_with Out_of_bounds)"

section \<open>The program\<close>

text \<open>The same code as in \<open>client.c\<close>.\<close>

definition app_sendFullBuffer :: "string \<Rightarrow> nat \<Rightarrow> nat option list \<Rightarrow> (int \<times> nat \<times> string) prog" where
  "app_sendFullBuffer buf len cs = sendFullBuffer buf len cs"

text \<open>
  \<open>main\<close>: the exit status, what was done to sockets, and the port of the connection with the bytes
  sent over it. \<open>ports\<close> is the content of \<open>listening_ports.txt\<close> (\<open>None\<close>: it cannot be opened or read),
  \<open>rnd\<close> what \<open>rand\<close> returns, \<open>env\<close> the system's answers, \<open>frame\<close> the array for the message. The socket
  is not closed when the server closes the connection without an answer.
\<close>

definition app_main ::
  "string list \<Rightarrow> string option \<Rightarrow> string \<Rightarrow> nat \<Rightarrow> os \<Rightarrow> (nat \<Rightarrow> string) \<Rightarrow> nat option list \<Rightarrow> arrival list \<Rightarrow>
   (int \<times> net_act list \<times> (int \<times> string) option) prog" where
  "app_main argv ports junk rnd env frame cs answer =
     (if length argv < 2 then ret (1, [], None)
      else case ports of
        None \<Rightarrow> ret (1, [], None)
      | Some content \<Rightarrow>
          bindp (listed_ports content junk) (\<lambda>num_ports.
          if num_ports = 0 then ret (1, [], None)
          else let port_num = 10000 + int (rnd mod num_ports) in
            bindp (app_connect env (dec_int port_num)) (\<lambda>(sockfd, acts).
            bindp (issue_message (argv ! 1) frame) (\<lambda>m.
            bindp (read_int sockfd) (\<lambda>sockfd. case m of
              None \<Rightarrow> ret (1, acts @ [Shut sockfd], Some (port_num, []))
            | Some msg_buffer \<Rightarrow>
                bindp (app_sendFullBuffer msg_buffer (length msg_buffer) cs) (\<lambda>(send_stat, _, out).
                if send_stat = 1 then ret (1, acts @ [Shut sockfd], Some (port_num, out))
                else bindp (recv answer 3) (\<lambda>(r, _). case r of
                  None \<Rightarrow> stop_with Exited
                | Some bs \<Rightarrow>
                    if bs = [] then ret (1, acts, Some (port_num, out))
                    else ret (0, acts @ [Shut sockfd], Some (port_num, out)))))))))"

section \<open>The superseded acknowledgement\<close>

definition old_ack_message :: "int \<Rightarrow> string" where
  "old_ack_message own_pid = ''ACK from PID '' @ dec_int own_pid"

definition old_send_p2p_ack :: "tob_env \<Rightarrow> int \<Rightarrow> int \<Rightarrow> effect list prog" where
  "old_send_p2p_ack env own_pid sender_port =
     (case opens env 0 of
        None \<Rightarrow> stop_with Exited
      | Some ok \<Rightarrow> ret (if ok then send_once env 0 sender_port (old_ack_message own_pid) else []))"

text \<open>A process would only answer it: its first seven bytes are the header of no operation.\<close>

lemma old_ack_ignored:
  assumes "calm env"
  shows "tob_handle_client env [Bytes (old_ack_message own_pid)] s = ret (s, [Reply (''ACK'' @ CRLF)])"
proof -
  obtain b bs where b: "behind env = b # bs" using calmD(4) [OF assms] by (cases "behind env") auto
  have l: "length (stack_mem env 7) = 7" by (rule calmD(3) [OF assms])
  have "recv [Bytes (''ACK fro'' @ ''m PID '' @ dec_int own_pid)] 7 = ret (Some ''ACK fro'', [Bytes (''m PID '' @ dec_int own_pid)])"
    by (rule recv_split) simp_all
  then have r: "recv [Bytes (old_ack_message own_pid)] 7 = ret (Some ''ACK fro'', [Bytes (''m PID '' @ dec_int own_pid)])"
    by (simp add: old_ack_message_def)
  have w: "write_at (''ACK fro'' @ drop 7 (stack_mem env 7) @ behind env) 7 [NUL] = ret (''ACK fro'' @ NUL # bs)"
    using l b by (simp add: write_at_def)
  have h: "cstr (''ACK fro'' @ NUL # bs) = ''ACK fro''" by (rule cstr_append) simp
  have seven: "length ''ACK fro'' = 7" by simp
  show ?thesis
    unfolding tob_handle_client_def r bindp_simps prod.case option.case seven w h Let_def by (simp add: strncmp_0_iff)
qed

section \<open>The ports that the server lists\<close>

lemma port_line_dec: "port_line i = dec (10000 + i) @ [LF]"
  by (simp add: port_line_def dec_int_def BASEPORT_def nat_add_distrib)

lemma LF_NUL_notin_dec: "LF \<notin> set (dec n)" "NUL \<notin> set (dec n)"
  using dec_digits [of n] by auto

lemma count_port_lines: "count_ports (concat (map port_line is)) = length is"
proof (induction "is")
  case Nil
  then show ?case by (simp add: count_ports.simps strtok_def)
next
  case (Cons i "is")
  have "strtok [LF] (dec (10000 + i) @ LF # concat (map port_line is)) = Some (dec (10000 + i), concat (map port_line is))"
    by (rule strtok_token) (use LF_NUL_notin_dec(1) [of "10000 + i"] in auto)
  then have "strtok [LF] (concat (map port_line (i # is))) = Some (dec (10000 + i), concat (map port_line is))"
    by (simp add: port_line_dec)
  then show ?case using Cons by (subst count_ports.simps) simp
qed

lemma length_port_line: "i < 10 \<Longrightarrow> length (port_line i) = 6"
  using length_dec_le [of 5 "10000 + i"] dec_ge_length [of 4 "10000 + i"] by (simp add: port_line_dec)

lemma length_port_lines: "k \<le> 10 \<Longrightarrow> length (concat (map port_line [0..<k])) = 6 * k"
  by (induction k) (simp_all add: length_port_line)

lemma NUL_notin_lines: "NUL \<notin> set (concat (map port_line is))"
  using LF_NUL_notin_dec(2) by (auto simp: port_line_dec)

text \<open>Up to nine ports leave room for a terminator, from ten on the array is full.\<close>

lemma listed_ports_few:
  assumes "k \<le> 9" and "junk ! (6 * k) = NUL" "length junk = 60"
  shows "listed_ports (concat (map port_line [0..<k])) junk = ret k"
proof -
  let ?c = "concat (map port_line [0..<k])"
  have l: "length ?c = 6 * k" by (rule length_port_lines) (use assms(1) in simp)
  then have "take 60 ?c = ?c" using assms(1) by simp
  moreover have "drop (6 * k) junk = NUL # drop (Suc (6 * k)) junk"
    using Cons_nth_drop_Suc [of "6 * k" junk] assms by simp
  ultimately show ?thesis
    using l count_port_lines [of "[0..<k]"] cstr_append [OF NUL_notin_lines]
    by (simp add: listed_ports_def MAXPORTS_def Let_def)
qed

lemma listed_ports_many:
  assumes "10 \<le> k" and "length junk = 60"
  shows "listed_ports (concat (map port_line [0..<k])) junk = stop_with Out_of_bounds"
proof -
  let ?c = "concat (map port_line [0..<10])"
  have "[0..<k] = [0..<10] @ [10..<k]" using assms upt_add_eq_append [of 0 10 "k - 10"] by simp
  then have s: "concat (map port_line [0..<k]) = ?c @ concat (map port_line [10..<k])"
    by (metis concat_append map_append)
  have l: "length ?c = 60" using length_port_lines [of 10] by simp
  then have "take 60 (concat (map port_line [0..<k])) = ?c" unfolding s by (simp del: upt.simps)
  moreover have "NUL \<notin> set ?c" by (rule NUL_notin_lines)
  ultimately show ?thesis
    using l assms(2) by (simp add: listed_ports_def MAXPORTS_def Let_def)
qed

section \<open>Properties\<close>

text \<open>
  C34: the client reads the file of ports that the server wrote. With one to nine processes, an array
  whose first byte behind the file's content is a zero, and a byte behind \<open>msg_buffer\<close> that may be
  overwritten by the terminator, it chooses the port of one of the processes, whatever \<open>rand\<close>
  returns, connects to it, sends its request and closes the connection. With ten or more processes it reads beyond its array
  before it has chosen a port.
\<close>

theorem app_reaches_server:
  assumes "server_main server_argv o1 o2 envs forks = Inr (content, True, t)" and "2 \<le> length argv" and "length junk = 60" and "length (issue_strip (argv ! 1)) < 10 ^ 6"
    and "17 + length (issue_strip (argv ! 1)) \<le> length (frame (7 + length (issue_strip (argv ! 1)) + 9))"
    and "answer = [Bytes (''ACK'' @ CRLF)]"
    and conn: "\<And>service. app_connect env service = ret (Some fd, [Opened fd, Connected fd (addr_of service)])"
  shows "(procs t \<noteq> [] \<and> length (procs t) \<le> 9 \<and> junk ! (6 * length (procs t)) = NUL \<longrightarrow>
      (\<exists>i < length (procs t). app_main argv (Some content) junk rnd env frame [] answer =
        ret (0, [Opened fd, Connected fd (addr_of (dec_int (BASEPORT + int i))), Shut fd],
          Some (BASEPORT + int i, issue_frame (issue_strip (argv ! 1)))))) \<and>
    (10 \<le> length (procs t) \<longrightarrow> app_main argv (Some content) junk rnd env frame [] answer = stop_with Out_of_bounds)"
proof -
  let ?m = "issue_strip (argv ! 1)" and ?k = "length (procs t)"
  obtain n ps where n: "num_process server_argv = Some n" "content = ports_file n"
    "fork_loop envs forks n 0 (nat n) = (True, ps)" "t = \<lparr>procs = ps, net = [], app_file = []\<rparr>"
    by (rule server_mainD [OF assms(1)]) (rule that)
  then have k: "?k = nat n" using fork_loop_facts(2) [OF n(3)] by simp
  then have c: "content = concat (map port_line [0..<?k])" using n(2) by (simp add: ports_file_def)
  have "\<exists>i < ?k. app_main argv (Some content) junk rnd env frame [] answer =
      ret (0, [Opened fd, Connected fd (addr_of (dec_int (BASEPORT + int i))), Shut fd], Some (BASEPORT + int i, issue_frame ?m))"
    if few: "0 < ?k" "?k \<le> 9" "junk ! (6 * ?k) = NUL"
  proof -
    have "issue_frame ?m \<noteq> []" by (simp add: issue_frame_def)
    then obtain l where l: "app_sendFullBuffer (issue_frame ?m) (length (issue_frame ?m)) [] =
        ret (if l < length (issue_frame ?m) then 1 else 0, l, take l (issue_frame ?m))" "l = length (issue_frame ?m)"
      using sendFullBuffer_prefix [of "length (issue_frame ?m)" "issue_frame ?m" "[]"]
      by (fastforce simp: app_sendFullBuffer_def)
    have "recv answer 3 = ret (Some ''ACK'', [Bytes CRLF])" using assms(6) by (simp add: CRLF_def)
    with l have "app_main argv (Some content) junk rnd env frame [] answer =
        ret (0, [Opened fd, Connected fd (addr_of (dec_int (BASEPORT + int (rnd mod ?k)))), Shut fd],
          Some (BASEPORT + int (rnd mod ?k), issue_frame ?m))"
      using assms(2) few(1) listed_ports_few [OF few(2,3) assms(3)] issue_message_frame [where frame = frame, OF assms(4,5) refl]
      unfolding app_main_def c by (simp add: BASEPORT_def Let_def conn read_int_def)
    then show ?thesis using few(1) by (intro exI [of _ "rnd mod ?k"]) simp
  qed
  moreover have "app_main argv (Some content) junk rnd env frame [] answer = stop_with Out_of_bounds" if "10 \<le> ?k"
    using assms(2) listed_ports_many [OF that assms(3)] unfolding app_main_def c by simp
  ultimately show ?thesis by blast
qed

theorem app_reaches_server_witness:
  "\<exists>i < 2. app_main [''client'', ''hello''] (Some (ports_file 2)) (replicate 60 NUL) 7
      (sample_os\<lparr>os_getaddrinfo := \<lambda>_ s. Inr [sample_addr s, sample_addr s]\<rparr>) (\<lambda>n. replicate (n + 1) NUL) []
      [Bytes (''ACK'' @ CRLF)] = ret (0, [Opened 3, Connected 3 (dec_int (BASEPORT + int i)), Shut 3], Some (BASEPORT + int i, issue_frame ''hello''))"
proof -
  have s: "issue_strip ([''client'', ''hello''] ! 1) = ''hello''" by (simp add: issue_strip_def)
  have "fork_loop (\<lambda>_. sample_os) (\<lambda>_. 17) 2 0 2 = (True, [sock_serve sample_os 17 BASEPORT 2, sock_serve sample_os 17 (BASEPORT + 1) 2])"
    by (simp add: eval_nat_numeral)
  then have m: "server_main [''server''] True True (\<lambda>_. sample_os) (\<lambda>_. 17) = Inr (ports_file 2, True,
      \<lparr>procs = [sock_serve sample_os 17 BASEPORT 2, sock_serve sample_os 17 (BASEPORT + 1) 2], net = [], app_file = []\<rparr>)"
    by (simp add: server_main_def init_shared_file_def num_process_def NUMPROC_def)
  let ?os = "sample_os\<lparr>os_getaddrinfo := \<lambda>_ s. Inr [sample_addr s, sample_addr s]\<rparr>"
  have "app_connect ?os s = ret (Some 3, [Opened 3, Connected 3 (id s)])" for s
    by (simp add: app_connect_def address_loop_step [of _ _ _ _ 0] connect_attempt_def)
      (simp add: sample_os_def sample_addr_def)
  then show ?thesis
    using app_reaches_server [OF m, of "[''client'', ''hello'']" "replicate 60 NUL" "\<lambda>n. replicate (n + 1) NUL"
      "[Bytes (''ACK'' @ CRLF)]" ?os 3 id 7, unfolded s]
    by auto
qed

end
