(* ===== verification/Spec2Isabelle.thy ===== *)
theory Spec2Isabelle
  imports Prelude FifoPool ThreadQueue CLib Sockets NetSetup KvClient HashMap HashQueue KvStore KvServer
    KvHandler KvRecovery KvSystem KvMain KvDescriptors KvTypes Outcome TobQueue TobCodec TobHandlers
    TobConn TobInv TobSystem TobRun TobDelivery TobApp
begin

text \<open>
  A model of the C programs of the repository and what holds of them. There are two:

  \<^item> \<open>src/memcache_lite\<close>, a key-value server and its client. The main thread accepts connections and
    queues them; connection workers parse a request and queue it again; request workers serve it from
    a hash table, write a log, and reply. On a start the table is rebuilt from the log.
  \<^item> \<open>src/TOB\<close>, a totally ordered broadcast. A number of single threaded processes pass messages to
    each other: one that an application issues is broadcast, queued by its Lamport timestamp,
    acknowledged by every process, delivered to a shared file and announced as ready.

  \<^bold>\<open>How C is modelled.\<close> A piece of code is a function to \<open>prog\<close> (\<open>Prelude\<close>): it returns a value, stops
  for a reason (\<open>stop\<close>: null or dangling pointer, access out of bounds, indeterminate value, signed
  overflow, \<open>exit\<close>, waiting for ever) or never returns, which is \<open>None\<close>. Loops that need not end are
  \<open>partial_function (option)\<close>, so no fuel is used anywhere; that a loop ends is a theorem. Globals
  and heaps are passed explicitly: a heap maps the allocated addresses to nodes, and what
  \<open>malloc\<close>, the network, \<open>rand\<close> or uninitialised memory answer is an argument. That \<open>malloc\<close>
  answers an unused address and a block of the size asked for is a hypothesis where it is needed.
  Machine integers are words where they wrap (\<open>unsigned int\<close>, \<open>size_t\<close>); \<open>int\<close> is \<open>int\<close>, with a stop where
  the code can overflow. \<open>CLib\<close> has the C library functions the code computes with, \<open>Sockets\<close> what
  \<open>recv\<close> and \<open>send\<close> may do: a connection is a list of arrivals, cut in any way, that may end or fail.
  \<open>Outcome\<close> has rules for what a program can do whatever comes in. \<open>NetSetup\<close> is how all four programs
  get their socket: \<open>getaddrinfo\<close>, the loop over the addresses with \<open>socket\<close>, \<open>setsockopt\<close>, \<open>bind\<close> or
  \<open>connect\<close>, and \<open>listen\<close>; what the system answers is the record \<open>os\<close>, what is left open the result.

  \<^bold>\<open>The key-value server.\<close>

  \<^item> \<open>HashMap\<close>: \<open>hashmap.c\<close>, the hash function (\<open>hash_string\<close>), the chains (\<open>create_node\<close>, \<open>insert_node\<close>,
    \<open>get_node\<close>, \<open>delete_node\<close>) and \<open>print_table\<close>. The lemmas relate the pointer programs to the list of
    all nodes, newest first (\<open>kv_rep\<close>): a lookup is a search in that list for the first accepted key.
  \<^item> \<open>ThreadQueue\<close>, \<open>HashQueue\<close>: \<open>threadqueue.c\<close> and the request queue of \<open>hashmap.c\<close>, as first-in first-out
    lists. \<open>FifoPool\<close> has the loop that \<open>client_threads\<close> and \<open>hash_threads\<close> of \<open>server_mt.c\<close> share,
    as a step relation over any queue, and the locale \<open>fifo\<close> of what it needs; both queues
    interpret it, which gives that nothing queued is lost, taken twice or left with all
    workers asleep.
  \<^item> \<open>KvStore\<close>: the locale \<open>kv_store\<close> between the table and its users, interpreted on \<open>hashmap.c\<close>.
  \<^item> \<open>KvServer\<close>: \<open>handle_client\<close> with \<open>parse_header_get\<close>, \<open>parse_header_set\<close>, \<open>parse_body\<close>. \<open>KvHandler\<close>:
    \<open>handle_hash\<close> and \<open>send_message_format\<close>; the log is the text appended to it. \<open>KvRecovery\<close>:
    \<open>init_hash_from_log\<close>. \<open>KvClient\<close>: \<open>main\<close> of \<open>client.c\<close>, from its arguments over the connection to the
    reply it prints.
  \<^item> \<open>KvSystem\<close>: the threads as steps between their locks (\<open>kv_step\<close>), an invariant of table, log and
    queue in all reachable states, and a value on its way from the client's arguments to the
    server's reply.
  \<^item> \<open>KvMain\<close>: \<open>main\<close> of \<open>server_mt.c\<close> with \<open>init_log\<close>, its accept loop and its worker threads as one step
    relation (\<open>kv_main_step\<close>) on the heaps and both queues. Every run of it is a run of \<open>kv_step\<close>, so
    what holds there holds of the program. \<open>KvDescriptors\<close> follows each accepted descriptor through
    queues and threads to its \<open>close\<close>, and shows which ones are never closed. \<open>KvTypes\<close>: what a
    node's fields hold in every state.

  \<^bold>\<open>The broadcast.\<close>

  \<^item> \<open>TobQueue\<close>: \<open>queue.c\<close>. \<open>order_queue\<close> is shown to be the library's \<open>sort_key\<close> by timestamp and descending
    process number (\<open>stamp\<close>, an instance of \<open>linorder\<close>), \<open>dequeue\<close> to remove the first message with an identifier; \<open>print_queue\<close>.
  \<^item> \<open>TobCodec\<close>: the messages and how they are read back (\<open>client_handle.c\<close>, \<open>client_app.c\<close>), identifiers,
    and \<open>send_buffer\<close> and \<open>recv_buffer\<close>.
  \<^item> \<open>TobHandlers\<close>: the rest of \<open>client_handle.c\<close>: a process (\<open>tob_proc\<close>) is its clock and queue, what a
    handler does to the world is a list of effects, and what allocator and network answer is
    a record \<open>tob_env\<close>. \<open>TobConn\<close>: whole connections, from the header to the answer, when nothing
    fails (\<open>calm\<close>). \<open>TobInv\<close>: any connection, whatever fails: the handlers end and keep the queue in
    order.
  \<^item> \<open>TobSystem\<close>: \<open>server.c\<close>, from its arguments over the file of ports and the loop that forks to the exit
    status, and the processes together (\<open>tob_step\<close>): connections are accepted in any order.
    The locale \<open>safe_process\<close> carries an invariant of one process to all; it is interpreted on
    \<open>handle_client\<close> with the invariant of \<open>TobInv\<close>. \<open>TobRun\<close>: two messages through a system of one
    process, the second of which is never delivered. \<open>TobDelivery\<close>: one message through a system of any number of
    processes, to the shared file. \<open>TobApp\<close>: \<open>client_app.c\<close> against the file of
    ports that the server wrote, and the unused \<open>ack_handle.c\<close>.

  \<^bold>\<open>Bounds.\<close> Hypotheses such as \<open>length msg < 10 ^ 6 - 1\<close> say that a number fits the column it is
  printed into. A connection that carries a message of the program is one piece in \<open>TobConn\<close> and \<open>TobRun\<close>;
  \<open>TobInv\<close> and \<open>TobSystem\<close> allow any pieces.

  \<^bold>\<open>Not modelled.\<close> Printing (but for \<open>print_table\<close> and \<open>print_queue\<close>), the text of an address
  (\<open>get_in_addr\<close>, \<open>inet_ntop\<close>), the random delay of a connection (\<open>randnum\<close>, \<open>usleep\<close>), and \<open>close_log\<close>, which
  nothing calls. \<open>pthread_create\<close>, and the allocation of the cell that carries an accepted
  descriptor in \<open>TOB/server.c\<close>, are taken to succeed; an \<open>accept\<close> that fails is tried again by the
  code and is no step. The descriptors of connections accepted in \<open>TOB\<close> are not counted.
  \<open>handle_broadcast\<close> prints the
  queue before it writes a terminator; the handler model leaves that read out, and
  \<open>TobQueue\<close> says when it leaves its block. Two threads never run inside the same lock, so a step is
  what happens between taking and releasing it. When a handler stops in the middle, the
  effects it had until then are lost in the model. The test programs are in comments and not part
  of the servers.
\<close>

end
